(* ===== verification/Prelude.thy ===== *)
theory Prelude
  imports "HOL-Library.Multiset"
begin

text \<open>
  Shared vocabulary of the development.

  Faults: a C++ operation either returns, throws one of the library's exceptions, or has
  undefined behaviour (dereferencing a singular iterator, splicing a node out of a list that
  does not hold it, signed overflow). The model keeps the three apart as values of a sum type, so
  that "this never happens" is a theorem. \<open>and_then\<close> sequences fallible operations.

  Lists: a \<open>std::list\<close> is a list of node addresses beside a store of node contents, and
  \<open>splice\<close> moves one address from one list to another; the lemmas on \<open>remove1\<close> below carry the
  accounting of nodes.

  Collections: \<open>exec\<close> (equations that run an operation of the model on given data) and
  \<open>inv_simps\<close> (the definitions of the invariants).
\<close>

named_theorems exec \<open>equations that execute operations of the model\<close>
named_theorems inv_simps \<open>definitions of invariants\<close>

subsection \<open>Faults and results\<close>

datatype 'e fault = Throws 'e | Undefined_Behaviour

definition and_then :: "'e fault + 'a \<Rightarrow> ('a \<Rightarrow> 'e fault + 'b) \<Rightarrow> 'e fault + 'b" where
  "and_then r f = (case r of Inl e \<Rightarrow> Inl e | Inr x \<Rightarrow> f x)"

lemma and_then_simps [simp, exec]:
  "and_then (Inl e) f = Inl e"
  "and_then (Inr x) f = f x"
  by (simp_all add: and_then_def)

lemma and_then_Inr_iff: "and_then r f = Inr y \<longleftrightarrow> (\<exists>x. r = Inr x \<and> f x = Inr y)"
  by (cases r) simp_all

lemma and_then_Inl_iff:
  "and_then r f = Inl e \<longleftrightarrow> r = Inl e \<or> (\<exists>x. r = Inr x \<and> f x = Inl e)"
  by (cases r) simp_all

lemma and_then_cong [fundef_cong]:
  "r = r' \<Longrightarrow> (\<And>x. r' = Inr x \<Longrightarrow> f x = g x) \<Longrightarrow> and_then r f = and_then r' g"
  by (cases r') simp_all

definition safe :: "'e fault + 'a \<Rightarrow> bool" where
  "safe r \<longleftrightarrow> r \<noteq> Inl Undefined_Behaviour"

lemma safe_simps [simp]:
  "safe (Inr x)" "safe (Inl (Throws e))" "\<not> safe (Inl Undefined_Behaviour)"
  by (simp_all add: safe_def)

lemma safe_and_then: "safe r \<Longrightarrow> (\<And>x. r = Inr x \<Longrightarrow> safe (f x)) \<Longrightarrow> safe (and_then r f)"
  by (cases r) (simp_all add: safe_def)

subsection \<open>Lists of node addresses\<close>

lemma length_remove1_mem: "x \<in> set xs \<Longrightarrow> Suc (length (remove1 x xs)) = length xs"
  by (induction xs) auto

lemma distinct_snoc_remove1:
  "distinct (xs @ ys) \<Longrightarrow> y \<in> set ys \<Longrightarrow> distinct ((xs @ [y]) @ remove1 y ys)"
  by auto

text \<open>The nodes of some lists are the first \<open>n\<close> addresses, each in one place.\<close>

definition nodes_of :: "nat \<Rightarrow> nat list \<Rightarrow> bool" where
  "nodes_of n xs \<longleftrightarrow> mset xs = mset [0..<n]"

lemma nodes_of_distinct: "nodes_of n xs \<Longrightarrow> distinct xs"
  unfolding nodes_of_def by (metis distinct_upt mset_eq_imp_distinct_iff)

lemma nodes_of_set: "nodes_of n xs \<Longrightarrow> set xs = {0..<n}"
  unfolding nodes_of_def by (metis set_mset_mset set_upt)

lemma nodes_of_length: "nodes_of n xs \<Longrightarrow> length xs = n"
  unfolding nodes_of_def by (metis size_mset diff_zero length_upt)

lemma nodes_of_upt [simp]: "nodes_of n [0..<n]"
  by (simp add: nodes_of_def)

lemma nodes_of_cong: "mset xs = mset ys \<Longrightarrow> nodes_of n xs = nodes_of n ys"
  by (simp add: nodes_of_def)

lemma nodes_of_snoc: "nodes_of n xs \<Longrightarrow> nodes_of (Suc n) (xs @ [length xs])"
  using nodes_of_length [of n xs] by (simp add: nodes_of_def)

lemma mset_remove1_add: "x \<in> set xs \<Longrightarrow> add_mset x (mset (remove1 x xs)) = mset xs"
  by simp

end
