(* ===== verification/Errors.thy ===== *)
theory Errors
  imports Prelude
begin

text \<open>
  \<open>error.hpp\<close>: the exceptions of the library, its error codes and their category.

  An \<open>error_code\<close> of Boost.System is a value paired with a category; the default one has value 0
  in the system category, and an error code converts to true exactly when its value is not 0. The
  codes of the library enter that type through \<open>make_error_code\<close>.
\<close>

subsection \<open>Exceptions\<close>

datatype logic_error = Empty_Handle | Unusable_Handle | Zero_Pool_Capacity | No_Message int

type_synonym 'a result = "logic_error fault + 'a"

fun decimal_nat :: "nat \<Rightarrow> string" where
  "decimal_nat n =
     (if n < 10 then [char_of (48 + n)] else decimal_nat (n div 10) @ [char_of (48 + n mod 10)])"

declare decimal_nat.simps [simp del]

definition decimal :: "int \<Rightarrow> string" where
  "decimal i = (if i < 0 then ''-'' @ decimal_nat (nat (- i)) else decimal_nat (nat i))"

fun what :: "logic_error \<Rightarrow> string" where
  "what Empty_Handle = ''handle is empty''"
| "what Unusable_Handle = ''handle is unusable''"
| "what Zero_Pool_Capacity = ''pool capacity is 0''"
| "what (No_Message i) = ''no message for yamail::resource_pool::error: '' @ decimal i"

subsection \<open>Error codes\<close>

datatype code = Ok | Get_Resource_Timeout | Request_Queue_Overflow | Disabled

fun code_value :: "code \<Rightarrow> int" where
  "code_value Ok = 0"
| "code_value Get_Resource_Timeout = 1"
| "code_value Request_Queue_Overflow = 2"
| "code_value Disabled = 3"

datatype error_category = System_Category | Pool_Category

record error_code =
  ec_value :: int
  ec_category :: error_category

definition no_error :: error_code where
  "no_error = \<lparr>ec_value = 0, ec_category = System_Category\<rparr>"

definition failed :: "error_code \<Rightarrow> bool" where
  "failed ec \<longleftrightarrow> ec_value ec \<noteq> 0"

definition make_error_code :: "code \<Rightarrow> error_code" where
  "make_error_code e = \<lparr>ec_value = code_value e, ec_category = Pool_Category\<rparr>"

definition category_name :: string where
  "category_name = ''yamail::resource_pool::error::detail::category''"

definition message :: "int \<Rightarrow> string result" where
  "message v =
     (if v = code_value Ok then Inr ''no error''
      else if v = code_value Get_Resource_Timeout then Inr ''get resource timeout''
      else if v = code_value Request_Queue_Overflow then Inr ''request queue overflow''
      else if v = code_value Disabled then Inr ''resource pool is disabled''
      else Inl (Throws (No_Message v)))"

lemma failed_simps [simp]:
  "\<not> failed no_error"
  "failed (make_error_code e) \<longleftrightarrow> e \<noteq> Ok"
  by (cases e; simp add: failed_def no_error_def make_error_code_def)+

lemma make_error_code_inject [simp]: "make_error_code e = make_error_code e' \<longleftrightarrow> e = e'"
  by (cases e; cases e'; simp add: make_error_code_def)

lemma make_error_code_neq [simp]:
  "make_error_code e \<noteq> no_error" "no_error \<noteq> make_error_code e"
  by (simp_all add: make_error_code_def no_error_def)

lemma code_value_inject [simp]: "code_value e = code_value e' \<longleftrightarrow> e = e'"
  by (cases e; cases e'; simp)

lemma range_code_value: "range code_value = {0, 1, 2, 3}"
proof -
  have "(UNIV :: code set) = {Ok, Get_Resource_Timeout, Request_Queue_Overflow, Disabled}"
    using code.exhaust by auto
  then show ?thesis
    by (metis (no_types) code_value.simps image_empty image_insert)
qed

text \<open>
  Every error code of the library has a message of its own, a code converts to an error exactly
  when it is not \<open>Ok\<close>, distinct codes give distinct error codes, none of which is the default one,
  and every other number is refused with an exception whose text ends in that number.
\<close>

theorem error_codes_have_messages:
  "(\<exists>f. (\<forall>e. message (code_value e) = Inr (f e)) \<and> inj f)
   \<and> (failed (make_error_code e) \<longleftrightarrow> e \<noteq> Ok)
   \<and> inj make_error_code \<and> make_error_code e \<noteq> no_error
   \<and> (v \<notin> range code_value \<longrightarrow>
        message v = Inl (Throws (No_Message v))
        \<and> what (No_Message v) = ''no message for yamail::resource_pool::error: '' @ decimal v)"
proof (intro conjI impI)
  define f where "f e = projr (message (code_value e))" for e
  have "message (code_value e) = Inr (f e)" for e
    by (cases e) (simp_all add: f_def message_def)
  moreover have "inj f"
  proof (rule injI)
    show "e = e'" if "f e = f e'" for e e'
      using that by (cases e; cases e') (simp_all add: f_def message_def)
  qed
  ultimately show "\<exists>f. (\<forall>e. message (code_value e) = Inr (f e)) \<and> inj f" by blast
  show "message v = Inl (Throws (No_Message v))" if "v \<notin> range code_value"
    using that by (simp add: message_def range_code_value)
qed (simp_all add: inj_def)

theorem error_codes_have_messages_witness:
  "message 17 = Inl (Throws (No_Message 17))
   \<and> what (No_Message 17) = ''no message for yamail::resource_pool::error: 17''"
proof -
  have "17 \<notin> range code_value"
    by (simp add: range_code_value)
  moreover have "decimal 17 = ''17''" by code_simp
  ultimately show ?thesis
    using error_codes_have_messages [of _ 17] by auto
qed

end
