(* ===== verification/Time_Traits.thy ===== *)
theory Time_Traits
  imports Errors "HOL-Library.Word"
begin

text \<open>
  \<open>time_traits.hpp\<close>: the clock types and the saturating addition \<open>time_traits::add\<close>.

  \<open>std::chrono::steady_clock\<close> counts in a signed integer of 64 bits; a \<open>duration\<close> and a
  \<open>time_point\<close> wrap such a count, and their order is the signed order of the counts. Signed
  overflow is undefined behaviour in C++, so the addition is given twice: \<open>add_checked\<close> faults
  where an intermediate result leaves the range, \<open>add\<close> computes on machine words. The theorems
  show that the first never faults and agrees with the second, and that \<open>add\<close> is the exact sum
  clamped to the range of the clock.
\<close>

subsection \<open>Durations and time points\<close>

datatype duration = Duration (ticks: "64 word")

datatype time_point = Time_Point (since_epoch: "64 word")

lemma duration_eqI: "sint (ticks d) = sint (ticks e) \<Longrightarrow> d = e"
  by (cases d; cases e) (simp add: signed_word_eqI)

lemma time_point_eqI: "sint (since_epoch t) = sint (since_epoch u) \<Longrightarrow> t = u"
  by (cases t; cases u) (simp add: signed_word_eqI)

instantiation duration :: linorder
begin

definition less_eq_duration :: "duration \<Rightarrow> duration \<Rightarrow> bool" where
  "less_eq_duration d e \<longleftrightarrow> sint (ticks d) \<le> sint (ticks e)"

definition less_duration :: "duration \<Rightarrow> duration \<Rightarrow> bool" where
  "less_duration d e \<longleftrightarrow> sint (ticks d) < sint (ticks e)"

instance
  by standard (auto simp: less_eq_duration_def less_duration_def intro: duration_eqI)

end

instantiation time_point :: linorder
begin

definition less_eq_time_point :: "time_point \<Rightarrow> time_point \<Rightarrow> bool" where
  "less_eq_time_point t u \<longleftrightarrow> sint (since_epoch t) \<le> sint (since_epoch u)"

definition less_time_point :: "time_point \<Rightarrow> time_point \<Rightarrow> bool" where
  "less_time_point t u \<longleftrightarrow> sint (since_epoch t) < sint (since_epoch u)"

instance
  by standard (auto simp: less_eq_time_point_def less_time_point_def intro: time_point_eqI)

end

lemmas duration_order = less_eq_duration_def less_duration_def
lemmas time_point_order = less_eq_time_point_def less_time_point_def

declare duration_order [exec] time_point_order [exec]

definition tick_min :: int where "tick_min = - (2 ^ 63)"
definition tick_max :: int where "tick_max = 2 ^ 63 - 1"

definition tick_range :: "int \<Rightarrow> bool" where
  "tick_range i \<longleftrightarrow> tick_min \<le> i \<and> i \<le> tick_max"

lemmas tick_defs = tick_min_def tick_max_def tick_range_def

definition epoch :: time_point where "epoch = Time_Point 0"
definition time_point_min :: time_point where "time_point_min = Time_Point (word_of_int tick_min)"
definition time_point_max :: time_point where "time_point_max = Time_Point (word_of_int tick_max)"
definition duration_min :: duration where "duration_min = Duration (word_of_int tick_min)"
definition duration_max :: duration where "duration_max = Duration (word_of_int tick_max)"
definition zero_duration :: duration where "zero_duration = Duration 0"

lemma sint_range64: "tick_range (sint (w :: 64 word))"
  using sint_lt [of w] sint_ge [of w] by (simp add: tick_defs)

lemma sint_of_int64: "tick_range i \<Longrightarrow> sint (word_of_int i :: 64 word) = i"
  by (simp add: sint_sbintrunc' signed_take_bit_int_eq_self tick_defs)

lemma tick_bounds: "tick_range tick_min" "tick_range tick_max" "tick_range 0"
  by (simp_all add: tick_defs)

lemma sint_limits [simp]:
  "sint (since_epoch epoch) = 0"
  "sint (since_epoch time_point_min) = tick_min"
  "sint (since_epoch time_point_max) = tick_max"
  "sint (ticks duration_min) = tick_min"
  "sint (ticks duration_max) = tick_max"
  "sint (ticks zero_duration) = 0"
  by (simp_all add: epoch_def time_point_min_def time_point_max_def duration_min_def
      duration_max_def zero_duration_def sint_of_int64 tick_bounds)

lemma time_point_max_top [simp]: "t \<le> time_point_max"
  using sint_range64 [of "since_epoch t"] by (simp add: time_point_order tick_range_def)

lemma time_point_min_bot [simp]: "time_point_min \<le> t"
  using sint_range64 [of "since_epoch t"] by (simp add: time_point_order tick_range_def)

subsection \<open>Addition\<close>

definition time_sub :: "time_point \<Rightarrow> time_point \<Rightarrow> duration" where
  "time_sub t u = Duration (since_epoch t - since_epoch u)"

definition duration_neg :: "duration \<Rightarrow> duration" where
  "duration_neg d = Duration (- ticks d)"

definition time_plus :: "time_point \<Rightarrow> duration \<Rightarrow> time_point" where
  "time_plus t d = Time_Point (since_epoch t + ticks d)"

definition add :: "time_point \<Rightarrow> duration \<Rightarrow> time_point" where
  "add t d =
     (if t \<ge> epoch then
        if time_sub time_point_max t < d then time_point_max else time_plus t d
      else
        if duration_neg (time_sub t time_point_min) > d then time_point_min else time_plus t d)"

text \<open>The same code with every signed operation checked for overflow.\<close>

definition checked :: "int \<Rightarrow> 'a \<Rightarrow> 'a result" where
  "checked i x = (if tick_range i then Inr x else Inl Undefined_Behaviour)"

definition time_sub_checked :: "time_point \<Rightarrow> time_point \<Rightarrow> duration result" where
  "time_sub_checked t u = checked (sint (since_epoch t) - sint (since_epoch u)) (time_sub t u)"

definition duration_neg_checked :: "duration \<Rightarrow> duration result" where
  "duration_neg_checked d = checked (- sint (ticks d)) (duration_neg d)"

definition time_plus_checked :: "time_point \<Rightarrow> duration \<Rightarrow> time_point result" where
  "time_plus_checked t d = checked (sint (since_epoch t) + sint (ticks d)) (time_plus t d)"

definition add_checked :: "time_point \<Rightarrow> duration \<Rightarrow> time_point result" where
  "add_checked t d =
     (if t \<ge> epoch then
        and_then (time_sub_checked time_point_max t) (\<lambda>left.
          if left < d then Inr time_point_max else time_plus_checked t d)
      else
        and_then (time_sub_checked t time_point_min) (\<lambda>room.
        and_then (duration_neg_checked room) (\<lambda>lowest.
          if lowest > d then Inr time_point_min else time_plus_checked t d)))"

lemmas checked_defs =
  checked_def time_sub_checked_def duration_neg_checked_def time_plus_checked_def

lemma sint_time_plus:
  "tick_range (sint (since_epoch t) + sint (ticks d)) \<Longrightarrow>
   sint (since_epoch (time_plus t d)) = sint (since_epoch t) + sint (ticks d)"
  by (simp add: time_plus_def sint_word_ariths signed_take_bit_int_eq_self tick_defs)

lemma sint_time_sub:
  "tick_range (sint (since_epoch t) - sint (since_epoch u)) \<Longrightarrow>
   sint (ticks (time_sub t u)) = sint (since_epoch t) - sint (since_epoch u)"
  by (simp add: time_sub_def sint_word_ariths signed_take_bit_int_eq_self tick_defs)

lemma sint_duration_neg:
  "tick_range (- sint (ticks d)) \<Longrightarrow> sint (ticks (duration_neg d)) = - sint (ticks d)"
  by (simp add: duration_neg_def sint_word_ariths signed_take_bit_int_eq_self tick_defs)

lemma add_steps_in_range:
  "0 \<le> sint (since_epoch t) \<Longrightarrow> tick_range (tick_max - sint (since_epoch t))"
  "sint (since_epoch t) < 0 \<Longrightarrow> tick_range (sint (since_epoch t) - tick_min)"
  "sint (since_epoch t) < 0 \<Longrightarrow> tick_range (tick_min - sint (since_epoch t))"
  using sint_range64 [of "since_epoch t"] by (simp_all add: tick_defs)

definition clamp :: "int \<Rightarrow> int" where
  "clamp i = max tick_min (min tick_max i)"

text \<open>The two differences the code takes are exact: they cannot leave the range.\<close>

lemma room_above:
  "0 \<le> sint (since_epoch t) \<Longrightarrow>
   sint (ticks (time_sub time_point_max t)) = tick_max - sint (since_epoch t)"
  using add_steps_in_range(1) by (simp add: sint_time_sub)

lemma room_below:
  assumes "sint (since_epoch t) < 0"
  shows "sint (ticks (time_sub t time_point_min)) = sint (since_epoch t) - tick_min"
    and "sint (ticks (duration_neg (time_sub t time_point_min)))
         = tick_min - sint (since_epoch t)"
proof -
  show sub: "sint (ticks (time_sub t time_point_min)) = sint (since_epoch t) - tick_min"
    using assms add_steps_in_range(2) by (simp add: sint_time_sub)
  show "sint (ticks (duration_neg (time_sub t time_point_min))) = tick_min - sint (since_epoch t)"
    using assms sub add_steps_in_range(3) by (simp add: sint_duration_neg)
qed

lemma sint_add: "sint (since_epoch (add t d)) = clamp (sint (since_epoch t) + sint (ticks d))"
proof (cases "0 \<le> sint (since_epoch t)")
  case True
  then show ?thesis
    using room_above [OF True] sint_range64 [of "ticks d"]
    by (auto simp: add_def duration_order time_point_order clamp_def sint_time_plus tick_defs)
next
  case False
  then have "sint (since_epoch t) < 0" by simp
  from False room_below [OF this] show ?thesis
    using sint_range64 [of "ticks d"]
    by (auto simp: add_def duration_order time_point_order clamp_def sint_time_plus tick_defs)
qed

lemma add_checked_eq: "add_checked t d = Inr (add t d)"
proof (cases "0 \<le> sint (since_epoch t)")
  case True
  then show ?thesis
    using room_above [OF True] add_steps_in_range(1) [OF True] sint_range64 [of "ticks d"]
    by (auto simp: add_def add_checked_def checked_defs duration_order time_point_order tick_defs)
next
  case False
  then have neg: "sint (since_epoch t) < 0" by simp
  from False room_below [OF neg] show ?thesis
    using add_steps_in_range(2,3) [OF neg] sint_range64 [of "ticks d"]
    by (auto simp: add_def add_checked_def checked_defs duration_order time_point_order tick_defs)
qed

lemma add_mono: "t \<le> u \<Longrightarrow> d \<le> e \<Longrightarrow> add t d \<le> add u e"
  by (auto simp: time_point_order duration_order sint_add clamp_def)

lemma add_ge: "zero_duration \<le> d \<Longrightarrow> t \<le> add t d"
  using sint_range64 [of "since_epoch t"]
  by (auto simp: time_point_order duration_order sint_add clamp_def tick_defs)

lemma add_gt:
  "zero_duration < d \<Longrightarrow> t < time_point_max \<Longrightarrow> t < add t d"
  using sint_range64 [of "since_epoch t"]
  by (auto simp: time_point_order duration_order sint_add clamp_def tick_defs)

text \<open>
  C31. The addition of a time point and a duration never overflows in any of its steps and yields the
  exact sum, saturated at the two ends of the clock's range.
\<close>

theorem add_saturates:
  "add_checked t d = Inr (add t d)
   \<and> sint (since_epoch (add t d))
     = max (- (2 ^ 63)) (min (2 ^ 63 - 1) (sint (since_epoch t) + sint (ticks d)))"
  using add_checked_eq sint_add by (simp add: clamp_def tick_defs)

end
