(* ===== verification/Storage.thy ===== *)
theory Storage
  imports Time_Traits
begin

text \<open>
  \<open>detail/idle.hpp\<close> and \<open>detail/storage.hpp\<close>: the cells of a pool and the three lists they move
  between.

  A cell (\<open>idle\<close>) is a node of a \<open>std::list\<close>. Nodes are named by numbers and their contents are in
  the store \<open>cells\<close>; the lists \<open>available_\<close>, \<open>used_\<close> and \<open>wasted_\<close> hold the names, and \<open>splice\<close>
  moves a name. A node is alive as long as one of the lists holds it; no operation destroys one, so
  an iterator stays valid wherever its node moves. A default-constructed iterator is \<open>Singular\<close>.

  Every call of \<open>time_traits::now()\<close> is an argument \<open>now\<close> of the operation that makes it.
\<close>

subsection \<open>Cells\<close>

record 'v idle =
  idle_value :: "'v option"
  drop_time :: time_point
  reset_time :: time_point
  waste_on_recycle :: bool

definition idle_empty :: "'v idle" where
  "idle_empty = \<lparr>idle_value = None, drop_time = time_point_max, reset_time = epoch,
     waste_on_recycle = False\<rparr>"

definition idle_of :: "'v \<Rightarrow> time_point \<Rightarrow> time_point \<Rightarrow> 'v idle" where
  "idle_of v dropped restored = \<lparr>idle_value = Some v, drop_time = dropped, reset_time = restored,
     waste_on_recycle = False\<rparr>"

definition reset_value :: "'v idle \<Rightarrow> 'v idle" where
  "reset_value cell = cell\<lparr>idle_value := None\<rparr>"

datatype cell_iterator = Singular | Cell nat

subsection \<open>The storage and its constructors\<close>

record 'v storage =
  idle_timeout :: duration
  lifespan :: duration
  cells :: "nat \<Rightarrow> 'v idle"
  available_cells :: "nat list"
  used_cells :: "nat list"
  wasted_cells :: "nat list"

definition all_cells :: "'v storage \<Rightarrow> nat list" where
  "all_cells s = available_cells s @ used_cells s @ wasted_cells s"

definition storage_of_capacity :: "nat \<Rightarrow> duration \<Rightarrow> duration \<Rightarrow> 'v storage" where
  "storage_of_capacity capacity timeout life =
     \<lparr>idle_timeout = timeout, lifespan = life, cells = (\<lambda>_. idle_empty),
      available_cells = [], used_cells = [], wasted_cells = [0..<capacity]\<rparr>"

text \<open>\<open>emplace_back\<close> allocates a node that no list holds yet.\<close>

definition emplace_available :: "'v idle \<Rightarrow> 'v storage \<Rightarrow> 'v storage" where
  "emplace_available cell s =
     (let c = length (all_cells s)
      in s\<lparr>cells := (cells s)(c := cell), available_cells := available_cells s @ [c]\<rparr>)"

definition first_drop_time :: "time_point \<Rightarrow> duration \<Rightarrow> duration \<Rightarrow> time_point" where
  "first_drop_time now timeout life = min (add now timeout) (add now life)"

fun generate_cells ::
  "('g \<Rightarrow> 'v \<times> 'g) \<Rightarrow> nat \<Rightarrow> time_point \<Rightarrow> time_point \<Rightarrow> 'g \<Rightarrow> 'v storage \<Rightarrow> 'v storage \<times> 'g"
where
  "generate_cells gen 0 dropped now g s = (s, g)"
| "generate_cells gen (Suc n) dropped now g s =
     (case gen g of (v, g') \<Rightarrow>
        generate_cells gen n dropped now g' (emplace_available (idle_of v dropped now) s))"

definition storage_of_generator ::
  "('g \<Rightarrow> 'v \<times> 'g) \<Rightarrow> 'g \<Rightarrow> nat \<Rightarrow> duration \<Rightarrow> duration \<Rightarrow> time_point \<Rightarrow> 'v storage \<times> 'g" where
  "storage_of_generator gen g capacity timeout life now =
     generate_cells gen capacity (first_drop_time now timeout life) now g
       (storage_of_capacity 0 timeout life)"

definition storage_of_range ::
  "'v list \<Rightarrow> duration \<Rightarrow> duration \<Rightarrow> time_point \<Rightarrow> 'v storage" where
  "storage_of_range vs timeout life now =
     fold (\<lambda>v. emplace_available (idle_of v (first_drop_time now timeout life) now)) vs
       (storage_of_capacity 0 timeout life)"

subsection \<open>Statistics\<close>

record storage_stats =
  stat_available :: nat
  stat_used :: nat
  stat_wasted :: nat

definition storage_stats_of :: "'v storage \<Rightarrow> storage_stats" where
  "storage_stats_of s =
     \<lparr>stat_available = length (available_cells s), stat_used = length (used_cells s),
      stat_wasted = length (wasted_cells s)\<rparr>"

subsection \<open>Leasing\<close>

text \<open>
  The loop of \<open>lease\<close>: the first available cell whose drop time lies ahead is moved to the used
  ones; the cells before it are emptied and moved to the wasted ones, one per turn.
\<close>

function lease_available :: "time_point \<Rightarrow> 'v storage \<Rightarrow> 'v storage \<times> nat option" where
  "lease_available now s =
     (case available_cells s of
        [] \<Rightarrow> (s, None)
      | candidate # rest \<Rightarrow>
          if drop_time (cells s candidate) > now then
            (s\<lparr>available_cells := rest, used_cells := used_cells s @ [candidate]\<rparr>, Some candidate)
          else
            lease_available now
              (s\<lparr>cells := (cells s)(candidate := reset_value (cells s candidate)),
                 available_cells := rest, wasted_cells := wasted_cells s @ [candidate]\<rparr>))"
  by pat_completeness auto
termination
  by (relation "measure (\<lambda>(now, s). length (available_cells s))") auto

declare lease_available.simps [simp del, exec]

definition lease :: "time_point \<Rightarrow> 'v storage \<Rightarrow> 'v storage \<times> nat option" where
  "lease now s =
     (case lease_available now s of
        (s', Some c) \<Rightarrow> (s', Some c)
      | (s', None) \<Rightarrow>
          (case wasted_cells s' of
             [] \<Rightarrow> (s', None)
           | c # rest \<Rightarrow>
               (s'\<lparr>cells := (cells s')(c := (cells s' c)\<lparr>waste_on_recycle := False\<rparr>),
                   wasted_cells := rest, used_cells := used_cells s' @ [c]\<rparr>, Some c)))"

subsection \<open>Returning a cell\<close>

text \<open>
  \<open>recycle\<close> and \<open>waste\<close> splice the node out of \<open>used_\<close>: the iterator must denote a node of that
  list, or the behaviour is undefined. \<open>is_valid\<close> only reads through the iterator, which is
  defined for every node that is alive.
\<close>

definition storage_waste :: "cell_iterator \<Rightarrow> 'v storage \<Rightarrow> 'v storage result" where
  "storage_waste it s =
     (case it of
        Singular \<Rightarrow> Inl Undefined_Behaviour
      | Cell c \<Rightarrow>
          if c \<notin> set (used_cells s) then Inl Undefined_Behaviour
          else Inr (s\<lparr>cells := (cells s)(c := reset_value (cells s c)),
                      used_cells := remove1 c (used_cells s),
                      wasted_cells := wasted_cells s @ [c]\<rparr>))"

definition life_end :: "'v storage \<Rightarrow> nat \<Rightarrow> time_point" where
  "life_end s c = add (reset_time (cells s c)) (lifespan s)"

definition storage_recycle :: "time_point \<Rightarrow> cell_iterator \<Rightarrow> 'v storage \<Rightarrow> 'v storage result" where
  "storage_recycle now it s =
     (case it of
        Singular \<Rightarrow> Inl Undefined_Behaviour
      | Cell c \<Rightarrow>
          if c \<notin> set (used_cells s) then Inl Undefined_Behaviour
          else if waste_on_recycle (cells s c) then storage_waste it s
          else if life_end s c \<le> now then storage_waste it s
          else Inr (s\<lparr>cells := (cells s)(c := (cells s c)
                        \<lparr>drop_time := min (add now (idle_timeout s)) (life_end s c)\<rparr>),
                      used_cells := remove1 c (used_cells s),
                      available_cells := available_cells s @ [c]\<rparr>))"

definition is_valid :: "time_point \<Rightarrow> cell_iterator \<Rightarrow> 'v storage \<Rightarrow> bool result" where
  "is_valid now it s =
     (case it of
        Singular \<Rightarrow> Inl Undefined_Behaviour
      | Cell c \<Rightarrow>
          if c \<notin> set (all_cells s) then Inl Undefined_Behaviour
          else if waste_on_recycle (cells s c) then Inr False
          else if life_end s c \<le> now then Inr False
          else Inr True)"

subsection \<open>Invalidation\<close>

text \<open>A range-based loop that changes the cells of a list in place.\<close>

definition for_cells ::
  "('v idle \<Rightarrow> 'v idle) \<Rightarrow> nat list \<Rightarrow> (nat \<Rightarrow> 'v idle) \<Rightarrow> nat \<Rightarrow> 'v idle" where
  "for_cells f cs m = fold (\<lambda>c m. m(c := f (m c))) cs m"

definition mark_wasted :: "'v idle \<Rightarrow> 'v idle" where
  "mark_wasted cell = cell\<lparr>waste_on_recycle := True\<rparr>"

definition storage_invalidate :: "'v storage \<Rightarrow> 'v storage" where
  "storage_invalidate s =
     s\<lparr>cells := for_cells mark_wasted (used_cells s)
                 (for_cells reset_value (available_cells s) (cells s)),
       wasted_cells := wasted_cells s @ available_cells s,
       available_cells := []\<rparr>"

subsection \<open>Writing through an iterator\<close>

text \<open>Clients of a cell write its contents directly: any live node may be written.\<close>

definition fill_cell :: "'v \<Rightarrow> time_point \<Rightarrow> 'v idle \<Rightarrow> 'v idle" where
  "fill_cell v now cell = cell\<lparr>idle_value := Some v, reset_time := now\<rparr>"

definition update_cell ::
  "cell_iterator \<Rightarrow> ('v idle \<Rightarrow> 'v idle) \<Rightarrow> 'v storage \<Rightarrow> 'v storage result" where
  "update_cell it f s =
     (case it of
        Singular \<Rightarrow> Inl Undefined_Behaviour
      | Cell c \<Rightarrow>
          if c \<notin> set (all_cells s) then Inl Undefined_Behaviour
          else Inr (s\<lparr>cells := (cells s)(c := f (cells s c))\<rparr>))"

definition read_cell :: "cell_iterator \<Rightarrow> 'v storage \<Rightarrow> 'v idle result" where
  "read_cell it s =
     (case it of
        Singular \<Rightarrow> Inl Undefined_Behaviour
      | Cell c \<Rightarrow> if c \<notin> set (all_cells s) then Inl Undefined_Behaviour else Inr (cells s c))"

lemmas cell_simps =
  idle_empty_def idle_of_def reset_value_def mark_wasted_def fill_cell_def

declare cell_simps [exec]
declare all_cells_def [exec] storage_of_capacity_def [exec] emplace_available_def [exec]
  first_drop_time_def [exec] storage_of_generator_def [exec] storage_of_range_def [exec]
  storage_stats_of_def [exec] lease_def [exec] storage_waste_def [exec] life_end_def [exec]
  storage_recycle_def [exec] is_valid_def [exec] for_cells_def [exec] storage_invalidate_def [exec]
  update_cell_def [exec] read_cell_def [exec]

subsection \<open>Loops over cells\<close>

lemma for_cells_Nil [simp]: "for_cells f [] m = m"
  by (simp add: for_cells_def)

lemma for_cells_Cons [simp]: "for_cells f (c # cs) m = for_cells f cs (m(c := f (m c)))"
  by (simp add: for_cells_def)

lemma for_cells_other: "c \<notin> set cs \<Longrightarrow> for_cells f cs m c = m c"
  by (induction cs arbitrary: m) auto

lemma for_cells_apply:
  "distinct cs \<Longrightarrow> for_cells f cs m c = (if c \<in> set cs then f (m c) else m c)"
  by (induction cs arbitrary: m) (auto simp: for_cells_other)

lemma for_cells_frame:
  "(\<And>cell. g (f cell) = g cell) \<Longrightarrow> g (for_cells f cs m c) = g (m c)"
  by (induction cs arbitrary: m) auto

lemma cell_frames [simp]:
  "drop_time (reset_value cell) = drop_time cell"
  "reset_time (reset_value cell) = reset_time cell"
  "waste_on_recycle (reset_value cell) = waste_on_recycle cell"
  "idle_value (reset_value cell) = None"
  "drop_time (mark_wasted cell) = drop_time cell"
  "reset_time (mark_wasted cell) = reset_time cell"
  "waste_on_recycle (mark_wasted cell) = True"
  "idle_value (mark_wasted cell) = idle_value cell"
  "drop_time (fill_cell v now cell) = drop_time cell"
  "reset_time (fill_cell v now cell) = now"
  "waste_on_recycle (fill_cell v now cell) = waste_on_recycle cell"
  "idle_value (fill_cell v now cell) = Some v"
  by (simp_all add: reset_value_def mark_wasted_def fill_cell_def)

subsection \<open>Leasing in closed form\<close>

text \<open>
  The reference: the longest prefix of stale cells is discarded, then the head of what is left is
  taken, then a wasted cell.
\<close>

definition stale :: "time_point \<Rightarrow> 'v storage \<Rightarrow> nat \<Rightarrow> bool" where
  "stale now s c \<longleftrightarrow> drop_time (cells s c) \<le> now"

definition discard :: "nat list \<Rightarrow> 'v storage \<Rightarrow> 'v storage" where
  "discard cs s = s\<lparr>cells := for_cells reset_value cs (cells s),
     available_cells := drop (length cs) (available_cells s),
     wasted_cells := wasted_cells s @ cs\<rparr>"

definition take_available :: "'v storage \<Rightarrow> 'v storage \<times> nat option" where
  "take_available s =
     (case available_cells s of
        [] \<Rightarrow> (s, None)
      | c # rest \<Rightarrow> (s\<lparr>available_cells := rest, used_cells := used_cells s @ [c]\<rparr>, Some c))"

definition fresh_available :: "time_point \<Rightarrow> 'v storage \<Rightarrow> 'v storage" where
  "fresh_available now s = discard (takeWhile (stale now s) (available_cells s)) s"

lemma discard_Nil [simp]: "discard [] s = s"
  by (simp add: discard_def)

lemma lease_available_eq: "lease_available now s = take_available (fresh_available now s)"
proof (induction now s rule: lease_available.induct)
  case (1 now s)
  show ?case
  proof (cases "available_cells s")
    case Nil
    then show ?thesis
      by (simp add: lease_available.simps take_available_def fresh_available_def)
  next
    case (Cons c rest)
    let ?t = "s\<lparr>cells := (cells s)(c := reset_value (cells s c)), available_cells := rest,
                wasted_cells := wasted_cells s @ [c]\<rparr>"
    show ?thesis
    proof (cases "drop_time (cells s c) > now")
      case True
      then show ?thesis
        using Cons
        by (auto simp: lease_available.simps take_available_def fresh_available_def stale_def)
    next
      case False
      have "stale now ?t = stale now s"
        by (auto simp: stale_def fun_eq_iff)
      then have "fresh_available now ?t = fresh_available now s"
        using Cons False by (simp add: fresh_available_def discard_def stale_def)
      moreover have "lease_available now s = lease_available now ?t"
        using Cons False by (simp add: lease_available.simps [of now s])
      moreover have "lease_available now ?t = take_available (fresh_available now ?t)"
        using "1.IH" [OF Cons False] by simp
      ultimately show ?thesis
        by simp
    qed
  qed
qed

lemma discard_fields [simp]:
  "used_cells (discard cs s) = used_cells s"
  "wasted_cells (discard cs s) = wasted_cells s @ cs"
  "idle_timeout (discard cs s) = idle_timeout s"
  "lifespan (discard cs s) = lifespan s"
  by (simp_all add: discard_def)

lemma fresh_available_fields [simp]:
  "available_cells (fresh_available now s) = dropWhile (stale now s) (available_cells s)"
  "used_cells (fresh_available now s) = used_cells s"
  "wasted_cells (fresh_available now s)
     = wasted_cells s @ takeWhile (stale now s) (available_cells s)"
  "idle_timeout (fresh_available now s) = idle_timeout s"
  "lifespan (fresh_available now s) = lifespan s"
  by (simp_all add: fresh_available_def discard_def dropWhile_eq_drop)

definition take_wasted :: "'v storage \<Rightarrow> 'v storage \<times> nat option" where
  "take_wasted s =
     (case wasted_cells s of
        [] \<Rightarrow> (s, None)
      | c # rest \<Rightarrow>
          (s\<lparr>cells := (cells s)(c := (cells s c)\<lparr>waste_on_recycle := False\<rparr>),
             wasted_cells := rest, used_cells := used_cells s @ [c]\<rparr>, Some c))"

definition lease_reference :: "time_point \<Rightarrow> 'v storage \<Rightarrow> 'v storage \<times> nat option" where
  "lease_reference now s =
     (let s' = fresh_available now s
      in if available_cells s' = [] then take_wasted s' else take_available s')"

lemma lease_eq: "lease now s = lease_reference now s"
proof -
  define t where "t = fresh_available now s"
  show ?thesis
    unfolding lease_def lease_reference_def lease_available_eq t_def [symmetric] Let_def
    by (cases "available_cells t") (simp_all add: take_available_def take_wasted_def)
qed

text \<open>The three ways a lease can end.\<close>

lemma lease_cases:
  obtains
    (available) c rest where
      "dropWhile (stale now s) (available_cells s) = c # rest" "\<not> stale now s c"
      "lease now s = (fresh_available now s\<lparr>available_cells := rest,
         used_cells := used_cells s @ [c]\<rparr>, Some c)"
  | (wasted) c rest where
      "\<forall>d \<in> set (available_cells s). stale now s d"
      "wasted_cells s @ available_cells s = c # rest"
      "lease now s = (fresh_available now s
         \<lparr>cells := (cells (fresh_available now s))
            (c := (cells (fresh_available now s) c)\<lparr>waste_on_recycle := False\<rparr>),
          wasted_cells := rest, used_cells := used_cells s @ [c]\<rparr>, Some c)"
  | (none) "available_cells s = []" "wasted_cells s = []" "lease now s = (s, None)"
proof (cases "dropWhile (stale now s) (available_cells s)")
  case (Cons c rest)
  then have "\<not> stale now s c"
    by (metis hd_dropWhile list.distinct(1) list.sel(1))
  with Cons show thesis
    by (intro available) (simp_all add: lease_eq lease_reference_def take_available_def)
next
  case Nil
  then have all: "\<forall>d \<in> set (available_cells s). stale now s d"
    by simp
  then have prefix: "takeWhile (stale now s) (available_cells s) = available_cells s"
    by (simp add: takeWhile_eq_all_conv)
  show thesis
  proof (cases "wasted_cells s @ available_cells s")
    case (Cons c rest)
    with Nil all show thesis
      by (intro wasted) (simp_all add: lease_eq lease_reference_def take_wasted_def prefix Let_def)
  next
    case empty: Nil
    then show thesis
      using Nil by (intro none) (simp_all add: lease_eq lease_reference_def take_wasted_def fresh_available_def)
  qed
qed

end
