(* ===== verification/Storage_Contract.thy ===== *)
theory Storage_Contract
  imports Storage
begin

text \<open>
  The contract of \<open>detail/storage.hpp\<close>.

  \<open>storage_inv n s\<close>: the three lists share the \<open>n\<close> cells of the storage out between them, each
  cell in exactly one list; an available cell is never marked for wasting and is dropped before the
  end of its life; a wasted cell holds no value. Every operation keeps the invariant. The locale
  \<open>cell_store\<close> states what the pools rely on, and the storage of the model interprets it.
\<close>

subsection \<open>The invariant\<close>

definition available_ok :: "'v storage \<Rightarrow> nat \<Rightarrow> bool" where
  "available_ok s c \<longleftrightarrow>
     \<not> waste_on_recycle (cells s c) \<and> drop_time (cells s c) \<le> life_end s c"

definition storage_inv :: "nat \<Rightarrow> 'v storage \<Rightarrow> bool" where
  "storage_inv n s \<longleftrightarrow>
     nodes_of n (all_cells s)
     \<and> (\<forall>c \<in> set (available_cells s). available_ok s c)
     \<and> (\<forall>c \<in> set (wasted_cells s). idle_value (cells s c) = None)"

declare storage_inv_def [inv_simps] available_ok_def [inv_simps]

lemma storage_inv_nodes:
  assumes "storage_inv n s"
  shows "distinct (all_cells s)" and "set (all_cells s) = {0..<n}"
    and "length (all_cells s) = n"
  using assms by (auto simp: storage_inv_def dest: nodes_of_distinct nodes_of_set nodes_of_length)

lemma storage_inv_disjoint:
  assumes "storage_inv n s"
  shows "distinct (available_cells s)" "distinct (used_cells s)" "distinct (wasted_cells s)"
    and "set (available_cells s) \<inter> set (used_cells s) = {}"
    and "set (available_cells s) \<inter> set (wasted_cells s) = {}"
    and "set (used_cells s) \<inter> set (wasted_cells s) = {}"
  using storage_inv_nodes(1) [OF assms] by (auto simp: all_cells_def)

lemma storage_inv_total:
  "storage_inv n s \<Longrightarrow>
   length (available_cells s) + length (used_cells s) + length (wasted_cells s) = n"
  using storage_inv_nodes(3) [of n s] by (simp add: all_cells_def)

lemma storage_inv_used_cells: "storage_inv n s \<Longrightarrow> set (used_cells s) \<subseteq> {0..<n}"
  using storage_inv_nodes(2) [of n s] by (auto simp: all_cells_def)

lemma used_cells_alive: "c \<in> set (used_cells s) \<Longrightarrow> c \<in> set (all_cells s)"
  by (simp add: all_cells_def)

lemma storage_all_used_iff:
  assumes "storage_inv n s"
  shows "set (used_cells s) = {0..<n} \<longleftrightarrow> available_cells s = [] \<and> wasted_cells s = []"
proof
  assume "set (used_cells s) = {0..<n}"
  then have "length (used_cells s) = n"
    using distinct_card [OF storage_inv_disjoint(2) [OF assms]] by simp
  then show "available_cells s = [] \<and> wasted_cells s = []"
    using storage_inv_total [OF assms] by simp
next
  assume "available_cells s = [] \<and> wasted_cells s = []"
  then show "set (used_cells s) = {0..<n}"
    using storage_inv_nodes(2) [OF assms] by (simp add: all_cells_def)
qed

text \<open>Moving one node between two lists keeps the accounting of nodes.\<close>

lemma nodes_of_used_to:
  assumes "nodes_of n (avail @ use @ waste)" and "c \<in> set use"
  shows "nodes_of n (avail @ c # remove1 c use @ waste)"
    and "nodes_of n (avail @ remove1 c use @ waste @ [c])"
  using assms mset_remove1_add [OF assms(2)] by (simp_all add: nodes_of_def)

subsection \<open>Constructors\<close>

lemma storage_of_capacity_inv: "storage_inv n (storage_of_capacity n timeout life)"
  by (simp add: storage_of_capacity_def storage_inv_def all_cells_def idle_empty_def)

lemma storage_of_capacity_fields [simp]:
  "available_cells (storage_of_capacity n timeout life) = []"
  "used_cells (storage_of_capacity n timeout life) = []"
  "wasted_cells (storage_of_capacity n timeout life) = [0..<n]"
  "idle_timeout (storage_of_capacity n timeout life) = timeout"
  "lifespan (storage_of_capacity n timeout life) = life"
  by (simp_all add: storage_of_capacity_def)

text \<open>What a storage under construction looks like: all cells are available.\<close>

definition filling :: "duration \<Rightarrow> duration \<Rightarrow> time_point \<Rightarrow> 'v list \<Rightarrow> 'v storage \<Rightarrow> bool" where
  "filling timeout life now vs s \<longleftrightarrow>
     available_cells s = [0..<length vs] \<and> used_cells s = [] \<and> wasted_cells s = []
     \<and> idle_timeout s = timeout \<and> lifespan s = life
     \<and> (\<forall>i < length vs. cells s i = idle_of (vs ! i) (first_drop_time now timeout life) now)"

lemma filling_start: "filling timeout life now [] (storage_of_capacity 0 timeout life)"
  by (simp add: filling_def)

lemma filling_emplace:
  "filling timeout life now vs s \<Longrightarrow>
   filling timeout life now (vs @ [v])
     (emplace_available (idle_of v (first_drop_time now timeout life) now) s)"
  by (auto simp: filling_def emplace_available_def Let_def all_cells_def nth_append less_Suc_eq)

lemma filling_inv: "filling timeout life now vs s \<Longrightarrow> storage_inv (length vs) s"
  by (auto simp: filling_def storage_inv_def all_cells_def available_ok_def idle_of_def
      life_end_def first_drop_time_def)

lemma filling_range:
  "filling timeout life now vs s \<Longrightarrow>
   filling timeout life now (vs @ ws)
     (fold (\<lambda>v. emplace_available (idle_of v (first_drop_time now timeout life) now)) ws s)"
proof (induction ws arbitrary: vs s)
  case Nil
  then show ?case by simp
next
  case (Cons w ws)
  from Cons.IH [OF filling_emplace [OF Cons.prems]] show ?case by simp
qed

lemma storage_of_range_filling: "filling timeout life now vs (storage_of_range vs timeout life now)"
  using filling_range [OF filling_start, of timeout life now vs] by (simp add: storage_of_range_def)

text \<open>The values a generator yields, in order, and its state afterwards.\<close>

fun generated :: "('g \<Rightarrow> 'v \<times> 'g) \<Rightarrow> nat \<Rightarrow> 'g \<Rightarrow> 'v list \<times> 'g" where
  "generated gen 0 g = ([], g)"
| "generated gen (Suc n) g =
     (case gen g of (v, g') \<Rightarrow> case generated gen n g' of (vs, g'') \<Rightarrow> (v # vs, g''))"

lemma length_generated: "length (fst (generated gen n g)) = n"
  by (induction n arbitrary: g) (auto split: prod.splits, metis fst_conv)

lemma generate_cells_eq:
  "generate_cells gen n dropped now g s =
     (fold (\<lambda>v. emplace_available (idle_of v dropped now)) (fst (generated gen n g)) s,
      snd (generated gen n g))"
  by (induction n arbitrary: g s) (auto split: prod.splits)

lemma storage_of_generator_eq:
  "storage_of_generator gen g n timeout life now =
     (storage_of_range (fst (generated gen n g)) timeout life now, snd (generated gen n g))"
  by (simp add: storage_of_generator_def storage_of_range_def generate_cells_eq)

lemma storage_of_generator_inv:
  "storage_inv n (fst (storage_of_generator gen g n timeout life now))"
  using filling_inv [OF storage_of_range_filling]
  by (metis fst_conv length_generated storage_of_generator_eq)

subsection \<open>Leasing\<close>

lemma fresh_available_cells:
  "storage_inv n s \<Longrightarrow>
   cells (fresh_available now s) c =
     (if c \<in> set (takeWhile (stale now s) (available_cells s)) then reset_value (cells s c)
      else cells s c)"
  by (simp add: fresh_available_def discard_def for_cells_apply storage_inv_disjoint)

lemma fresh_available_inv:
  assumes "storage_inv n s"
  shows "storage_inv n (fresh_available now s)"
proof -
  have "mset (all_cells (fresh_available now s)) = mset (all_cells s)"
    by (simp add: all_cells_def flip: mset_append add: union_ac)
      (metis mset_append takeWhile_dropWhile_id union_assoc union_commute)
  then have "nodes_of n (all_cells (fresh_available now s))"
    using assms by (simp add: storage_inv_def nodes_of_def)
  moreover have "\<forall>c \<in> set (available_cells (fresh_available now s)).
      available_ok (fresh_available now s) c"
    using assms
    by (auto simp: storage_inv_def available_ok_def life_end_def fresh_available_cells
        dest: set_dropWhileD split: if_splits)
  ultimately show ?thesis
    using assms by (auto simp: storage_inv_def fresh_available_cells)
qed

lemma take_available_inv:
  "storage_inv n s \<Longrightarrow> available_cells s = c # rest \<Longrightarrow>
   storage_inv n (s\<lparr>available_cells := rest, used_cells := used_cells s @ [c]\<rparr>)"
  by (auto simp: storage_inv_def all_cells_def nodes_of_def available_ok_def life_end_def)

lemma take_wasted_inv:
  "storage_inv n s \<Longrightarrow> wasted_cells s = c # rest \<Longrightarrow>
   storage_inv n (s\<lparr>cells := (cells s)(c := (cells s c)\<lparr>waste_on_recycle := False\<rparr>),
     wasted_cells := rest, used_cells := used_cells s @ [c]\<rparr>)"
  using storage_inv_disjoint [of n s]
  by (auto simp: storage_inv_def all_cells_def nodes_of_def available_ok_def life_end_def
      split: if_splits)

text \<open>
  What a successful lease hands out: either an available cell that has not reached its drop time,
  with its value, or a cell without a value. In both cases it was not lent before and is not marked
  for wasting.
\<close>

definition leased_from ::
  "time_point \<Rightarrow> 'v storage \<Rightarrow> nat \<Rightarrow> 'v storage \<Rightarrow> bool" where
  "leased_from now s c s' \<longleftrightarrow>
     c \<in> set (available_cells s @ wasted_cells s)
     \<and> used_cells s' = used_cells s @ [c]
     \<and> idle_timeout s' = idle_timeout s \<and> lifespan s' = lifespan s
     \<and> \<not> waste_on_recycle (cells s' c)
     \<and> (idle_value (cells s' c) = None
        \<or> c \<in> set (available_cells s) \<and> now < drop_time (cells s c) \<and> cells s' c = cells s c)
     \<and> (\<forall>d \<in> set (used_cells s). cells s' d = cells s d)
     \<and> (\<forall>d \<in> set (available_cells s'). d \<in> set (available_cells s) \<and> cells s' d = cells s d)"

lemma lease_Some:
  assumes inv: "storage_inv n s" and lease: "lease now s = (s', Some c)"
  shows "storage_inv n s'" and "leased_from now s c s'"
proof -
  note fresh = fresh_available_inv [OF inv, of now]
  note at = fresh_available_cells [OF inv, of now]
  note parts = storage_inv_disjoint [OF inv]
  have "storage_inv n s' \<and> leased_from now s c s'"
  proof (cases rule: lease_cases [of now s])
    case (available d rest)
    then have eqs: "c = d" "s' = fresh_available now s\<lparr>available_cells := rest,
        used_cells := used_cells s @ [d]\<rparr>"
      using lease by simp_all
    have rest: "e \<in> set (available_cells s)" "e \<notin> set (takeWhile (stale now s) (available_cells s))"
      if "e \<in> set rest" for e
      using that available(1) parts(1)
        distinct_append [of "takeWhile (stale now s) (available_cells s)" "d # rest"]
      by (metis list.set_intros(2) set_dropWhileD,
          metis available(1) disjoint_iff list.set_intros(2) takeWhile_dropWhile_id)
    have d: "d \<in> set (available_cells s)" "d \<notin> set (takeWhile (stale now s) (available_cells s))"
      by (metis available(1) list.set_intros(1) set_dropWhileD, metis available(2) set_takeWhileD)
    have "storage_inv n s'"
      using take_available_inv [OF fresh, of d rest] available(1) by (simp add: eqs)
    moreover have "leased_from now s c s'"
      using d available(2) parts inv rest
      by (auto simp: eqs leased_from_def at stale_def storage_inv_def available_ok_def
          dest: set_takeWhileD)
    ultimately show ?thesis ..
  next
    case (wasted d rest)
    let ?t = "fresh_available now s"
    have prefix: "takeWhile (stale now s) (available_cells s) = available_cells s"
      using wasted(1) by (simp add: takeWhile_eq_all_conv)
    have eqs: "c = d" "s' = ?t\<lparr>cells := (cells ?t)(d := (cells ?t d)\<lparr>waste_on_recycle := False\<rparr>),
        wasted_cells := rest, used_cells := used_cells s @ [d]\<rparr>"
      using lease wasted(3) by auto
    have wt: "wasted_cells ?t = d # rest"
      using wasted(2) by (simp add: prefix)
    have none: "idle_value (cells ?t d) = None"
      using fresh by (simp add: storage_inv_def wt del: fresh_available_fields)
    have "storage_inv n s'"
      using take_wasted_inv [OF fresh wt] by (simp add: eqs)
    moreover have "leased_from now s c s'"
    proof -
      have d: "d \<in> set (available_cells s @ wasted_cells s)"
        using wasted(2) by (metis Un_commute list.set_intros(1) set_append)
      have rest: "dropWhile (stale now s) (available_cells s) = []"
        using wasted(1) by simp
      show ?thesis
        using none parts d
        by (auto simp: eqs leased_from_def at prefix rest dest: set_takeWhileD)
    qed
    ultimately show ?thesis ..
  next
    case none
    then show ?thesis using lease by simp
  qed
  then show "storage_inv n s'" and "leased_from now s c s'" by simp_all
qed

lemma lease_None_iff:
  "snd (lease now s) = None \<longleftrightarrow> available_cells s = [] \<and> wasted_cells s = []"
  by (cases rule: lease_cases [of now s]) auto

lemma lease_None: "lease now s = (s', None) \<Longrightarrow> s' = s"
  by (cases rule: lease_cases [of now s]) auto

lemma lease_inv: "storage_inv n s \<Longrightarrow> storage_inv n (fst (lease now s))"
proof (cases "lease now s")
  case (Pair s' r)
  then show "storage_inv n s \<Longrightarrow> ?thesis"
    by (cases r) (auto dest: lease_None intro: lease_Some(1))
qed

subsection \<open>Returning cells\<close>

lemma storage_waste_Inr_iff:
  "storage_waste it s = Inr s' \<longleftrightarrow>
     (\<exists>c. it = Cell c \<and> c \<in> set (used_cells s) \<and>
        s' = s\<lparr>cells := (cells s)(c := reset_value (cells s c)),
               used_cells := remove1 c (used_cells s),
               wasted_cells := wasted_cells s @ [c]\<rparr>)"
  by (auto simp: storage_waste_def split: cell_iterator.splits)

lemma storage_waste_inv:
  "storage_inv n s \<Longrightarrow> storage_waste it s = Inr s' \<Longrightarrow> storage_inv n s'"
  using storage_inv_disjoint [of n s]
  by (auto simp: storage_waste_Inr_iff storage_inv_def available_ok_def life_end_def all_cells_def
      nodes_of_used_to split: if_splits)

text \<open>Recycling either wastes the cell or makes it available until its drop time.\<close>

definition make_available :: "time_point \<Rightarrow> nat \<Rightarrow> 'v storage \<Rightarrow> 'v storage" where
  "make_available now c s =
     s\<lparr>cells := (cells s)(c := (cells s c)
         \<lparr>drop_time := min (add now (idle_timeout s)) (life_end s c)\<rparr>),
       used_cells := remove1 c (used_cells s),
       available_cells := available_cells s @ [c]\<rparr>"

definition worth_keeping :: "time_point \<Rightarrow> 'v storage \<Rightarrow> nat \<Rightarrow> bool" where
  "worth_keeping now s c \<longleftrightarrow> \<not> waste_on_recycle (cells s c) \<and> now < life_end s c"

lemma storage_recycle_Cell:
  "c \<in> set (used_cells s) \<Longrightarrow>
   storage_recycle now (Cell c) s =
     (if worth_keeping now s c then Inr (make_available now c s) else storage_waste (Cell c) s)"
  by (auto simp: storage_recycle_def worth_keeping_def make_available_def)

lemma make_available_inv:
  "storage_inv n s \<Longrightarrow> c \<in> set (used_cells s) \<Longrightarrow> worth_keeping now s c \<Longrightarrow>
   storage_inv n (make_available now c s)"
  using storage_inv_disjoint [of n s]
  by (auto simp: make_available_def storage_inv_def available_ok_def worth_keeping_def
      life_end_def all_cells_def nodes_of_used_to split: if_splits)

lemma storage_recycle_Inr_used:
  "storage_recycle now it s = Inr s' \<Longrightarrow> \<exists>c. it = Cell c \<and> c \<in> set (used_cells s)"
  by (auto simp: storage_recycle_def split: cell_iterator.splits if_splits)

lemma storage_recycle_inv:
  assumes "storage_inv n s" and "storage_recycle now it s = Inr s'"
  shows "storage_inv n s'"
proof -
  obtain c where "it = Cell c" "c \<in> set (used_cells s)"
    using storage_recycle_Inr_used [OF assms(2)] by blast
  with assms show ?thesis
    by (auto simp: storage_recycle_Cell make_available_inv dest: storage_waste_inv
        split: if_splits)
qed

lemma is_valid_Cell:
  "c \<in> set (all_cells s) \<Longrightarrow> is_valid now (Cell c) s = Inr (worth_keeping now s c)"
  by (auto simp: is_valid_def worth_keeping_def)

subsection \<open>Invalidation and client writes\<close>

lemma storage_invalidate_fields [simp]:
  "available_cells (storage_invalidate s) = []"
  "used_cells (storage_invalidate s) = used_cells s"
  "wasted_cells (storage_invalidate s) = wasted_cells s @ available_cells s"
  "idle_timeout (storage_invalidate s) = idle_timeout s"
  "lifespan (storage_invalidate s) = lifespan s"
  by (simp_all add: storage_invalidate_def)

lemma storage_invalidate_cells:
  "storage_inv n s \<Longrightarrow>
   cells (storage_invalidate s) c =
     (if c \<in> set (available_cells s) then reset_value (cells s c)
      else if c \<in> set (used_cells s) then mark_wasted (cells s c)
      else cells s c)"
  using storage_inv_disjoint [of n s] by (auto simp: storage_invalidate_def for_cells_apply)

lemma storage_invalidate_inv: "storage_inv n s \<Longrightarrow> storage_inv n (storage_invalidate s)"
  using storage_inv_disjoint [of n s]
  by (auto simp: storage_inv_def storage_invalidate_cells all_cells_def nodes_of_def union_ac)

lemma update_cell_Inr_iff:
  "update_cell it f s = Inr s' \<longleftrightarrow>
     (\<exists>c. it = Cell c \<and> c \<in> set (all_cells s) \<and> s' = s\<lparr>cells := (cells s)(c := f (cells s c))\<rparr>)"
  by (auto simp: update_cell_def split: cell_iterator.splits)

lemma update_cell_inv:
  "storage_inv n s \<Longrightarrow> c \<in> set (used_cells s) \<Longrightarrow> update_cell (Cell c) f s = Inr s' \<Longrightarrow>
   storage_inv n s'"
  using storage_inv_disjoint [of n s]
  by (auto simp: update_cell_Inr_iff storage_inv_def available_ok_def life_end_def all_cells_def
      split: if_splits)

end
