(* ===== verification/Cell_Store.thy ===== *)
theory Cell_Store
  imports Storage_Contract
begin

text \<open>
  The interface the pools use of their storage, as a locale.

  \<open>cell_store\<close> speaks of the cells that are lent out: a lease adds one that was not lent, returning
  one (to be kept or to be wasted) takes it back and never fails for a lent cell, and a lease fails
  only when every cell is lent. The storage of the model interprets it; the pools use the facts of
  that interpretation, \<open>cells\<close>.
\<close>

subsection \<open>The interface\<close>

locale cell_store =
  fixes lease_op :: "time_point \<Rightarrow> 's \<Rightarrow> 's \<times> nat option"
    and recycle_op :: "time_point \<Rightarrow> cell_iterator \<Rightarrow> 's \<Rightarrow> 's result"
    and waste_op :: "cell_iterator \<Rightarrow> 's \<Rightarrow> 's result"
    and invalidate_op :: "'s \<Rightarrow> 's"
    and lent :: "'s \<Rightarrow> nat set"
    and inv :: "nat \<Rightarrow> 's \<Rightarrow> bool"
  assumes lent_cells: "inv n s \<Longrightarrow> lent s \<subseteq> {0..<n}"
    and lease_some: "inv n s \<Longrightarrow> lease_op now s = (s', Some c) \<Longrightarrow>
      inv n s' \<and> c \<notin> lent s \<and> lent s' = insert c (lent s)"
    and lease_none: "inv n s \<Longrightarrow> lease_op now s = (s', None) \<longleftrightarrow> s' = s \<and> lent s = {0..<n}"
    and recycle_lent: "inv n s \<Longrightarrow> c \<in> lent s \<Longrightarrow>
      \<exists>s'. recycle_op now (Cell c) s = Inr s' \<and> inv n s' \<and> lent s' = lent s - {c}"
    and waste_lent: "inv n s \<Longrightarrow> c \<in> lent s \<Longrightarrow>
      \<exists>s'. waste_op (Cell c) s = Inr s' \<and> inv n s' \<and> lent s' = lent s - {c}"
    and recycle_unlent: "c \<notin> lent s \<Longrightarrow> recycle_op now (Cell c) s = Inl Undefined_Behaviour"
    and waste_unlent: "c \<notin> lent s \<Longrightarrow> waste_op (Cell c) s = Inl Undefined_Behaviour"
    and invalidate_lent: "inv n s \<Longrightarrow> inv n (invalidate_op s) \<and> lent (invalidate_op s) = lent s"
begin

lemma lent_finite: "inv n s \<Longrightarrow> finite (lent s) \<and> card (lent s) \<le> n"
  using lent_cells [of n s] finite_subset card_mono [of "{0..<n}" "lent s"] by auto

lemma lease_possible:
  assumes "inv n s" and "card (lent s) < n"
  shows "\<exists>s' c. lease_op now s = (s', Some c)"
proof (cases "lease_op now s")
  case (Pair s' r)
  have "lent s \<noteq> {0..<n}"
    using assms(2) by auto
  with Pair lease_none [OF assms(1), of now s'] show ?thesis
    by (cases r) auto
qed

lemma lease_fails_iff: "inv n s \<Longrightarrow> snd (lease_op now s) = None \<longleftrightarrow> card (lent s) = n"
proof
  assume inv: "inv n s"
  show "card (lent s) = n" if "snd (lease_op now s) = None"
    using that lease_none [OF inv, of now "fst (lease_op now s)"]
    by (metis card_atLeastLessThan diff_zero prod.collapse)
  show "snd (lease_op now s) = None" if "card (lent s) = n"
  proof -
    have "lent s = {0..<n}"
      using lent_cells [OF inv] that card_subset_eq [of "{0..<n}" "lent s"] by simp
    then show ?thesis
      using lease_none [OF inv, of now s] by simp
  qed
qed

lemma lease_lent_card:
  "inv n s \<Longrightarrow> lease_op now s = (s', Some c) \<Longrightarrow> card (lent s') = Suc (card (lent s))"
  using lease_some [of n s now s' c] lent_finite [of n s] by simp

lemma return_then_lease:
  assumes "inv n s" "c \<in> lent s"
    and "recycle_op now (Cell c) s = Inr s' \<or> waste_op (Cell c) s = Inr s'"
  shows "\<exists>s'' d. lease_op later s' = (s'', Some d)"
proof -
  obtain s1 s2 where "recycle_op now (Cell c) s = Inr s1" "inv n s1" "lent s1 = lent s - {c}"
    and "waste_op (Cell c) s = Inr s2" "inv n s2" "lent s2 = lent s - {c}"
    using recycle_lent [OF assms(1,2), of now] waste_lent [OF assms(1,2)] by blast
  with assms(3) have s': "inv n s'" "lent s' = lent s - {c}"
    by (metis sum.inject(2))+
  have "card (lent s - {c}) < card (lent s)"
    using assms(2) lent_finite [OF assms(1)] by (intro card_Diff1_less) simp_all
  then have "card (lent s') < n"
    using s'(2) lent_finite [OF assms(1)] by simp
  with s'(1) show ?thesis
    by (rule lease_possible)
qed

end

interpretation cells: cell_store lease storage_recycle storage_waste storage_invalidate
  "\<lambda>s. set (used_cells s)" storage_inv
proof unfold_locales
  fix n now c and s s' :: "'v storage"
  assume inv: "storage_inv n s"
  show "set (used_cells s) \<subseteq> {0..<n}"
    using inv by (rule storage_inv_used_cells)
  show "storage_inv n s' \<and> c \<notin> set (used_cells s)
      \<and> set (used_cells s') = insert c (set (used_cells s))" if "lease now s = (s', Some c)"
    using lease_Some [OF inv that] storage_inv_disjoint [OF inv] by (auto simp: leased_from_def)
  show "lease now s = (s', None) \<longleftrightarrow> s' = s \<and> set (used_cells s) = {0..<n}"
  proof -
    show ?thesis
      using storage_all_used_iff [OF inv] lease_None_iff [of now s] lease_None [of now s]
      by (cases "lease now s") auto
  qed
  show "storage_inv n (storage_invalidate s)
      \<and> set (used_cells (storage_invalidate s)) = set (used_cells s)"
    using inv by (simp add: storage_invalidate_inv)
  assume c: "c \<in> set (used_cells s)"
  then obtain t where t: "storage_waste (Cell c) s = Inr t"
    "set (used_cells t) = set (used_cells s) - {c}"
    using storage_inv_disjoint(2) [OF inv] by (simp add: storage_waste_def)
  then show "\<exists>s'. storage_waste (Cell c) s = Inr s' \<and> storage_inv n s'
      \<and> set (used_cells s') = set (used_cells s) - {c}"
    using storage_waste_inv [OF inv] by blast
  with c show "\<exists>s'. storage_recycle now (Cell c) s = Inr s' \<and> storage_inv n s'
      \<and> set (used_cells s') = set (used_cells s) - {c}"
    using make_available_inv [OF inv c] storage_inv_disjoint(2) [OF inv]
    by (auto simp: storage_recycle_Cell make_available_def)
qed (simp_all add: storage_recycle_def storage_waste_def)

end
