(* ===== verification/Storage_Runs.thy ===== *)
theory Storage_Runs
  imports Cell_Store
begin

text \<open>
  Arbitrary sequences of operations on a storage, and what holds after any of them: the protocol of
  lending never leads to undefined behaviour, every cell stays in exactly one list, a value is never
  handed out after the end of its life, and a value that was in the pool when it was invalidated is
  never handed out again.
\<close>

subsection \<open>Runs\<close>

datatype 'v storage_op =
    Op_Lease time_point
  | Op_Recycle time_point cell_iterator
  | Op_Waste cell_iterator
  | Op_Invalidate
  | Op_Fill 'v time_point cell_iterator

fun storage_step :: "'v storage_op \<Rightarrow> 'v storage \<Rightarrow> 'v storage result" where
  "storage_step (Op_Lease now) s = Inr (fst (lease now s))"
| "storage_step (Op_Recycle now it) s = storage_recycle now it s"
| "storage_step (Op_Waste it) s = storage_waste it s"
| "storage_step Op_Invalidate s = Inr (storage_invalidate s)"
| "storage_step (Op_Fill v now it) s = update_cell it (fill_cell v now) s"

fun storage_run :: "'v storage_op list \<Rightarrow> 'v storage \<Rightarrow> 'v storage result" where
  "storage_run [] s = Inr s"
| "storage_run (x # xs) s = and_then (storage_step x s) (storage_run xs)"

text \<open>A client that keeps to the protocol returns and fills only cells it has been lent.\<close>

fun op_on_lent :: "'v storage \<Rightarrow> 'v storage_op \<Rightarrow> bool" where
  "op_on_lent s (Op_Recycle now (Cell c)) = (c \<in> set (used_cells s))"
| "op_on_lent s (Op_Waste (Cell c)) = (c \<in> set (used_cells s))"
| "op_on_lent s (Op_Fill v now (Cell c)) = (c \<in> set (used_cells s))"
| "op_on_lent s (Op_Lease now) = True"
| "op_on_lent s Op_Invalidate = True"
| "op_on_lent s _ = False"

fun ops_on_lent :: "'v storage_op list \<Rightarrow> 'v storage \<Rightarrow> bool" where
  "ops_on_lent [] s = True"
| "ops_on_lent (x # xs) s =
     (op_on_lent s x
      \<and> (case storage_step x s of Inl _ \<Rightarrow> True | Inr s' \<Rightarrow> ops_on_lent xs s'))"

fun_cases op_on_lent_Recycle: "op_on_lent s (Op_Recycle now it)"
fun_cases op_on_lent_Waste: "op_on_lent s (Op_Waste it)"
fun_cases op_on_lent_Fill: "op_on_lent s (Op_Fill v now it)"

lemmas op_on_lent_cases = op_on_lent_Recycle op_on_lent_Waste op_on_lent_Fill

lemma storage_step_ok:
  assumes inv: "storage_inv n s" and lent: "op_on_lent s x"
  shows "\<exists>s'. storage_step x s = Inr s' \<and> storage_inv n s'"
proof (cases x)
  case (Op_Lease now)
  then show ?thesis using inv by (simp add: lease_inv)
next
  case (Op_Recycle now it)
  with lent obtain c where "it = Cell c" "c \<in> set (used_cells s)"
    by (auto elim: op_on_lent_cases)
  with Op_Recycle cells.recycle_lent [OF inv] show ?thesis by fastforce
next
  case (Op_Waste it)
  with lent obtain c where "it = Cell c" "c \<in> set (used_cells s)"
    by (auto elim: op_on_lent_cases)
  with Op_Waste cells.waste_lent [OF inv] show ?thesis by fastforce
next
  case Op_Invalidate
  then show ?thesis using inv by (simp add: storage_invalidate_inv)
next
  case (Op_Fill v now it)
  with lent obtain c where "it = Cell c" "c \<in> set (used_cells s)"
    by (auto elim: op_on_lent_cases)
  with Op_Fill show ?thesis
    using update_cell_inv [OF inv] by (simp add: update_cell_def all_cells_def)
qed

lemma storage_run_ok:
  "storage_inv n s \<Longrightarrow> ops_on_lent xs s \<Longrightarrow> \<exists>s'. storage_run xs s = Inr s' \<and> storage_inv n s'"
proof (induction xs arbitrary: s)
  case Nil
  then show ?case by simp
next
  case (Cons x xs)
  then obtain s' where "storage_step x s = Inr s'" "storage_inv n s'"
    using storage_step_ok [of n s x] by auto
  with Cons show ?case by auto
qed

text \<open>
  Examples: a storage of two cells that keeps idle values for 10 ticks and lets values live for 20,
  filled at tick 100, and a client that takes both cells, refills one and gives it back.
\<close>

definition demo_storage :: "nat storage" where
  "demo_storage = storage_of_range [7, 8] (Duration 10) (Duration 20) (Time_Point 100)"

definition demo_ops :: "nat storage_op list" where
  "demo_ops = [Op_Lease (Time_Point 101), Op_Lease (Time_Point 102),
     Op_Fill 9 (Time_Point 103) (Cell 0), Op_Recycle (Time_Point 104) (Cell 0),
     Op_Lease (Time_Point 105), Op_Waste (Cell 1), Op_Invalidate]"

declare demo_storage_def [exec] demo_ops_def [exec]

lemma demo_storage_inv: "storage_inv 2 demo_storage"
  using filling_inv [OF storage_of_range_filling, of "[7, 8 :: nat]"]
  by (simp add: demo_storage_def numeral_2_eq_2)

subsection \<open>A single lease\<close>

text \<open>
  C21. A lease in closed form. The cells before the first one that is not stale are emptied and
  moved, in order, behind the wasted cells; that first one is moved behind the used cells and handed
  out with its contents. If all are stale, the oldest wasted cell is handed out with its mark
  cleared; if there is none, the lease fails and changes nothing.
\<close>

theorem lease_closed_form:
  "lease now s =
     (let skipped = takeWhile (\<lambda>c. drop_time (cells s c) \<le> now) (available_cells s);
          emptied = for_cells reset_value skipped (cells s)
      in case drop (length skipped) (available_cells s) of
           c # rest \<Rightarrow>
             (s\<lparr>cells := emptied, available_cells := rest,
                used_cells := used_cells s @ [c], wasted_cells := wasted_cells s @ skipped\<rparr>, Some c)
         | [] \<Rightarrow>
             (case wasted_cells s @ skipped of
                c # rest \<Rightarrow>
                  (s\<lparr>cells := emptied(c := (emptied c)\<lparr>waste_on_recycle := False\<rparr>),
                     available_cells := [], used_cells := used_cells s @ [c],
                     wasted_cells := rest\<rparr>, Some c)
              | [] \<Rightarrow> (s, None)))"
proof -
  have "(\<lambda>c. drop_time (cells s c) \<le> now) = stale now s"
    by (simp add: stale_def fun_eq_iff)
  then show ?thesis
    by (auto simp: lease_eq lease_reference_def Let_def take_available_def take_wasted_def
        fresh_available_def discard_def split: list.splits)
qed

subsection \<open>Invariants of runs\<close>

text \<open>
  C18. From a new storage, no sequence of leases, returns, writes and invalidations that keeps to the
  cells it was lent has undefined behaviour; afterwards the three lists together hold each of the
  \<open>n\<close> cells exactly once, and every wasted cell is empty.
\<close>

theorem storage_protocol_safe:
  assumes "ops_on_lent xs (storage_of_capacity n timeout life)"
  shows "\<exists>s'. storage_run xs (storage_of_capacity n timeout life) = Inr s'
    \<and> distinct (available_cells s' @ used_cells s' @ wasted_cells s')
    \<and> set (available_cells s' @ used_cells s' @ wasted_cells s') = {0..<n}
    \<and> (\<forall>c \<in> set (wasted_cells s'). idle_value (cells s' c) = None)"
proof -
  obtain s' where "storage_run xs (storage_of_capacity n timeout life) = Inr s'"
    and inv: "storage_inv n s'"
    using storage_run_ok [OF storage_of_capacity_inv assms] by blast
  moreover have "\<forall>c \<in> set (wasted_cells s'). idle_value (cells s' c) = None"
    using inv by (simp add: storage_inv_def)
  ultimately show ?thesis
    using storage_inv_nodes(1,2) [OF inv] by (auto simp: all_cells_def)
qed

theorem storage_protocol_safe_witness:
  "\<exists>s'. storage_run demo_ops (storage_of_capacity 2 (Duration 10) (Duration 20)) = Inr s'
    \<and> set (available_cells s' @ used_cells s' @ wasted_cells s') = {0..<2}"
proof -
  have "ops_on_lent demo_ops (storage_of_capacity 2 (Duration 10) (Duration 20))"
    by code_simp
  from storage_protocol_safe [OF this] show ?thesis by blast
qed

subsection \<open>Deadlines\<close>

text \<open>
  A value is handed out only before the end of its life: the lifespan counted from the moment it
  was put into its cell.
\<close>

theorem lease_within_lifespan:
  assumes "storage_inv n s" and "lease now s = (s', Some c)" and "idle_value (cells s' c) \<noteq> None"
  shows "now < add (reset_time (cells s' c)) (lifespan s')"
proof -
  have "c \<in> set (available_cells s)" "now < drop_time (cells s c)" "cells s' c = cells s c"
    and "lifespan s' = lifespan s"
    using lease_Some(2) [OF assms(1,2)] assms(3) by (auto simp: leased_from_def)
  then show ?thesis
    using assms(1) by (auto simp: storage_inv_def available_ok_def life_end_def)
qed

theorem lease_within_lifespan_witness:
  "idle_value (cells (fst (lease (Time_Point 105) demo_storage)) 0) = Some 7
   \<and> Time_Point 105 < add (Time_Point 100) (Duration 20)"
proof -
  let ?s = "fst (lease (Time_Point 105) demo_storage)"
  have lease: "lease (Time_Point 105) demo_storage = (?s, Some 0)"
    by (simp add: prod_eq_iff) code_simp
  have got: "idle_value (cells ?s 0) = Some 7" "reset_time (cells ?s 0) = Time_Point 100"
    "lifespan ?s = Duration 20"
    by code_simp+
  show ?thesis
    using lease_within_lifespan [OF demo_storage_inv lease] got by simp
qed

text \<open>
  A value that was given back at \<open>t\<^sub>0\<close> is handed out again only if less than the idle timeout has
  passed since then.
\<close>

theorem recycled_value_within_idle_timeout:
  assumes "storage_inv n s" and "storage_recycle t0 (Cell c) s = Inr s'"
    and "lease t1 s' = (s'', Some c)" and "idle_value (cells s'' c) \<noteq> None"
  shows "t1 < add t0 (idle_timeout s)"
proof -
  have inv: "storage_inv n s'"
    using assms(1,2) by (rule storage_recycle_inv)
  have c: "c \<in> set (used_cells s)"
    using storage_recycle_Inr_used [OF assms(2)] by simp
  have taken: "c \<in> set (available_cells s')" "t1 < drop_time (cells s' c)"
    using lease_Some(2) [OF inv assms(3)] assms(4) by (auto simp: leased_from_def)
  have "worth_keeping t0 s c"
    using assms(2) c taken(1) storage_inv_disjoint(4) [OF assms(1)]
    by (auto simp: storage_recycle_Cell storage_waste_Inr_iff split: if_splits)
  with assms(2) c have "s' = make_available t0 c s"
    by (simp add: storage_recycle_Cell)
  with taken(2) show ?thesis
    by (simp add: make_available_def)
qed

theorem recycled_value_within_idle_timeout_witness:
  "Time_Point 112 < add (Time_Point 104) (idle_timeout demo_storage)"
proof -
  let ?s = "fst (lease (Time_Point 102) (fst (lease (Time_Point 101) demo_storage)))"
  let ?r = "projr (storage_recycle (Time_Point 104) (Cell 0) ?s)"
  let ?t = "fst (lease (Time_Point 112) ?r)"
  have inv: "storage_inv 2 ?s"
    by (intro lease_inv demo_storage_inv)
  have "isl (storage_recycle (Time_Point 104) (Cell 0) ?s) = False"
    by code_simp
  then have recycle: "storage_recycle (Time_Point 104) (Cell 0) ?s = Inr ?r"
    by (metis sum.collapse(2))
  have lease: "lease (Time_Point 112) ?r = (?t, Some 0)"
    by (simp only: prod_eq_iff fst_conv snd_conv simp_thms) code_simp
  have "idle_value (cells ?t 0) \<noteq> None" "idle_timeout ?s = idle_timeout demo_storage"
    by code_simp+
  with recycled_value_within_idle_timeout [OF inv recycle lease] show ?thesis by simp
qed

subsection \<open>Invalidation\<close>

text \<open>
  The values of \<open>S\<close> are quarantined when no available cell holds one and every used cell that holds
  one is marked for wasting.
\<close>

definition quarantined :: "'v set \<Rightarrow> 'v storage \<Rightarrow> bool" where
  "quarantined S s \<longleftrightarrow>
     (\<forall>c \<in> set (available_cells s). \<forall>v \<in> S. idle_value (cells s c) \<noteq> Some v)
     \<and> (\<forall>c \<in> set (used_cells s). \<forall>v \<in> S.
          idle_value (cells s c) = Some v \<longrightarrow> waste_on_recycle (cells s c))"

fun fills_outside :: "'v set \<Rightarrow> 'v storage_op \<Rightarrow> bool" where
  "fills_outside S (Op_Fill v now it) = (v \<notin> S)"
| "fills_outside S _ = True"

lemma quarantined_lease:
  assumes "storage_inv n s" and "quarantined S s"
  shows "quarantined S (fst (lease now s))"
proof (cases "lease now s")
  case (Pair s' r)
  show ?thesis
  proof (cases r)
    case None
    with Pair lease_None [of now s s'] assms(2) show ?thesis by simp
  next
    case (Some c)
    with Pair lease_Some(2) [OF assms(1), of now s' c] assms(2) show ?thesis
      by (auto simp: quarantined_def leased_from_def)
  qed
qed

lemma quarantined_waste:
  "storage_inv n s \<Longrightarrow> quarantined S s \<Longrightarrow> storage_waste it s = Inr s' \<Longrightarrow> quarantined S s'"
  using storage_inv_disjoint [of n s]
  by (auto simp: quarantined_def storage_waste_Inr_iff split: if_splits)

lemma quarantined_recycle:
  assumes "storage_inv n s" and "quarantined S s" and "storage_recycle now it s = Inr s'"
  shows "quarantined S s'"
proof -
  obtain c where c: "it = Cell c" "c \<in> set (used_cells s)"
    using storage_recycle_Inr_used [OF assms(3)] by blast
  show ?thesis
  proof (cases "worth_keeping now s c")
    case True
    with assms c show ?thesis
      using storage_inv_disjoint [OF assms(1)]
      by (auto simp: storage_recycle_Cell make_available_def quarantined_def worth_keeping_def
          split: if_splits)
  next
    case False
    with assms c show ?thesis
      by (auto simp: storage_recycle_Cell intro: quarantined_waste)
  qed
qed

lemma quarantined_step:
  assumes inv: "storage_inv n s" and q: "quarantined S s" and lent: "op_on_lent s x"
    and out: "fills_outside S x" and step: "storage_step x s = Inr s'"
  shows "quarantined S s'"
proof (cases x)
  case (Op_Lease now)
  with step quarantined_lease [OF inv q, of now] show ?thesis by simp
next
  case (Op_Recycle now it)
  with step quarantined_recycle [OF inv q] show ?thesis by simp
next
  case (Op_Waste it)
  with step quarantined_waste [OF inv q] show ?thesis by simp
next
  case Op_Invalidate
  with step q storage_inv_disjoint [OF inv] show ?thesis
    by (auto simp: quarantined_def storage_invalidate_cells [OF inv])
next
  case (Op_Fill v now it)
  with step q out lent show ?thesis
    using storage_inv_disjoint [OF inv]
    by (auto simp: quarantined_def update_cell_Inr_iff split: if_splits elim: op_on_lent_cases)
qed

lemma quarantined_run:
  "storage_inv n s \<Longrightarrow> quarantined S s \<Longrightarrow> ops_on_lent xs s \<Longrightarrow> list_all (fills_outside S) xs \<Longrightarrow>
   storage_run xs s = Inr s' \<Longrightarrow> storage_inv n s' \<and> quarantined S s'"
proof (induction xs arbitrary: s)
  case Nil
  then show ?case by simp
next
  case (Cons x xs)
  then obtain t where t: "storage_step x s = Inr t" "storage_run xs t = Inr s'"
    by (auto simp: and_then_Inr_iff)
  have "storage_inv n t"
    using storage_step_ok [OF Cons.prems(1), of x] Cons.prems(3) t(1) by auto
  moreover have "quarantined S t"
    using quarantined_step [OF Cons.prems(1,2) _ _ t(1)] Cons.prems(3,4) by simp
  ultimately show ?case
    using Cons.IH [of t] Cons.prems(3,4) t by simp
qed

definition stored_values :: "'v storage \<Rightarrow> 'v set" where
  "stored_values s = {v. \<exists>c \<in> set (all_cells s). idle_value (cells s c) = Some v}"

lemma quarantined_invalidate:
  "storage_inv n s \<Longrightarrow> quarantined (stored_values s) (storage_invalidate s)"
  using storage_inv_disjoint [of n s]
  by (auto simp: quarantined_def storage_invalidate_cells)

text \<open>
  C11. After \<open>invalidate\<close>, whatever operations follow, no value that was in the pool at that moment,
  whether its cell was available or in use, is ever handed out by a lease, unless a client puts it
  into a cell again.
\<close>

theorem invalidated_values_never_leased:
  assumes "storage_inv n s"
    and "ops_on_lent xs (storage_invalidate s)" and "list_all (fills_outside (stored_values s)) xs"
    and "storage_run xs (storage_invalidate s) = Inr s1"
    and "lease now s1 = (s2, Some c)"
  shows "idle_value (cells s2 c) \<notin> Some ` stored_values s"
proof -
  have "storage_inv n s1" "quarantined (stored_values s) s1"
    using quarantined_run [OF storage_invalidate_inv quarantined_invalidate assms(2-4)] assms(1)
    by auto
  then show ?thesis
    using lease_Some(2) [OF _ assms(5)] by (auto simp: leased_from_def quarantined_def)
qed

theorem invalidated_values_never_leased_witness:
  "\<exists>s1. storage_run demo_ops (storage_invalidate demo_storage) = Inr s1
    \<and> snd (lease (Time_Point 106) s1) = Some 1
    \<and> idle_value (cells (fst (lease (Time_Point 106) s1)) 1) \<noteq> Some 7"
proof -
  have lent: "ops_on_lent demo_ops (storage_invalidate demo_storage)"
    by code_simp
  obtain s1 where run: "storage_run demo_ops (storage_invalidate demo_storage) = Inr s1"
    using storage_run_ok [OF storage_invalidate_inv [OF demo_storage_inv] lent] by blast
  have stored: "stored_values demo_storage = {7, 8}"
    by (auto simp: stored_values_def demo_storage_def storage_of_range_def emplace_available_def
        all_cells_def idle_of_def Let_def)
  have out: "list_all (fills_outside (stored_values demo_storage)) demo_ops"
    by (simp add: stored demo_ops_def)
  have "map_sum id (\<lambda>s. snd (lease (Time_Point 106) s))
      (storage_run demo_ops (storage_invalidate demo_storage)) = Inr (Some 1)"
    by code_simp
  then have "snd (lease (Time_Point 106) s1) = Some 1"
    by (simp add: run)
  then show ?thesis
    using invalidated_values_never_leased [OF demo_storage_inv lent out run, of "Time_Point 106"]
      stored run
    by (cases "lease (Time_Point 106) s1") auto
qed

end
