(* ===== verification/Handle.thy ===== *)
theory Handle
  imports Storage_Contract
begin

text \<open>
  \<open>handle.hpp\<close> and \<open>detail/pool_returns.hpp\<close>: the owner of a leased cell and the interface through
  which it gives the cell back.

  A handle holds a shared pointer to a pool (\<open>None\<close> for a null pointer), a strategy (a pointer to
  one of its own members \<open>waste\<close> and \<open>recycle\<close>; \<open>None\<close> where a default-constructed handle leaves it
  uninitialised) and an optional iterator. The pools live in a world of type \<open>'w\<close>, named by \<open>'r\<close>;
  \<open>pool_api\<close> holds the two virtual functions of \<open>pool_returns\<close>, which may emit outputs \<open>'o\<close>, and the
  access to the memory of a cell through an iterator.
\<close>

subsection \<open>The interface of a pool\<close>

record ('r, 'w, 'o, 'v) pool_api =
  api_waste :: "'r \<Rightarrow> cell_iterator \<Rightarrow> 'w \<Rightarrow> ('w \<times> 'o list) result"
  api_recycle :: "time_point \<Rightarrow> 'r \<Rightarrow> cell_iterator \<Rightarrow> 'w \<Rightarrow> ('w \<times> 'o list) result"
  api_read :: "'r \<Rightarrow> cell_iterator \<Rightarrow> 'w \<Rightarrow> 'v idle result"
  api_write :: "'r \<Rightarrow> cell_iterator \<Rightarrow> ('v idle \<Rightarrow> 'v idle) \<Rightarrow> 'w \<Rightarrow> 'w result"

subsection \<open>Handles\<close>

datatype strategy = Strategy_Waste | Strategy_Recycle

record 'r handle =
  pool_impl :: "'r option"
  use_strategy :: "strategy option"
  resource_it :: "cell_iterator option"

definition handle_default :: "'r handle" where
  "handle_default = \<lparr>pool_impl = None, use_strategy = None, resource_it = None\<rparr>"

definition handle_new :: "'r \<Rightarrow> strategy \<Rightarrow> cell_iterator \<Rightarrow> 'r handle" where
  "handle_new r st it =
     \<lparr>pool_impl = Some r, use_strategy = Some st, resource_it = Some it\<rparr>"

definition unusable :: "'r handle \<Rightarrow> bool" where
  "unusable h \<longleftrightarrow> resource_it h = None"

text \<open>Reading through the iterator of a usable handle.\<close>

definition handle_cell ::
  "('r, 'w, 'o, 'v) pool_api \<Rightarrow> 'r handle \<Rightarrow> 'w \<Rightarrow> 'v idle result" where
  "handle_cell api h w =
     (case (pool_impl h, resource_it h) of
        (Some r, Some it) \<Rightarrow> api_read api r it w
      | _ \<Rightarrow> Inl Undefined_Behaviour)"

definition handle_empty :: "('r, 'w, 'o, 'v) pool_api \<Rightarrow> 'r handle \<Rightarrow> 'w \<Rightarrow> bool result" where
  "handle_empty api h w =
     (if unusable h then Inr True
      else and_then (handle_cell api h w) (\<lambda>cell. Inr (idle_value cell = None)))"

definition assert_not_empty :: "('r, 'w, 'o, 'v) pool_api \<Rightarrow> 'r handle \<Rightarrow> 'w \<Rightarrow> unit result" where
  "assert_not_empty api h w =
     and_then (handle_empty api h w) (\<lambda>e. if e then Inl (Throws Empty_Handle) else Inr ())"

definition assert_not_unusable :: "'r handle \<Rightarrow> unit result" where
  "assert_not_unusable h = (if unusable h then Inl (Throws Unusable_Handle) else Inr ())"

definition handle_get :: "('r, 'w, 'o, 'v) pool_api \<Rightarrow> 'r handle \<Rightarrow> 'w \<Rightarrow> 'v result" where
  "handle_get api h w =
     and_then (assert_not_empty api h w) (\<lambda>_.
     and_then (handle_cell api h w) (\<lambda>cell.
       case idle_value cell of None \<Rightarrow> Inl Undefined_Behaviour | Some v \<Rightarrow> Inr v))"

text \<open>\<open>recycle\<close> and \<open>waste\<close> give the cell back and leave the handle unusable.\<close>

definition handle_recycle ::
  "('r, 'w, 'o, 'v) pool_api \<Rightarrow> time_point \<Rightarrow> 'r handle \<Rightarrow> 'w \<Rightarrow> ('r handle \<times> 'w \<times> 'o list) result"
where
  "handle_recycle api now h w =
     and_then (assert_not_unusable h) (\<lambda>_.
       case (pool_impl h, resource_it h) of
         (Some r, Some it) \<Rightarrow>
           and_then (api_recycle api now r it w) (\<lambda>(w', out).
             Inr (h\<lparr>resource_it := None\<rparr>, w', out))
       | _ \<Rightarrow> Inl Undefined_Behaviour)"

definition handle_waste ::
  "('r, 'w, 'o, 'v) pool_api \<Rightarrow> 'r handle \<Rightarrow> 'w \<Rightarrow> ('r handle \<times> 'w \<times> 'o list) result" where
  "handle_waste api h w =
     and_then (assert_not_unusable h) (\<lambda>_.
       case (pool_impl h, resource_it h) of
         (Some r, Some it) \<Rightarrow>
           and_then (api_waste api r it w) (\<lambda>(w', out). Inr (h\<lparr>resource_it := None\<rparr>, w', out))
       | _ \<Rightarrow> Inl Undefined_Behaviour)"

definition handle_reset ::
  "('r, 'w, 'o, 'v) pool_api \<Rightarrow> 'v \<Rightarrow> time_point \<Rightarrow> 'r handle \<Rightarrow> 'w \<Rightarrow> 'w result" where
  "handle_reset api v now h w =
     and_then (assert_not_unusable h) (\<lambda>_.
       case (pool_impl h, resource_it h) of
         (Some r, Some it) \<Rightarrow> api_write api r it (fill_cell v now) w
       | _ \<Rightarrow> Inl Undefined_Behaviour)"

text \<open>\<open>(this->*_use_strategy)()\<close>.\<close>

definition call_strategy ::
  "('r, 'w, 'o, 'v) pool_api \<Rightarrow> time_point \<Rightarrow> 'r handle \<Rightarrow> 'w \<Rightarrow> ('r handle \<times> 'w \<times> 'o list) result"
where
  "call_strategy api now h w =
     (case use_strategy h of
        None \<Rightarrow> Inl Undefined_Behaviour
      | Some Strategy_Waste \<Rightarrow> handle_waste api h w
      | Some Strategy_Recycle \<Rightarrow> handle_recycle api now h w)"

definition handle_release ::
  "('r, 'w, 'o, 'v) pool_api \<Rightarrow> time_point \<Rightarrow> 'r handle \<Rightarrow> 'w \<Rightarrow> ('r handle \<times> 'w \<times> 'o list) result"
where
  "handle_release api now h w =
     (if \<not> unusable h then call_strategy api now h w else Inr (h, w, []))"

text \<open>The destructor: the object is gone afterwards.\<close>

definition handle_destroy ::
  "('r, 'w, 'o, 'v) pool_api \<Rightarrow> time_point \<Rightarrow> 'r handle \<Rightarrow> 'w \<Rightarrow> ('w \<times> 'o list) result" where
  "handle_destroy api now h w =
     and_then (handle_release api now h w) (\<lambda>(h', w', out). Inr (w', out))"

text \<open>
  The move constructor yields the new handle and the one moved from. The move assignment works on
  handles stored in variables, because its two operands may be the same variable.
\<close>

definition moved_from :: "'r handle \<Rightarrow> 'r handle" where
  "moved_from other = other\<lparr>resource_it := None, pool_impl := None\<rparr>"

definition handle_move_construct :: "'r handle \<Rightarrow> 'r handle \<times> 'r handle" where
  "handle_move_construct other =
     (\<lparr>pool_impl = pool_impl other, use_strategy = use_strategy other,
       resource_it = resource_it other\<rparr>, moved_from other)"

type_synonym 'r handles = "nat \<Rightarrow> 'r handle"

definition handle_move_assign ::
  "('r, 'w, 'o, 'v) pool_api \<Rightarrow> time_point \<Rightarrow> nat \<Rightarrow> nat \<Rightarrow> 'r handles \<Rightarrow> 'w \<Rightarrow>
   ('r handles \<times> 'w \<times> 'o list) result"
where
  "handle_move_assign api now this other hs w =
     and_then (handle_release api now (hs this) w) (\<lambda>(h, w', out).
       let released = hs(this := h);
           source = released other;
           copied = released(this := h\<lparr>pool_impl := pool_impl source,
                      use_strategy := use_strategy source, resource_it := resource_it source\<rparr>)
       in Inr (copied(other := moved_from (copied other)), w', out))"

lemmas handle_defs =
  handle_cell_def handle_empty_def assert_not_empty_def assert_not_unusable_def handle_get_def
  handle_recycle_def handle_waste_def handle_reset_def call_strategy_def handle_release_def
  handle_destroy_def moved_from_def handle_move_construct_def handle_move_assign_def
  handle_default_def handle_new_def unusable_def

declare handle_defs [exec]

lemma handle_basics [simp]:
  "unusable handle_default"
  "\<not> unusable (handle_new r st it)"
  "pool_impl (handle_new r st it) = Some r"
  "use_strategy (handle_new r st it) = Some st"
  "resource_it (handle_new r st it) = Some it"
  "unusable (moved_from h)"
  by (simp_all add: handle_defs)

subsection \<open>Programs over handles\<close>

text \<open>
  A client keeps handles in variables numbered by \<open>nat\<close>. \<open>H_Declare i j\<close> ends the life of variable
  \<open>i\<close> and declares it anew, move-constructed from \<open>j\<close>. The client catches exceptions and goes on.
\<close>

datatype 'v handle_op =
    H_Get nat
  | H_Recycle time_point nat
  | H_Waste nat
  | H_Reset 'v time_point nat
  | H_Move_Assign time_point nat nat
  | H_Declare time_point nat nat
  | H_Destroy time_point nat

fun handle_step ::
  "('r, 'w, 'o, 'v) pool_api \<Rightarrow> 'v handle_op \<Rightarrow> 'r handles \<Rightarrow> 'w \<Rightarrow> ('r handles \<times> 'w \<times> 'o list) result"
where
  "handle_step api (H_Get i) hs w =
     and_then (handle_get api (hs i) w) (\<lambda>v. Inr (hs, w, []))"
| "handle_step api (H_Recycle now i) hs w =
     and_then (handle_recycle api now (hs i) w) (\<lambda>(h, w', out). Inr (hs(i := h), w', out))"
| "handle_step api (H_Waste i) hs w =
     and_then (handle_waste api (hs i) w) (\<lambda>(h, w', out). Inr (hs(i := h), w', out))"
| "handle_step api (H_Reset v now i) hs w =
     and_then (handle_reset api v now (hs i) w) (\<lambda>w'. Inr (hs, w', []))"
| "handle_step api (H_Move_Assign now i j) hs w = handle_move_assign api now i j hs w"
| "handle_step api (H_Declare now i j) hs w =
     and_then (handle_destroy api now (hs i) w) (\<lambda>(w', out).
       let ended = hs(i := handle_default);
           (new, old) = handle_move_construct (ended j)
       in Inr (ended(j := old, i := new), w', out))"
| "handle_step api (H_Destroy now i) hs w =
     and_then (handle_destroy api now (hs i) w) (\<lambda>(w', out).
       Inr (hs(i := handle_default), w', out))"

definition catch_exceptions :: "'a result \<Rightarrow> 'a \<Rightarrow> 'a result" where
  "catch_exceptions r s = (case r of Inl (Throws e) \<Rightarrow> Inr s | _ \<Rightarrow> r)"

fun handle_run ::
  "('r, 'w, 'o, 'v) pool_api \<Rightarrow> 'v handle_op list \<Rightarrow> 'r handles \<Rightarrow> 'w \<Rightarrow>
   ('r handles \<times> 'w \<times> 'o list) result"
where
  "handle_run api [] hs w = Inr (hs, w, [])"
| "handle_run api (x # xs) hs w =
     and_then (catch_exceptions (handle_step api x hs w) (hs, w, [])) (\<lambda>(hs', w', out).
     and_then (handle_run api xs hs' w') (\<lambda>(hs'', w'', out'). Inr (hs'', w'', out @ out')))"

subsection \<open>A cell is given back once\<close>

text \<open>
  C32. Giving a cell back leaves the handle unusable: afterwards \<open>recycle\<close>, \<open>waste\<close> and \<open>reset\<close> are
  refused with the exception \<open>unusable_handle\<close> and \<open>get\<close> with \<open>empty_handle\<close>, whatever the pool
  does, and the destructor does nothing.
\<close>

theorem handle_gives_back_once:
  assumes "handle_recycle api now h w = Inr (h', w', out) \<or> handle_waste api h w = Inr (h', w', out)"
  shows "unusable h'
    \<and> handle_recycle api t h' w'' = Inl (Throws Unusable_Handle)
    \<and> handle_waste api h' w'' = Inl (Throws Unusable_Handle)
    \<and> handle_reset api v t h' w'' = Inl (Throws Unusable_Handle)
    \<and> handle_get api h' w'' = Inl (Throws Empty_Handle)
    \<and> handle_destroy api t h' w'' = Inr (w'', [])"
proof -
  have "unusable h'"
    using assms
    by (auto simp: handle_recycle_def handle_waste_def and_then_Inr_iff unusable_def
        split: option.splits)
  then show ?thesis
    by (simp add: handle_recycle_def handle_waste_def handle_reset_def handle_get_def
        handle_destroy_def handle_release_def assert_not_unusable_def assert_not_empty_def
        handle_empty_def)
qed

text \<open>A pool that only counts the cells it gets back.\<close>

definition counting_api :: "(unit, nat, string, nat) pool_api" where
  "counting_api =
     \<lparr>api_waste = (\<lambda>r it w. Inr (Suc w, [''waste''])),
      api_recycle = (\<lambda>now r it w. Inr (Suc w, [''recycle''])),
      api_read = (\<lambda>r it w. Inr idle_empty), api_write = (\<lambda>r it f w. Inr w)\<rparr>"

declare counting_api_def [exec]

theorem handle_gives_back_once_witness:
  "handle_recycle counting_api epoch (handle_new () Strategy_Waste (Cell 0)) 0
     = Inr (\<lparr>pool_impl = Some (), use_strategy = Some Strategy_Waste, resource_it = None\<rparr>, 1,
            [''recycle''])
   \<and> handle_destroy counting_api epoch
        \<lparr>pool_impl = Some (), use_strategy = Some Strategy_Waste, resource_it = None\<rparr> 1 = Inr (1, [])"
proof -
  have "handle_recycle counting_api epoch (handle_new () Strategy_Waste (Cell 0)) 0
     = Inr (\<lparr>pool_impl = Some (), use_strategy = Some Strategy_Waste, resource_it = None\<rparr>, 1,
            [''recycle''])"
    by (simp add: handle_recycle_def assert_not_unusable_def counting_api_def unusable_def
        handle_new_def)
  then show ?thesis
    using handle_gives_back_once [where api = counting_api and now = epoch and t = epoch and w'' = 1
        and h = "handle_new () Strategy_Waste (Cell 0)" and w = 0]
    by blast
qed

text \<open>
  C33. Move assignment gives back the cell of the target, through the target's own strategy, before it
  takes over the source: afterwards the target is what the source was and the source is unusable.
  Assigning a handle to itself gives its cell back and leaves it unusable.
\<close>

theorem move_assign_gives_back_target:
  assumes "\<not> unusable (hs this)"
    and "call_strategy api now (hs this) w = Inr (h, w', out)"
  shows "(this \<noteq> other \<longrightarrow>
      handle_move_assign api now this other hs w =
        Inr (hs(this := hs other, other := moved_from (hs other)), w', out))
    \<and> handle_move_assign api now this this hs w =
        Inr (hs(this := moved_from h), w', out)
    \<and> unusable (moved_from h) \<and> unusable (moved_from (hs other))"
  using assms
  by (auto simp: handle_move_assign_def handle_release_def Let_def moved_from_def unusable_def
      fun_eq_iff)

theorem move_assign_gives_back_target_witness:
  "\<exists>h. handle_move_assign counting_api epoch 0 1
         (\<lambda>i. handle_new () Strategy_Recycle (Cell i)) 0
       = Inr ((\<lambda>i. handle_new () Strategy_Recycle (Cell i))
               (0 := handle_new () Strategy_Recycle (Cell 1),
                1 := moved_from (handle_new () Strategy_Recycle (Cell 1))), 1, [''recycle''])
     \<and> unusable (moved_from h)"
proof -
  let ?hs = "\<lambda>i. handle_new () Strategy_Recycle (Cell i)"
  have us: "\<not> unusable (?hs 0)" by simp
  have call: "call_strategy counting_api epoch (?hs 0) 0
      = Inr ((?hs 0)\<lparr>resource_it := None\<rparr>, 1, [''recycle''])"
    by (simp add: call_strategy_def handle_recycle_def assert_not_unusable_def counting_api_def)
  show ?thesis
    using move_assign_gives_back_target [where hs = ?hs and this = 0 and other = 1, OF us call] by auto
qed

end
