(* ===== verification/Pool_Returns.thy ===== *)
theory Pool_Returns
  imports Handle
begin

text \<open>
  The contract between handles and pools (\<open>detail/pool_returns.hpp\<close>), as a locale, and what a client
  of handles gets from it.

  A pool promises that a cell it has lent out can be read and written through its iterator and can
  be given back, and that giving one back ends this loan and no other. A client promises nothing: it
  may call any operation on any handle variable. \<open>owns\<close> is the invariant that links the two: every
  usable handle owns a lent cell of its own, and every lent cell is owned by a handle.
\<close>

definition held :: "'r handles \<Rightarrow> 'r \<Rightarrow> nat set" where
  "held hs r = {c. \<exists>i. pool_impl (hs i) = Some r \<and> resource_it (hs i) = Some (Cell c)}"

definition owns :: "('r \<Rightarrow> 'w \<Rightarrow> nat set) \<Rightarrow> 'r handles \<Rightarrow> 'w \<Rightarrow> bool" where
  "owns lent hs w \<longleftrightarrow>
     (\<forall>i. \<not> unusable (hs i) \<longrightarrow>
        (\<exists>r c. pool_impl (hs i) = Some r \<and> resource_it (hs i) = Some (Cell c) \<and> c \<in> lent r w)
        \<and> use_strategy (hs i) \<noteq> None)
     \<and> (\<forall>i j. i \<noteq> j \<and> \<not> unusable (hs i) \<and> pool_impl (hs i) = pool_impl (hs j) \<longrightarrow>
          resource_it (hs i) \<noteq> resource_it (hs j))
     \<and> (\<forall>r. lent r w \<subseteq> held hs r)"

declare owns_def [inv_simps]

text \<open>What giving back cell \<open>c\<close> of pool \<open>r\<close> does to the loans.\<close>

definition loan_ended :: "('r \<Rightarrow> 'w \<Rightarrow> nat set) \<Rightarrow> 'r \<Rightarrow> nat \<Rightarrow> 'w \<Rightarrow> 'w \<Rightarrow> bool" where
  "loan_ended lent r c w w' \<longleftrightarrow> (\<forall>r'. lent r' w' = (if r' = r then lent r' w - {c} else lent r' w))"

lemma owns_usable:
  assumes "owns lent hs w" and "\<not> unusable (hs i)"
  obtains r c st where "pool_impl (hs i) = Some r" "resource_it (hs i) = Some (Cell c)"
    "use_strategy (hs i) = Some st" "c \<in> lent r w"
  using assms unfolding owns_def by blast

lemma owns_apart:
  "owns lent hs w \<Longrightarrow> i \<noteq> j \<Longrightarrow> \<not> unusable (hs i) \<Longrightarrow> pool_impl (hs i) = pool_impl (hs j) \<Longrightarrow>
   resource_it (hs i) \<noteq> resource_it (hs j)"
  unfolding owns_def by blast

lemma owns_held: "owns lent hs w \<Longrightarrow> held hs r = lent r w"
  unfolding owns_def held_def unusable_def by force

lemma ownsI:
  assumes "\<And>i. \<not> unusable (hs i) \<Longrightarrow>
      (\<exists>r c. pool_impl (hs i) = Some r \<and> resource_it (hs i) = Some (Cell c) \<and> c \<in> lent r w)
      \<and> use_strategy (hs i) \<noteq> None"
    and "\<And>i j. i \<noteq> j \<Longrightarrow> \<not> unusable (hs i) \<Longrightarrow> pool_impl (hs i) = pool_impl (hs j) \<Longrightarrow>
      resource_it (hs i) \<noteq> resource_it (hs j)"
    and "\<And>r. lent r w \<subseteq> held hs r"
  shows "owns lent hs w"
  using assms unfolding owns_def by blast

lemma owns_nothing: "(\<And>r. lent r w = {}) \<Longrightarrow> owns lent (\<lambda>_. handle_default) w"
  by (rule ownsI) simp_all

lemma held_unusable: "unusable h \<Longrightarrow> held (hs(i := h)) r
    = {c. \<exists>j. j \<noteq> i \<and> pool_impl (hs j) = Some r \<and> resource_it (hs j) = Some (Cell c)}"
  by (auto simp: held_def unusable_def)

lemma owns_give_back:
  assumes own: "owns lent hs w" and i: "pool_impl (hs i) = Some r" "resource_it (hs i) = Some (Cell c)"
    and ended: "loan_ended lent r c w w'" and h: "unusable h"
  shows "owns lent (hs(i := h)) w'"
proof (rule ownsI)
  have us: "\<not> unusable (hs i)"
    using i by (simp add: unusable_def)
  have other: "\<not> (pool_impl (hs j) = Some r \<and> resource_it (hs j) = Some (Cell c))" if "j \<noteq> i" for j
    using owns_apart [OF own _ us] that i by metis
  show "(\<exists>r c. pool_impl ((hs(i := h)) j) = Some r \<and> resource_it ((hs(i := h)) j) = Some (Cell c)
      \<and> c \<in> lent r w') \<and> use_strategy ((hs(i := h)) j) \<noteq> None"
    if us: "\<not> unusable ((hs(i := h)) j)" for j
  proof -
    have j: "j \<noteq> i" "\<not> unusable (hs j)"
      using us h by (auto split: if_splits)
    obtain r' d st where "pool_impl (hs j) = Some r'" "resource_it (hs j) = Some (Cell d)"
      "use_strategy (hs j) = Some st" "d \<in> lent r' w"
      using owns_usable [OF own j(2)] by metis
    with other [OF j(1)] ended j(1) show ?thesis
      by (auto simp: loan_ended_def)
  qed
  show "resource_it ((hs(i := h)) j) \<noteq> resource_it ((hs(i := h)) k)"
    if "j \<noteq> k" "\<not> unusable ((hs(i := h)) j)" "pool_impl ((hs(i := h)) j) = pool_impl ((hs(i := h)) k)"
    for j k
    using that h owns_apart [OF own that(1)] by (auto simp: unusable_def split: if_splits)
  show "lent r' w' \<subseteq> held (hs(i := h)) r'" for r'
  proof
    fix d
    assume d: "d \<in> lent r' w'"
    then have "d \<in> lent r' w" "(r', d) \<noteq> (r, c)"
      using ended by (auto simp: loan_ended_def split: if_splits)
    then obtain j where "pool_impl (hs j) = Some r'" "resource_it (hs j) = Some (Cell d)" "j \<noteq> i"
      using owns_held [OF own, of r'] i unfolding held_def by force
    then show "d \<in> held (hs(i := h)) r'"
      by (auto simp: held_unusable [OF h])
  qed
qed

lemma held_transfer:
  assumes "unusable (hs i)" and "i \<noteq> j" and "unusable old"
    and "pool_impl new = pool_impl (hs j)" "resource_it new = resource_it (hs j)"
  shows "held (hs(i := new, j := old)) r = held hs r"
proof (intro set_eqI iffI)
  fix c
  show "c \<in> held hs r" if "c \<in> held (hs(i := new, j := old)) r"
    using that assms by (auto simp: held_def unusable_def split: if_splits)
  assume "c \<in> held hs r"
  then obtain k where k: "pool_impl (hs k) = Some r" "resource_it (hs k) = Some (Cell c)"
    by (auto simp: held_def)
  then have "k \<noteq> i"
    using assms(1) by (auto simp: unusable_def)
  then show "c \<in> held (hs(i := new, j := old)) r"
    using k assms(2,4,5) unfolding held_def
    by (cases "k = j") (auto intro: exI [of _ i] exI [of _ k])
qed

lemma owns_transfer:
  assumes "owns lent hs w" and "unusable (hs i)" and "i \<noteq> j" and "unusable old"
    and "pool_impl new = pool_impl (hs j)" "use_strategy new = use_strategy (hs j)"
    and "resource_it new = resource_it (hs j)"
  shows "owns lent (hs(i := new, j := old)) w"
proof -
  have "lent r w \<subseteq> held (hs(i := new, j := old)) r" for r
    using owns_held [OF assms(1)] held_transfer [OF assms(2,3,4,5,7)] by simp
  then show ?thesis
    using assms unfolding owns_def unusable_def by (auto split: if_splits)
qed

lemma owns_unusable:
  assumes "owns lent hs w" and "unusable (hs i)" and "unusable h"
  shows "owns lent (hs(i := h)) w"
proof -
  have "held (hs(i := h)) r = held hs r" for r
    using assms(2) unfolding held_unusable [OF assms(3)] by (force simp: held_def unusable_def)
  then have "lent r w \<subseteq> held (hs(i := h)) r" for r
    using owns_held [OF assms(1)] by simp
  then show ?thesis
    using assms unfolding owns_def by (auto simp: unusable_def)
qed

lemma owns_same_lent: "owns lent hs w \<Longrightarrow> (\<And>r. lent r w' = lent r w) \<Longrightarrow> owns lent hs w'"
  unfolding owns_def by simp

text \<open>A handle for a cell that was not lent before joins the others.\<close>

lemma owns_new:
  assumes own: "owns lent hs w" and un: "unusable (hs i)" and c: "c \<notin> lent r w"
    and lent: "\<And>r'. lent r' w' = (if r' = r then insert c (lent r' w) else lent r' w)"
  shows "owns lent (hs(i := handle_new r st (Cell c))) w'"
proof -
  have fresh: "\<not> (pool_impl (hs j) = Some r \<and> resource_it (hs j) = Some (Cell c))" for j
    using owns_held [OF own, of r] c by (auto simp: held_def)
  have "held hs r' \<subseteq> held (hs(i := handle_new r st (Cell c))) r'" for r'
    using un by (force simp: held_def unusable_def)
  moreover have "c \<in> held (hs(i := handle_new r st (Cell c))) r"
    unfolding held_def by (auto intro: exI [of _ i])
  ultimately have "lent r' w' \<subseteq> held (hs(i := handle_new r st (Cell c))) r'" for r'
    using owns_held [OF own, of r'] lent [of r'] by auto
  note kept = this
  let ?hs = "hs(i := handle_new r st (Cell c))"
  have more: "lent r' w \<subseteq> lent r' w'" and c': "c \<in> lent r w'" for r'
    using lent by auto
  show ?thesis
  proof (rule ownsI)
    fix j
    assume us: "\<not> unusable (?hs j)"
    show "(\<exists>r c. pool_impl (?hs j) = Some r \<and> resource_it (?hs j) = Some (Cell c) \<and> c \<in> lent r w')
        \<and> use_strategy (?hs j) \<noteq> None"
    proof (cases "j = i")
      case True
      with c' show ?thesis by simp
    next
      case False
      then obtain r' d s where "pool_impl (hs j) = Some r'" "resource_it (hs j) = Some (Cell d)"
        "use_strategy (hs j) = Some s" "d \<in> lent r' w"
        using owns_usable [OF own, of j] us by auto
      with False more show ?thesis by auto
    qed
  next
    fix j k
    assume jk: "j \<noteq> k" "\<not> unusable (?hs j)" "pool_impl (?hs j) = pool_impl (?hs k)"
    then show "resource_it (?hs j) \<noteq> resource_it (?hs k)"
      using fresh [of j] fresh [of k] owns_apart [OF own jk(1)] by (auto split: if_splits)
  qed (rule kept)
qed

subsection \<open>The locale\<close>

locale pool_returns =
  fixes api :: "('r, 'w, 'o, 'v) pool_api"
    and lent :: "'r \<Rightarrow> 'w \<Rightarrow> nat set"
    and inv :: "'w \<Rightarrow> bool"
  assumes recycle_lent: "inv w \<Longrightarrow> c \<in> lent r w \<Longrightarrow>
      \<exists>w' out. api_recycle api now r (Cell c) w = Inr (w', out) \<and> inv w'
        \<and> loan_ended lent r c w w'"
    and waste_lent: "inv w \<Longrightarrow> c \<in> lent r w \<Longrightarrow>
      \<exists>w' out. api_waste api r (Cell c) w = Inr (w', out) \<and> inv w'
        \<and> loan_ended lent r c w w'"
    and read_lent: "inv w \<Longrightarrow> c \<in> lent r w \<Longrightarrow> \<exists>cell. api_read api r (Cell c) w = Inr cell"
    and write_lent: "inv w \<Longrightarrow> c \<in> lent r w \<Longrightarrow>
      \<exists>w'. api_write api r (Cell c) f w = Inr w' \<and> inv w' \<and> (\<forall>r'. lent r' w' = lent r' w)"
begin

lemma get_safe:
  assumes "inv w" "owns lent hs w"
  shows "safe (handle_get api (hs i) w)"
proof (cases "unusable (hs i)")
  case True
  then show ?thesis
    by (simp add: handle_get_def assert_not_empty_def handle_empty_def)
next
  case False
  then obtain r c where h: "pool_impl (hs i) = Some r" "resource_it (hs i) = Some (Cell c)"
    "c \<in> lent r w"
    using owns_usable [OF assms(2)] by metis
  obtain cell where "api_read api r (Cell c) w = Inr cell"
    using read_lent [OF assms(1) h(3)] by blast
  with h(1,2) False show ?thesis
    by (auto simp: handle_get_def assert_not_empty_def handle_empty_def handle_cell_def
        split: option.splits)
qed

lemma reset_safe:
  assumes "inv w" "owns lent hs w"
  shows "\<exists>w'. handle_reset api v now (hs i) w = (if unusable (hs i) then Inl (Throws Unusable_Handle)
      else Inr w') \<and> inv w' \<and> owns lent hs w'"
proof (cases "unusable (hs i)")
  case True
  with assms show ?thesis
    by (auto simp: handle_reset_def assert_not_unusable_def)
next
  case False
  then obtain r c where h: "pool_impl (hs i) = Some r" "resource_it (hs i) = Some (Cell c)"
    "c \<in> lent r w"
    using owns_usable [OF assms(2)] by metis
  obtain w' where "api_write api r (Cell c) (fill_cell v now) w = Inr w'" "inv w'"
    "\<And>r'. lent r' w' = lent r' w"
    using write_lent [OF assms(1) h(3)] by blast
  with h False assms(2) owns_same_lent [of lent hs w w'] show ?thesis
    by (auto simp: handle_reset_def assert_not_unusable_def)
qed

text \<open>Giving back, by name or through the strategy, succeeds and leaves an unusable handle.\<close>

lemma give_back_ok:
  assumes "inv w" "owns lent hs w" "\<not> unusable (hs i)"
    and "op = handle_waste api \<or> op = handle_recycle api now \<or> op = call_strategy api now"
  shows "\<exists>w' out. op (hs i) w = Inr ((hs i)\<lparr>resource_it := None\<rparr>, w', out) \<and> inv w'
    \<and> owns lent (hs(i := (hs i)\<lparr>resource_it := None\<rparr>)) w'"
proof -
  obtain r c st where h: "pool_impl (hs i) = Some r" "resource_it (hs i) = Some (Cell c)"
    "use_strategy (hs i) = Some st" "c \<in> lent r w"
    using owns_usable [OF assms(2,3)] by metis
  let ?h = "(hs i)\<lparr>resource_it := None\<rparr>"
  have un: "unusable ?h" by (simp add: unusable_def)
  have waste: "\<exists>w' out. handle_waste api (hs i) w = Inr (?h, w', out) \<and> inv w'
      \<and> owns lent (hs(i := ?h)) w'"
    using waste_lent [OF assms(1) h(4)] owns_give_back [OF assms(2) h(1,2) _ un] assms(3) h
    by (fastforce simp: handle_waste_def assert_not_unusable_def)
  have recycle: "\<exists>w' out. handle_recycle api now (hs i) w = Inr (?h, w', out) \<and> inv w'
      \<and> owns lent (hs(i := ?h)) w'"
    using recycle_lent [OF assms(1) h(4), of now] owns_give_back [OF assms(2) h(1,2) _ un] assms(3) h
    by (fastforce simp: handle_recycle_def assert_not_unusable_def)
  have "call_strategy api now (hs i) w \<in> {handle_waste api (hs i) w, handle_recycle api now (hs i) w}"
    using h(3) by (cases st) (simp_all add: call_strategy_def)
  with waste recycle assms(4) show ?thesis by auto
qed

lemma release_ok:
  assumes "inv w" "owns lent hs w"
  shows "\<exists>h w' out. handle_release api now (hs i) w = Inr (h, w', out) \<and> unusable h \<and> inv w'
    \<and> owns lent (hs(i := h)) w'"
proof (cases "unusable (hs i)")
  case True
  with assms show ?thesis by (auto simp: handle_release_def)
next
  case False
  with give_back_ok [OF assms False, of "call_strategy api now" now] show ?thesis
    by (auto simp: handle_release_def unusable_def)
qed

lemma destroy_ok:
  assumes "inv w" "owns lent hs w"
  shows "\<exists>w' out. handle_destroy api now (hs i) w = Inr (w', out) \<and> inv w'
    \<and> owns lent (hs(i := handle_default)) w'"
proof -
  obtain h w' out where "handle_release api now (hs i) w = Inr (h, w', out)" "unusable h" "inv w'"
    "owns lent (hs(i := h)) w'"
    using release_ok [OF assms] by blast
  then show ?thesis
    using owns_unusable [of lent "hs(i := h)" w' i handle_default] by (simp add: handle_destroy_def)
qed

lemma move_assign_ok:
  assumes "inv w" "owns lent hs w"
  shows "\<exists>hs' w' out. handle_move_assign api now i j hs w = Inr (hs', w', out) \<and> inv w'
    \<and> owns lent hs' w'"
proof -
  obtain h w' out where rel: "handle_release api now (hs i) w = Inr (h, w', out)" "unusable h"
    "inv w'" "owns lent (hs(i := h)) w'"
    using release_ok [OF assms] by blast
  show ?thesis
  proof (cases "i = j")
    case True
    with rel owns_unusable [OF rel(4), of i "moved_from h"] show ?thesis
      by (simp add: handle_move_assign_def Let_def moved_from_def unusable_def)
  next
    case False
    with rel owns_transfer [OF rel(4) _ False] show ?thesis
      by (simp add: handle_move_assign_def Let_def moved_from_def unusable_def)
  qed
qed

lemma declare_ok:
  assumes "inv w" "owns lent hs w"
  shows "\<exists>hs' w' out. handle_step api (H_Declare now i j) hs w = Inr (hs', w', out) \<and> inv w'
    \<and> owns lent hs' w'"
proof -
  obtain w' out where d: "handle_destroy api now (hs i) w = Inr (w', out)" "inv w'"
    "owns lent (hs(i := handle_default)) w'"
    using destroy_ok [OF assms] by blast
  let ?ended = "hs(i := handle_default)"
  show ?thesis
  proof (cases "i = j")
    case True
    have "unusable (fst (handle_move_construct handle_default))"
      by (simp add: handle_move_construct_def handle_default_def unusable_def)
    with True d owns_unusable [OF d(3), of i] show ?thesis
      by (auto simp: handle_move_construct_def)
  next
    case False
    let ?m = "handle_move_construct (hs j)"
    have "owns lent (?ended(i := fst ?m, j := snd ?m)) w'"
      using owns_transfer [OF d(3) _ False] False
      by (simp add: handle_move_construct_def)
    with d False show ?thesis
      by (simp add: handle_move_construct_def fun_upd_twist)
  qed
qed

lemma step_safe:
  assumes "inv w" "owns lent hs w"
  shows "\<exists>hs' w' out. catch_exceptions (handle_step api x hs w) (hs, w, []) = Inr (hs', w', out)
    \<and> inv w' \<and> owns lent hs' w'"
proof (cases x)
  case (H_Get i)
  from get_safe [OF assms, of i] assms H_Get show ?thesis
    by (cases "handle_get api (hs i) w")
      (auto simp: catch_exceptions_def safe_def split: fault.splits)
next
  case (H_Recycle now i)
  show ?thesis
  proof (cases "unusable (hs i)")
    case True
    with assms H_Recycle show ?thesis
      by (simp add: catch_exceptions_def handle_recycle_def assert_not_unusable_def)
  next
    case False
    with give_back_ok [OF assms False, of "handle_recycle api now" now] H_Recycle show ?thesis
      by (auto simp: catch_exceptions_def)
  qed
next
  case (H_Waste i)
  show ?thesis
  proof (cases "unusable (hs i)")
    case True
    with assms H_Waste show ?thesis
      by (simp add: catch_exceptions_def handle_waste_def assert_not_unusable_def)
  next
    case False
    with give_back_ok [OF assms False, of "handle_waste api"] H_Waste show ?thesis
      by (auto simp: catch_exceptions_def)
  qed
next
  case (H_Reset v now i)
  from reset_safe [OF assms, of v now i] assms H_Reset show ?thesis
    by (auto simp: catch_exceptions_def split: if_splits)
next
  case (H_Move_Assign now i j)
  with move_assign_ok [OF assms, of now i j] show ?thesis
    by (auto simp: catch_exceptions_def)
next
  case (H_Declare now i j)
  with declare_ok [OF assms, of now i j] show ?thesis
    by (auto simp: catch_exceptions_def simp del: handle_step.simps)
next
  case (H_Destroy now i)
  with destroy_ok [OF assms, of now i] show ?thesis
    by (auto simp: catch_exceptions_def)
qed

lemma run_safe:
  "inv w \<Longrightarrow> owns lent hs w \<Longrightarrow>
   \<exists>hs' w' out. handle_run api xs hs w = Inr (hs', w', out) \<and> inv w' \<and> owns lent hs' w'"
proof (induction xs arbitrary: hs w)
  case Nil
  then show ?case by simp
next
  case (Cons x xs)
  obtain hs' w' out where
    "catch_exceptions (handle_step api x hs w) (hs, w, []) = Inr (hs', w', out)"
    "inv w'" "owns lent hs' w'"
    using step_safe [OF Cons.prems] by blast
  with Cons.IH [of w' hs'] show ?case by fastforce
qed

end

end
