(* ===== verification/Sync_Pool_Impl.thy ===== *)
theory Sync_Pool_Impl
  imports Cell_Store Pool_Returns
begin

text \<open>
  \<open>sync/detail/pool_impl.hpp\<close>: the pool behind the synchronous interface.

  Every member function locks the mutex for its whole body, except that \<open>get\<close> releases it while it
  waits on the condition variable. The calls on the condition variable are outputs. What the other
  threads do during one wait is a function on the pool, given to \<open>get\<close> together with the status the
  wait returns and the clock reading that follows; \<open>Sync_Threads\<close> gives the same code as steps of
  interleaved threads.
\<close>

subsection \<open>State and construction\<close>

record 'v sync_pool =
  sp_storage :: "'v storage"
  sp_capacity :: nat
  sp_disabled :: bool

datatype cv_call = Notify_One | Notify_All | Wait_For duration

definition sync_assert_capacity :: "nat \<Rightarrow> nat result" where
  "sync_assert_capacity n = (if n = 0 then Inl (Throws Zero_Pool_Capacity) else Inr n)"

definition sync_pool_create :: "nat \<Rightarrow> duration \<Rightarrow> duration \<Rightarrow> 'v sync_pool result" where
  "sync_pool_create capacity timeout life =
     and_then (sync_assert_capacity capacity) (\<lambda>n.
       Inr \<lparr>sp_storage = storage_of_capacity n timeout life, sp_capacity = capacity,
            sp_disabled = False\<rparr>)"

definition sync_pool_generate ::
  "('g \<Rightarrow> 'v \<times> 'g) \<Rightarrow> 'g \<Rightarrow> nat \<Rightarrow> duration \<Rightarrow> duration \<Rightarrow> time_point \<Rightarrow> ('v sync_pool \<times> 'g) result"
where
  "sync_pool_generate gen g capacity timeout life now =
     and_then (sync_assert_capacity capacity) (\<lambda>n.
       case storage_of_generator gen g n timeout life now of
         (s, g') \<Rightarrow> Inr (\<lparr>sp_storage = s, sp_capacity = capacity, sp_disabled = False\<rparr>, g'))"

subsection \<open>Statistics\<close>

record sync_stats =
  ss_size :: nat
  ss_available :: nat
  ss_used :: nat

definition sync_size :: "'v sync_pool \<Rightarrow> nat" where
  "sync_size p =
     (let stats = storage_stats_of (sp_storage p) in stat_available stats + stat_used stats)"

definition sync_available :: "'v sync_pool \<Rightarrow> nat" where
  "sync_available p = stat_available (storage_stats_of (sp_storage p))"

definition sync_used :: "'v sync_pool \<Rightarrow> nat" where
  "sync_used p = stat_used (storage_stats_of (sp_storage p))"

definition sync_stats_of :: "'v sync_pool \<Rightarrow> sync_stats" where
  "sync_stats_of p =
     (let stats = storage_stats_of (sp_storage p)
      in \<lparr>ss_size = stat_available stats + stat_used stats, ss_available = stat_available stats,
          ss_used = stat_used stats\<rparr>)"

subsection \<open>Giving back, disabling, invalidating\<close>

definition sync_recycle ::
  "time_point \<Rightarrow> cell_iterator \<Rightarrow> 'v sync_pool \<Rightarrow> ('v sync_pool \<times> cv_call list) result" where
  "sync_recycle now it p =
     and_then (storage_recycle now it (sp_storage p)) (\<lambda>s. Inr (p\<lparr>sp_storage := s\<rparr>, [Notify_One]))"

definition sync_waste ::
  "cell_iterator \<Rightarrow> 'v sync_pool \<Rightarrow> ('v sync_pool \<times> cv_call list) result" where
  "sync_waste it p =
     and_then (storage_waste it (sp_storage p)) (\<lambda>s. Inr (p\<lparr>sp_storage := s\<rparr>, [Notify_One]))"

definition sync_disable :: "'v sync_pool \<Rightarrow> 'v sync_pool \<times> cv_call list" where
  "sync_disable p = (p\<lparr>sp_disabled := True\<rparr>, [Notify_All])"

definition sync_invalidate :: "'v sync_pool \<Rightarrow> 'v sync_pool" where
  "sync_invalidate p = p\<lparr>sp_storage := storage_invalidate (sp_storage p)\<rparr>"

subsection \<open>Getting a cell\<close>

datatype cv_status = No_Timeout | Timeout

text \<open>
  One turn of the loop of \<open>get\<close>, up to the wait: either the result, or \<open>None\<close> and the pool in which
  the thread starts to wait.
\<close>

definition sync_attempt ::
  "time_point \<Rightarrow> 'v sync_pool \<Rightarrow> 'v sync_pool \<times> (error_code \<times> cell_iterator) option" where
  "sync_attempt now p =
     (if sp_disabled p then (p, Some (make_error_code Disabled, Singular))
      else
        case lease now (sp_storage p) of
          (s, Some c) \<Rightarrow> (p\<lparr>sp_storage := s\<rparr>, Some (no_error, Cell c))
        | (s, None) \<Rightarrow> (p\<lparr>sp_storage := s\<rparr>, None))"

definition sync_wait_for :: "cv_status \<Rightarrow> bool" where
  "sync_wait_for status \<longleftrightarrow> status = No_Timeout"

record 'v wake =
  wake_status :: cv_status
  wake_others :: "'v sync_pool \<Rightarrow> 'v sync_pool"
  wake_clock :: time_point

text \<open>
  \<open>get\<close> over the wake-ups it is given, in order; \<open>None\<close> when it is still waiting after the last one.
\<close>

fun sync_get ::
  "duration \<Rightarrow> time_point \<Rightarrow> 'v wake list \<Rightarrow> 'v sync_pool \<Rightarrow>
   (error_code \<times> cell_iterator \<times> 'v sync_pool \<times> cv_call list) option"
where
  "sync_get wait_duration now wakes p =
     (case sync_attempt now p of
        (p', Some (ec, it)) \<Rightarrow> Some (ec, it, p', [])
      | (p', None) \<Rightarrow>
          (case wakes of
             [] \<Rightarrow> None
           | w # ws \<Rightarrow>
               let woken = wake_others w p' in
               if \<not> sync_wait_for (wake_status w) then
                 Some (make_error_code Get_Resource_Timeout, Singular, woken,
                       [Wait_For wait_duration])
               else
                 map_option (\<lambda>(ec, it, p'', calls). (ec, it, p'', Wait_For wait_duration # calls))
                   (sync_get wait_duration (wake_clock w) ws woken)))"

declare sync_get.simps [simp del]

lemmas sync_pool_defs =
  sync_assert_capacity_def sync_pool_create_def sync_pool_generate_def sync_size_def
  sync_available_def sync_used_def sync_stats_of_def sync_recycle_def sync_waste_def
  sync_disable_def sync_invalidate_def sync_attempt_def sync_wait_for_def

declare sync_pool_defs [exec] sync_get.simps [exec]

lemma sync_get_done:
  "sync_attempt now p = (p', Some (ec, it)) \<Longrightarrow> sync_get d now wakes p = Some (ec, it, p', [])"
  by (simp add: sync_get.simps)

lemma sync_get_waits:
  "sync_attempt now p = (p', None) \<Longrightarrow> sync_get d now [] p = None"
  "sync_attempt now p = (p', None) \<Longrightarrow> wake_status w = Timeout \<Longrightarrow>
   sync_get d now (w # ws) p =
     Some (make_error_code Get_Resource_Timeout, Singular, wake_others w p', [Wait_For d])"
  "sync_attempt now p = (p', None) \<Longrightarrow> wake_status w = No_Timeout \<Longrightarrow>
   sync_get d now (w # ws) p =
     map_option (\<lambda>(ec, it, p'', calls). (ec, it, p'', Wait_For d # calls))
       (sync_get d (wake_clock w) ws (wake_others w p'))"
  by (subst sync_get.simps; simp add: sync_wait_for_def Let_def)+

lemmas sync_get_turns = sync_get_done sync_get_waits

subsection \<open>The invariant\<close>

definition sync_inv :: "'v sync_pool \<Rightarrow> bool" where
  "sync_inv p \<longleftrightarrow> storage_inv (sp_capacity p) (sp_storage p)"

declare sync_inv_def [inv_simps]

definition sync_lent :: "'v sync_pool \<Rightarrow> nat set" where
  "sync_lent p = set (used_cells (sp_storage p))"

text \<open>The number of cells a \<open>get\<close> could take without waiting.\<close>

definition free_cells :: "'v storage \<Rightarrow> nat" where
  "free_cells s = length (available_cells s) + length (wasted_cells s)"

lemma sync_create_inv: "sync_pool_create n timeout life = Inr p \<Longrightarrow> sync_inv p"
  by (auto simp: sync_pool_create_def sync_assert_capacity_def sync_inv_def
      storage_of_capacity_inv split: if_splits)

lemma sync_generate_inv: "sync_pool_generate gen g n timeout life now = Inr (p, g') \<Longrightarrow> sync_inv p"
  using storage_of_generator_inv [of n gen g timeout life now]
  by (auto simp: sync_pool_generate_def sync_assert_capacity_def sync_inv_def
      split: if_splits prod.splits)

lemma sync_recycle_ok:
  assumes "sync_inv p" and "c \<in> sync_lent p"
  shows "\<exists>p'. sync_recycle now (Cell c) p = Inr (p', [Notify_One]) \<and> sync_inv p'
    \<and> sync_lent p' = sync_lent p - {c} \<and> sp_disabled p' = sp_disabled p
    \<and> sp_capacity p' = sp_capacity p"
  using cells.recycle_lent [of "sp_capacity p" "sp_storage p" c now] assms
  by (auto simp: sync_inv_def sync_lent_def sync_recycle_def)

lemma sync_waste_ok:
  assumes "sync_inv p" and "c \<in> sync_lent p"
  shows "\<exists>p'. sync_waste (Cell c) p = Inr (p', [Notify_One]) \<and> sync_inv p'
    \<and> sync_lent p' = sync_lent p - {c} \<and> sp_disabled p' = sp_disabled p
    \<and> sp_capacity p' = sp_capacity p"
  using cells.waste_lent [of "sp_capacity p" "sp_storage p" c] assms
  by (auto simp: sync_inv_def sync_lent_def sync_waste_def)

lemma sync_invalidate_ok:
  "sync_inv p \<Longrightarrow> sync_inv (sync_invalidate p) \<and> sync_lent (sync_invalidate p) = sync_lent p"
  using cells.invalidate_lent [of "sp_capacity p" "sp_storage p"]
  by (simp add: sync_inv_def sync_lent_def sync_invalidate_def)

lemma sync_disable_ok:
  "sync_inv (fst (sync_disable p)) = sync_inv p"
  "sync_lent (fst (sync_disable p)) = sync_lent p"
  by (simp_all add: sync_inv_def sync_lent_def sync_disable_def)

text \<open>The outcomes of one turn.\<close>

lemma sync_attempt_cases:
  assumes "sync_inv p"
  obtains
    (disabled) "sp_disabled p" "sync_attempt now p = (p, Some (make_error_code Disabled, Singular))"
  | (leased) s c where "\<not> sp_disabled p" "lease now (sp_storage p) = (s, Some c)"
      "sync_attempt now p = (p\<lparr>sp_storage := s\<rparr>, Some (no_error, Cell c))"
      "sync_inv (p\<lparr>sp_storage := s\<rparr>)" "c \<notin> sync_lent p"
      "sync_lent (p\<lparr>sp_storage := s\<rparr>) = insert c (sync_lent p)"
  | (waits) "\<not> sp_disabled p" "free_cells (sp_storage p) = 0" "sync_attempt now p = (p, None)"
proof (cases "sp_disabled p")
  case True
  then show thesis by (intro disabled) (simp_all add: sync_attempt_def)
next
  case False
  obtain s r where l: "lease now (sp_storage p) = (s, r)" by (cases "lease now (sp_storage p)")
  show thesis
  proof (cases r)
    case None
    with l have "s = sp_storage p" "free_cells (sp_storage p) = 0"
      using lease_None lease_None_iff [of now "sp_storage p"] by (auto simp: free_cells_def)
    with l None False show thesis
      by (intro waits) (simp_all add: sync_attempt_def)
  next
    case (Some c)
    with l False assms show thesis
      using cells.lease_some [of "sp_capacity p" "sp_storage p" now s c]
      by (intro leased [of s c]) (simp_all add: sync_attempt_def sync_inv_def sync_lent_def)
  qed
qed

subsection \<open>The pool as the provider of handles\<close>

text \<open>Pools live at addresses \<open>'r\<close>; a handle reaches its pool, and the cells in it, through one.\<close>

definition at_pool ::
  "'r \<Rightarrow> ('r \<Rightarrow> 'p) \<Rightarrow> ('p \<times> 'o list) result \<Rightarrow> (('r \<Rightarrow> 'p) \<times> ('r \<times> 'o) list) result" where
  "at_pool r w res = and_then res (\<lambda>(p, out). Inr (w(r := p), map (Pair r) out))"

definition sync_api :: "('r, 'r \<Rightarrow> 'v sync_pool, 'r \<times> cv_call, 'v) pool_api" where
  "sync_api =
     \<lparr>api_waste = (\<lambda>r it w. at_pool r w (sync_waste it (w r))),
      api_recycle = (\<lambda>now r it w. at_pool r w (sync_recycle now it (w r))),
      api_read = (\<lambda>r it w. read_cell it (sp_storage (w r))),
      api_write = (\<lambda>r it f w. and_then (update_cell it f (sp_storage (w r))) (\<lambda>s.
        Inr (w(r := (w r)\<lparr>sp_storage := s\<rparr>))))\<rparr>"

declare at_pool_def [exec] sync_api_def [exec]

definition world_lent :: "('p \<Rightarrow> nat set) \<Rightarrow> 'r \<Rightarrow> ('r \<Rightarrow> 'p) \<Rightarrow> nat set" where
  "world_lent lent r w = lent (w r)"

lemma loan_ended_upd:
  "lent p' = lent (w r) - {c} \<Longrightarrow> loan_ended (world_lent lent) r c w (w(r := p'))"
  by (auto simp: loan_ended_def world_lent_def)

interpretation sync_returns:
  pool_returns sync_api "world_lent sync_lent" "\<lambda>w. \<forall>r. sync_inv (w r)"
proof unfold_locales
  fix w :: "'r \<Rightarrow> 'v sync_pool" and r c now f
  assume inv: "\<forall>r. sync_inv (w r)" and c: "c \<in> world_lent sync_lent r w"
  then have here: "sync_inv (w r)" "c \<in> sync_lent (w r)"
    by (simp_all add: world_lent_def)
  show "\<exists>w' out. api_recycle sync_api now r (Cell c) w = Inr (w', out) \<and> (\<forall>r. sync_inv (w' r))
      \<and> loan_ended (world_lent sync_lent) r c w w'"
    using sync_recycle_ok [OF here, of now] inv loan_ended_upd [of sync_lent _ w r c]
    by (fastforce simp: sync_api_def at_pool_def)
  show "\<exists>w' out. api_waste sync_api r (Cell c) w = Inr (w', out) \<and> (\<forall>r. sync_inv (w' r))
      \<and> loan_ended (world_lent sync_lent) r c w w'"
    using sync_waste_ok [OF here] inv loan_ended_upd [of sync_lent _ w r c]
    by (fastforce simp: sync_api_def at_pool_def)
  show "\<exists>cell. api_read sync_api r (Cell c) w = Inr cell"
    using here used_cells_alive [of c "sp_storage (w r)"]
    by (simp add: sync_api_def read_cell_def sync_lent_def)
  show "\<exists>w'. api_write sync_api r (Cell c) f w = Inr w' \<and> (\<forall>r. sync_inv (w' r))
      \<and> (\<forall>r'. world_lent sync_lent r' w' = world_lent sync_lent r' w)"
  proof -
    obtain s where s: "update_cell (Cell c) f (sp_storage (w r)) = Inr s"
      using here used_cells_alive [of c "sp_storage (w r)"]
      by (simp add: update_cell_def sync_lent_def)
    then have "used_cells s = used_cells (sp_storage (w r))"
      by (auto simp: update_cell_Inr_iff)
    moreover have "storage_inv (sp_capacity (w r)) s"
      using update_cell_inv [OF _ _ s] here by (simp add: sync_inv_def sync_lent_def)
    ultimately show ?thesis
      using s inv by (simp add: sync_api_def world_lent_def sync_inv_def sync_lent_def)
  qed
qed

end
