(* ===== verification/Sync_Pool.thy ===== *)
theory Sync_Pool
  imports Sync_Pool_Impl
begin

text \<open>
  \<open>sync/pool.hpp\<close>: the public synchronous pool, and the handles it returns.

  A \<open>pool\<close> owns a shared pointer to a \<open>pool_impl\<close> (\<open>None\<close> once it has been moved from); its member
  functions forward to the implementation. \<open>get_handle\<close> wraps the result of \<open>get\<close> in a handle,
  whether or not an error came with it.
\<close>

subsection \<open>Operations\<close>

text \<open>The constructors allocate an implementation at a new address \<open>r\<close>.\<close>

definition pool_construct ::
  "'r \<Rightarrow> nat \<Rightarrow> duration \<Rightarrow> duration \<Rightarrow> ('r \<Rightarrow> 'v sync_pool) \<Rightarrow> ('r \<Rightarrow> 'v sync_pool) result" where
  "pool_construct r capacity timeout life w =
     and_then (sync_pool_create capacity timeout life) (\<lambda>p. Inr (w(r := p)))"

definition pool_capacity :: "'r \<Rightarrow> ('r \<Rightarrow> 'v sync_pool) \<Rightarrow> nat" where
  "pool_capacity r w = sp_capacity (w r)"

definition pool_size :: "'r \<Rightarrow> ('r \<Rightarrow> 'v sync_pool) \<Rightarrow> nat" where
  "pool_size r w = sync_size (w r)"

definition pool_available :: "'r \<Rightarrow> ('r \<Rightarrow> 'v sync_pool) \<Rightarrow> nat" where
  "pool_available r w = sync_available (w r)"

definition pool_used :: "'r \<Rightarrow> ('r \<Rightarrow> 'v sync_pool) \<Rightarrow> nat" where
  "pool_used r w = sync_used (w r)"

definition pool_stats :: "'r \<Rightarrow> ('r \<Rightarrow> 'v sync_pool) \<Rightarrow> sync_stats" where
  "pool_stats r w = sync_stats_of (w r)"

definition pool_invalidate :: "'r \<Rightarrow> ('r \<Rightarrow> 'v sync_pool) \<Rightarrow> ('r \<Rightarrow> 'v sync_pool)" where
  "pool_invalidate r w = w(r := sync_invalidate (w r))"

definition pool_destroy ::
  "'r option \<Rightarrow> ('r \<Rightarrow> 'v sync_pool) \<Rightarrow> ('r \<Rightarrow> 'v sync_pool) \<times> ('r \<times> cv_call) list" where
  "pool_destroy impl w =
     (case impl of
        None \<Rightarrow> (w, [])
      | Some r \<Rightarrow> (case sync_disable (w r) of (p, out) \<Rightarrow> (w(r := p), map (Pair r) out)))"

definition get_handle ::
  "'r \<Rightarrow> strategy \<Rightarrow> duration \<Rightarrow> time_point \<Rightarrow> 'v wake list \<Rightarrow> ('r \<Rightarrow> 'v sync_pool) \<Rightarrow>
   (error_code \<times> 'r handle \<times> ('r \<Rightarrow> 'v sync_pool)) option" where
  "get_handle r st wait_duration now wakes w =
     map_option (\<lambda>(ec, it, p, calls). (ec, handle_new r st it, w(r := p)))
       (sync_get wait_duration now wakes (w r))"

definition get_auto_waste ::
  "'r \<Rightarrow> duration \<Rightarrow> time_point \<Rightarrow> 'v wake list \<Rightarrow> ('r \<Rightarrow> 'v sync_pool) \<Rightarrow>
   (error_code \<times> 'r handle \<times> ('r \<Rightarrow> 'v sync_pool)) option" where
  "get_auto_waste r = get_handle r Strategy_Waste"

definition get_auto_recycle ::
  "'r \<Rightarrow> duration \<Rightarrow> time_point \<Rightarrow> 'v wake list \<Rightarrow> ('r \<Rightarrow> 'v sync_pool) \<Rightarrow>
   (error_code \<times> 'r handle \<times> ('r \<Rightarrow> 'v sync_pool)) option" where
  "get_auto_recycle r = get_handle r Strategy_Recycle"

lemmas pool_facade_defs =
  pool_construct_def pool_capacity_def pool_size_def pool_available_def pool_used_def pool_stats_def
  pool_invalidate_def

declare pool_facade_defs [exec] pool_destroy_def [exec] get_handle_def [exec] get_auto_waste_def [exec]
  get_auto_recycle_def [exec]

subsection \<open>Results of \<open>get\<close>\<close>

text \<open>What a wait may do to the pool: other threads keep its invariant.\<close>

definition wakes_keep_inv :: "'v wake list \<Rightarrow> bool" where
  "wakes_keep_inv wakes \<longleftrightarrow> (\<forall>w \<in> set wakes. \<forall>p. sync_inv p \<longrightarrow> sync_inv (wake_others w p))"

lemma sync_get_result:
  assumes "sync_inv p" and "wakes_keep_inv wakes"
    and "sync_get d now wakes p = Some (ec, it, p', calls)"
  shows "sync_inv p'
    \<and> (failed ec \<and> it = Singular
       \<or> ec = no_error \<and> (\<exists>c. it = Cell c \<and> c \<in> sync_lent p' \<and> \<not> sp_disabled p'))"
  using assms
proof (induction wakes arbitrary: now p calls)
  case Nil
  from Nil.prems(1) show ?case
  proof (cases rule: sync_attempt_cases [where now = now])
    case waits
    with Nil.prems(3) show ?thesis by (simp add: sync_get_turns)
  qed (use Nil.prems in \<open>auto simp: sync_get_turns\<close>)
next
  case (Cons w ws)
  from Cons.prems(1) show ?case
  proof (cases rule: sync_attempt_cases [where now = now])
    case waits
    have inv: "sync_inv (wake_others w p)" "wakes_keep_inv ws"
      using Cons.prems(1,2) by (auto simp: wakes_keep_inv_def)
    show ?thesis
    proof (cases "wake_status w")
      case Timeout
      with Cons.prems(3) waits(3) inv show ?thesis by (auto simp: sync_get_turns)
    next
      case No_Timeout
      with Cons.prems(3) waits(3) Cons.IH [OF inv] show ?thesis by (auto simp: sync_get_turns)
    qed
  qed (use Cons.prems in \<open>auto simp: sync_get_turns\<close>)
qed

text \<open>A turn either ends the call or, when nothing is free, starts a wait.\<close>

lemma sync_attempt_full:
  "\<not> sp_disabled p \<Longrightarrow> free_cells (sp_storage p) = 0 \<Longrightarrow> sync_attempt now p = (p, None)"
  by (auto simp: sync_attempt_def lease_def lease_available.simps free_cells_def)

lemma sync_attempt_free:
  assumes "sync_inv p" and "\<not> sp_disabled p" and "0 < free_cells (sp_storage p)"
  obtains p' c where "sync_attempt now p = (p', Some (no_error, Cell c))" "sync_inv p'"
    "c \<notin> sync_lent p" "sync_lent p' = insert c (sync_lent p)"
  using assms(1)
proof (cases rule: sync_attempt_cases [where now = now])
  case (leased s c)
  then show thesis using that by blast
qed (use assms in auto)

subsection \<open>A client of synchronous pools\<close>

text \<open>
  One thread that works on pools of its own: it gets handles into variables, uses them, invalidates
  pools and destroys them. Nobody else can give a cell back while it waits, so each wait of its calls
  ends by timeout. The run also yields the error codes of its calls of \<open>get\<close>, in order, and stops
  at undefined behaviour.
\<close>

datatype ('r, 'v) sync_client_op =
    Client_Get 'r nat strategy duration time_point
  | Client_Handle "'v handle_op"
  | Client_Invalidate 'r
  | Client_Destroy 'r

definition timed_out :: "time_point \<Rightarrow> 'v wake" where
  "timed_out now = \<lparr>wake_status = Timeout, wake_others = id, wake_clock = now\<rparr>"

text \<open>The variable is declared anew, so the handle it holds is destroyed first.\<close>

definition sync_client_get ::
  "'r \<Rightarrow> nat \<Rightarrow> strategy \<Rightarrow> duration \<Rightarrow> time_point \<Rightarrow> 'r handles \<times> ('r \<Rightarrow> 'v sync_pool) \<Rightarrow>
   error_code list \<times> ('r handles \<times> ('r \<Rightarrow> 'v sync_pool)) result"
where
  "sync_client_get r i st d now = (\<lambda>(hs, w).
     case handle_destroy sync_api now (hs i) w of
       Inl f \<Rightarrow> ([], Inl f)
     | Inr (w', out) \<Rightarrow>
         (case get_handle r st d now [timed_out now] w' of
            None \<Rightarrow> ([], Inl Undefined_Behaviour)
          | Some (ec, h, w'') \<Rightarrow> ([ec], Inr (hs(i := h), w''))))"

fun sync_client_step ::
  "('r, 'v) sync_client_op \<Rightarrow> 'r handles \<times> ('r \<Rightarrow> 'v sync_pool) \<Rightarrow>
   error_code list \<times> ('r handles \<times> ('r \<Rightarrow> 'v sync_pool)) result"
where
  "sync_client_step (Client_Get r i st d now) \<sigma> = sync_client_get r i st d now \<sigma>"
| "sync_client_step (Client_Handle x) (hs, w) =
     ([], and_then (catch_exceptions (handle_step sync_api x hs w) (hs, w, []))
            (\<lambda>(hs', w', out). Inr (hs', w')))"
| "sync_client_step (Client_Invalidate r) (hs, w) = ([], Inr (hs, pool_invalidate r w))"
| "sync_client_step (Client_Destroy r) (hs, w) = ([], Inr (hs, fst (pool_destroy (Some r) w)))"

fun sync_client_run ::
  "('r, 'v) sync_client_op list \<Rightarrow> 'r handles \<times> ('r \<Rightarrow> 'v sync_pool) \<Rightarrow>
   error_code list \<times> ('r handles \<times> ('r \<Rightarrow> 'v sync_pool)) result"
where
  "sync_client_run [] \<sigma> = ([], Inr \<sigma>)"
| "sync_client_run (x # xs) \<sigma> =
     (case sync_client_step x \<sigma> of
        (ecs, Inl f) \<Rightarrow> (ecs, Inl f)
      | (ecs, Inr \<tau>) \<Rightarrow> (case sync_client_run xs \<tau> of (ecs', res) \<Rightarrow> (ecs @ ecs', res)))"

declare timed_out_def [exec] sync_client_get_def [exec] catch_exceptions_def [exec]

definition sync_client_ok :: "'r handles \<times> ('r \<Rightarrow> 'v sync_pool) \<Rightarrow> bool" where
  "sync_client_ok = (\<lambda>(hs, w). (\<forall>r. sync_inv (w r)) \<and> owns (world_lent sync_lent) hs w)"

declare sync_client_ok_def [inv_simps]

lemma world_lent_upd:
  "world_lent lent r' (w(r := p)) = (if r' = r then lent p else world_lent lent r' w)"
  by (simp add: world_lent_def)

lemma timed_out_result:
  assumes "sync_inv p"
  obtains ec where "sync_get d now [timed_out now] p = Some (ec, Singular, p, if ec = make_error_code Disabled then [] else [Wait_For d])"
      "failed ec"
  | c p' where "sync_get d now [timed_out now] p = Some (no_error, Cell c, p', [])" "sync_inv p'"
      "c \<notin> sync_lent p" "sync_lent p' = insert c (sync_lent p)"
  using assms
proof (cases rule: sync_attempt_cases [where now = now])
  case disabled
  then show thesis
    by (intro that(1) [of "make_error_code Disabled"]) (simp_all add: sync_get_turns)
next
  case (leased s c)
  then show thesis
    by (intro that(2) [of c]) (simp_all add: sync_get_turns)
next
  case waits
  then show thesis
    by (intro that(1) [of "make_error_code Get_Resource_Timeout"])
      (simp_all add: sync_get_turns timed_out_def)
qed

lemma sync_client_get_ok:
  assumes "sync_client_ok (hs, w)" and "sync_client_get r i st d now (hs, w) = (ecs, res)"
    and "\<forall>ec \<in> set ecs. \<not> failed ec"
  shows "\<exists>\<tau>. res = Inr \<tau> \<and> sync_client_ok \<tau>"
proof -
  have inv: "\<forall>r. sync_inv (w r)" "owns (world_lent sync_lent) hs w"
    using assms(1) by (simp_all add: sync_client_ok_def)
  obtain w' out where d: "handle_destroy sync_api now (hs i) w = Inr (w', out)"
    "\<forall>r. sync_inv (w' r)" "owns (world_lent sync_lent) (hs(i := handle_default)) w'"
    using sync_returns.destroy_ok [OF inv, of now i] by blast
  from d(2) have "sync_inv (w' r)" by blast
  then show ?thesis
  proof (cases rule: timed_out_result [where d = d and now = now])
    case (1 ec)
    with assms(2,3) d(1) show ?thesis
      by (auto simp: sync_client_get_def get_handle_def)
  next
    case (2 c p')
    have "owns (world_lent sync_lent) ((hs(i := handle_default))(i := handle_new r st (Cell c)))
        (w'(r := p'))"
      using 2(3,4) by (intro owns_new [OF d(3)]) (auto simp: world_lent_upd world_lent_def)
    with assms(2) d(1,2) 2 show ?thesis
      by (auto simp: sync_client_get_def get_handle_def sync_client_ok_def)
  qed
qed

lemma sync_client_step_ok:
  assumes ok: "sync_client_ok \<sigma>" and step: "sync_client_step x \<sigma> = (ecs, res)"
    and "\<forall>ec \<in> set ecs. \<not> failed ec"
  shows "\<exists>\<tau>. res = Inr \<tau> \<and> sync_client_ok \<tau>"
proof -
  obtain hs w where \<sigma>: "\<sigma> = (hs, w)" by (cases \<sigma>)
  have inv: "\<forall>r. sync_inv (w r)" "owns (world_lent sync_lent) hs w"
    using ok by (simp_all add: sync_client_ok_def \<sigma>)
  show ?thesis
  proof (cases x)
    case (Client_Get r i st d now)
    with assms sync_client_get_ok show ?thesis by (simp add: \<sigma>)
  next
    case (Client_Handle y)
    with step sync_returns.step_safe [OF inv, of y] show ?thesis
      by (auto simp: \<sigma> sync_client_ok_def)
  next
    case (Client_Invalidate r)
    have "owns (world_lent sync_lent) hs (pool_invalidate r w)"
      using sync_invalidate_ok [of "w r"] inv(1)
      by (intro owns_same_lent [OF inv(2)]) (simp add: world_lent_def pool_invalidate_def)
    with Client_Invalidate step inv sync_invalidate_ok [of "w r"] show ?thesis
      by (auto simp: \<sigma> sync_client_ok_def pool_invalidate_def)
  next
    case (Client_Destroy r)
    have "owns (world_lent sync_lent) hs (w(r := fst (sync_disable (w r))))"
      by (intro owns_same_lent [OF inv(2)]) (simp add: world_lent_def sync_disable_ok)
    with Client_Destroy step inv show ?thesis
      by (auto simp: \<sigma> sync_client_ok_def pool_destroy_def sync_disable_ok split: prod.splits)
        (metis sync_disable_ok(1) fst_conv)+
  qed
qed

lemma sync_client_run_ok:
  "sync_client_ok \<sigma> \<Longrightarrow> \<forall>ec \<in> set (fst (sync_client_run xs \<sigma>)). \<not> failed ec \<Longrightarrow>
   \<exists>\<tau>. snd (sync_client_run xs \<sigma>) = Inr \<tau> \<and> sync_client_ok \<tau>"
proof (induction xs arbitrary: \<sigma>)
  case Nil
  then show ?case by simp
next
  case (Cons x xs)
  obtain ecs res where step: "sync_client_step x \<sigma> = (ecs, res)"
    by (cases "sync_client_step x \<sigma>")
  have "\<forall>ec \<in> set ecs. \<not> failed ec"
    using Cons.prems(2) step by (auto split: sum.splits prod.splits)
  then obtain \<tau> where "res = Inr \<tau>" "sync_client_ok \<tau>"
    using sync_client_step_ok [OF Cons.prems(1) step] by blast
  with step Cons.IH [of \<tau>] Cons.prems(2) show ?case
    by (auto split: prod.splits)
qed

subsection \<open>What callers can rely on\<close>

lemma sync_create_lent: "sync_pool_create n timeout life = Inr p \<Longrightarrow> sync_lent p = {}"
  by (auto simp: sync_pool_create_def sync_assert_capacity_def sync_lent_def storage_of_capacity_def
      split: if_splits)

text \<open>
  C8. A client of synchronous pools whose calls of \<open>get\<close> all succeed has no undefined behaviour and
  leaks nothing, whatever it does with its handles (using, resetting, recycling, wasting, moving and
  destroying them in any order, with exceptions caught) and with its pools (invalidating and destroying
  them): in the end every usable handle owns a cell, no two own the same one, and the cells a pool
  counts as used are exactly those that a handle owns.
\<close>

theorem sync_clients_safe:
  assumes "\<forall>r. \<exists>n timeout life. sync_pool_create n timeout life = Inr (w r)"
    and "\<forall>ec \<in> set (fst (sync_client_run xs (\<lambda>_. handle_default, w))). \<not> failed ec"
  shows "\<exists>hs' w'. snd (sync_client_run xs (\<lambda>_. handle_default, w)) = Inr (hs', w')
    \<and> (\<forall>i. \<not> unusable (hs' i) \<longrightarrow>
         (\<exists>r c. pool_impl (hs' i) = Some r \<and> resource_it (hs' i) = Some (Cell c)))
    \<and> (\<forall>i j. i \<noteq> j \<and> \<not> unusable (hs' i) \<and> pool_impl (hs' i) = pool_impl (hs' j) \<longrightarrow>
         resource_it (hs' i) \<noteq> resource_it (hs' j))
    \<and> (\<forall>r. set (used_cells (sp_storage (w' r))) = held hs' r)"
proof -
  have "sync_inv (w r)" "sync_lent (w r) = {}" for r
    using assms(1) sync_create_inv sync_create_lent by metis+
  then have "sync_client_ok (\<lambda>_. handle_default, w)"
    by (simp add: sync_client_ok_def owns_nothing world_lent_def)
  then obtain hs' w' where run: "snd (sync_client_run xs (\<lambda>_. handle_default, w)) = Inr (hs', w')"
    and own: "owns (world_lent sync_lent) hs' w'"
    using sync_client_run_ok [OF _ assms(2)] by (auto simp: sync_client_ok_def)
  show ?thesis
    using run owns_usable [OF own] owns_apart [OF own] owns_held [OF own]
    by (intro exI [of _ hs'] exI [of _ w'] conjI) (blast, metis, blast, simp add: world_lent_def sync_lent_def)
qed

text \<open>Two pools of two cells each, and a program that runs through most operations of a handle.\<close>

definition demo_pool :: "nat \<Rightarrow> nat sync_pool" where
  "demo_pool n = \<lparr>sp_storage = storage_of_capacity n duration_max duration_max, sp_capacity = n,
     sp_disabled = False\<rparr>"

definition demo_program :: "(bool, nat) sync_client_op list" where
  "demo_program =
     (let t = Time_Point 5 in
      [Client_Get True 0 Strategy_Recycle zero_duration t, Client_Handle (H_Reset 42 t 0),
       Client_Handle (H_Get 0), Client_Handle (H_Declare t 1 0), Client_Handle (H_Get 0),
       Client_Get True 0 Strategy_Waste zero_duration t, Client_Invalidate True,
       Client_Handle (H_Recycle t 1), Client_Handle (H_Recycle t 1),
       Client_Handle (H_Move_Assign t 1 0), Client_Get False 0 Strategy_Waste zero_duration t,
       Client_Destroy False, Client_Handle (H_Destroy t 0)])"

declare demo_pool_def [exec] demo_program_def [exec]

lemma demo_pool_create: "0 < n \<Longrightarrow> sync_pool_create n duration_max duration_max = Inr (demo_pool n)"
  by (simp add: sync_pool_create_def sync_assert_capacity_def demo_pool_def)

lemma demo_program_codes:
  "fst (sync_client_run demo_program (\<lambda>_. handle_default, \<lambda>_. demo_pool 2))
     = [no_error, no_error, no_error]"
  by code_simp

theorem sync_clients_safe_witness:
  "\<exists>hs' w'. snd (sync_client_run demo_program (\<lambda>_. handle_default, \<lambda>_. demo_pool 2)) = Inr (hs', w')
    \<and> \<not> unusable (hs' 1) \<and> (\<forall>r. set (used_cells (sp_storage (w' r))) = held hs' r)"
proof -
  have a: "\<forall>r::bool. \<exists>n timeout life. sync_pool_create n timeout life = Inr (demo_pool 2)"
    using demo_pool_create [of 2] by auto
  have b: "\<forall>ec \<in> set (fst (sync_client_run demo_program (\<lambda>_. handle_default, \<lambda>_. demo_pool 2))).
      \<not> failed ec"
    by (simp add: demo_program_codes)
  have c: "(case snd (sync_client_run demo_program (\<lambda>_. handle_default, \<lambda>_. demo_pool 2)) of
      Inr (hs', w') \<Rightarrow> \<not> unusable (hs' 1) | _ \<Rightarrow> False)"
    by code_simp
  show ?thesis
    using sync_clients_safe [OF a b] c by fastforce
qed

text \<open>
  C35. The handle that comes with an error is usable, and giving it back has undefined behaviour: after
  a failed \<open>get_auto_waste\<close> or \<open>get_auto_recycle\<close> the handle holds a singular iterator, so its
  destructor, and each of \<open>recycle\<close>, \<open>waste\<close> and \<open>reset\<close>, dereferences it.
\<close>

theorem sync_error_handle_is_fatal:
  assumes "sync_inv (w r)" and "wakes_keep_inv wakes"
    and "get_handle r st d now wakes w = Some (ec, h, w')" and "failed ec"
  shows "\<not> unusable h
    \<and> handle_destroy sync_api t h w'' = Inl Undefined_Behaviour
    \<and> handle_recycle sync_api t h w'' = Inl Undefined_Behaviour
    \<and> handle_waste sync_api h w'' = Inl Undefined_Behaviour
    \<and> handle_reset sync_api v t h w'' = Inl Undefined_Behaviour"
proof -
  obtain it p calls where get: "sync_get d now wakes (w r) = Some (ec, it, p, calls)"
    and h: "h = handle_new r st it"
    using assms(3) by (auto simp: get_handle_def)
  have "it = Singular"
    using sync_get_result [OF assms(1,2) get] assms(4) by auto
  then show ?thesis
    by (cases st)
      (auto simp: h sync_api_def at_pool_def handle_destroy_def handle_release_def call_strategy_def
        handle_waste_def handle_recycle_def handle_reset_def assert_not_unusable_def sync_waste_def
        sync_recycle_def storage_waste_def storage_recycle_def update_cell_def)
qed

theorem sync_error_handle_is_fatal_witness:
  "\<exists>ec h w'. get_handle () Strategy_Recycle zero_duration epoch [timed_out epoch]
       (\<lambda>_. (demo_pool 1)\<lparr>sp_disabled := True\<rparr>) = Some (ec, h, w')
     \<and> ec = make_error_code Disabled
     \<and> handle_destroy sync_api epoch h w' = Inl Undefined_Behaviour"
proof -
  let ?w = "\<lambda>_::unit. (demo_pool 1)\<lparr>sp_disabled := True\<rparr>"
  have get: "get_handle () Strategy_Recycle zero_duration epoch [timed_out epoch] ?w
      = Some (make_error_code Disabled, handle_new () Strategy_Recycle Singular, ?w)"
    by (simp add: get_handle_def sync_get_turns sync_attempt_def fun_eq_iff)
  have inv: "sync_inv (?w ())" and wakes: "wakes_keep_inv [timed_out epoch]"
    by (simp_all add: sync_inv_def demo_pool_def storage_of_capacity_inv wakes_keep_inv_def
        timed_out_def)
  show ?thesis
    using get sync_error_handle_is_fatal [OF inv wakes get, where w'' = ?w and t = epoch and v = 0]
    by simp
qed

text \<open>
  C30. \<open>get\<close> looks before it waits. On a disabled pool it is refused at once; with a free cell it
  returns a cell nobody held without waiting; with none it waits, and if the wait times out while
  other threads do anything that keeps the pool intact, it returns the timeout code. The disabled
  flag wins over a free cell.
\<close>

theorem sync_get_branches:
  assumes "sync_inv p"
  shows "(sp_disabled p \<longrightarrow>
        sync_get d now wakes p = Some (make_error_code Disabled, Singular, p, []))
    \<and> (\<not> sp_disabled p \<and> 0 < free_cells (sp_storage p) \<longrightarrow>
        (\<exists>c p'. sync_get d now wakes p = Some (no_error, Cell c, p', [])
           \<and> c \<notin> sync_lent p \<and> sync_lent p' = insert c (sync_lent p)))
    \<and> (\<not> sp_disabled p \<and> free_cells (sp_storage p) = 0 \<longrightarrow>
        sync_get d now [] p = None
        \<and> (wake_status wake = Timeout \<longrightarrow>
             sync_get d now (wake # wakes) p =
               Some (make_error_code Get_Resource_Timeout, Singular, wake_others wake p,
                     [Wait_For d])))"
proof (intro conjI impI)
  show "sync_get d now wakes p = Some (make_error_code Disabled, Singular, p, [])"
    if "sp_disabled p"
    using that by (intro sync_get_done) (simp add: sync_attempt_def)
  show "\<exists>c p'. sync_get d now wakes p = Some (no_error, Cell c, p', [])
      \<and> c \<notin> sync_lent p \<and> sync_lent p' = insert c (sync_lent p)"
    if "\<not> sp_disabled p \<and> 0 < free_cells (sp_storage p)"
    using sync_attempt_free [OF assms, of now] that sync_get_done [of now p] by metis
qed (simp_all add: sync_get_turns sync_attempt_full)

theorem sync_get_branches_witness:
  "\<exists>c p'. sync_get zero_duration epoch [] (demo_pool 2) = Some (no_error, Cell c, p', [])"
proof -
  have "sync_inv (demo_pool 2)" and "0 < free_cells (sp_storage (demo_pool 2))"
    and "\<not> sp_disabled (demo_pool 2)"
    by (simp_all add: sync_inv_def demo_pool_def storage_of_capacity_inv free_cells_def)
  then show ?thesis
    using sync_get_branches [of "demo_pool 2" zero_duration epoch "[]" undefined] by blast
qed

text \<open>A wake-up that changed nothing.\<close>

definition woken_in_vain :: "time_point \<Rightarrow> 'v wake" where
  "woken_in_vain now = \<lparr>wake_status = No_Timeout, wake_others = id, wake_clock = now\<rparr>"

text \<open>
  C39. The wait duration bounds each wait, not the call: every wake-up that finds no free cell is
  followed by a wait of the full duration, so a call that is woken \<open>n\<close> times in vain waits
  \<open>n + 1\<close> times before it reports the timeout.
\<close>

theorem sync_get_waits_again_in_full:
  assumes "\<not> sp_disabled p" and "free_cells (sp_storage p) = 0"
  shows "sync_get d now (map woken_in_vain ts @ [timed_out t]) p
    = Some (make_error_code Get_Resource_Timeout, Singular, p,
            replicate (Suc (length ts)) (Wait_For d))"
  using assms
proof (induction ts arbitrary: now)
  case Nil
  then show ?case by (simp add: sync_get_turns sync_attempt_full timed_out_def)
next
  case (Cons u us)
  then show ?case
    by (simp add: sync_get_waits(3) sync_attempt_full woken_in_vain_def [of u])
qed

text \<open>A pool of one cell, and the same pool once that cell is lent.\<close>

definition demo_lent :: "nat sync_pool" where
  "demo_lent = fst (sync_attempt epoch (demo_pool 1))"

lemma demo_lent_full:
  "\<not> sp_disabled demo_lent" "free_cells (sp_storage demo_lent) = 0"
  "used_cells (sp_storage demo_lent) = [0]"
  by code_simp+

lemma demo_attempt: "sync_attempt epoch (demo_pool 1) = (demo_lent, Some (no_error, Cell 0))"
  unfolding demo_lent_def prod_eq_iff by (intro conjI, simp, code_simp)

theorem sync_get_waits_again_in_full_witness:
  "sync_get (Duration 7) epoch (map woken_in_vain [Time_Point 6, Time_Point 12] @ [timed_out (Time_Point 19)])
     demo_lent
   = Some (make_error_code Get_Resource_Timeout, Singular, demo_lent,
       [Wait_For (Duration 7), Wait_For (Duration 7), Wait_For (Duration 7)])"
proof -
  note full = demo_lent_full(1,2)
  from sync_get_waits_again_in_full [OF full, of "Duration 7" epoch "[Time_Point 6, Time_Point 12]" "Time_Point 19"]
  show ?thesis by simp
qed

end
