(* ===== verification/Value_Roundtrip.thy ===== *)
theory Value_Roundtrip
  imports Sync_Pool
begin

text \<open>
  A value put into a cell, given back and got again: what a caller of the synchronous pool sees of
  the timeouts.
\<close>

lemma recycle_then_lease:
  assumes inv: "storage_inv n s" and c: "c \<in> set (used_cells s)" and none: "available_cells s = []"
    and v: "idle_value (cells s c) = Some v"
    and t: "t1 \<le> t2"
  obtains s2 s3 d where "storage_recycle t1 (Cell c) s = Inr s2" "storage_inv n s2"
    "lease t2 s2 = (s3, Some d)" "d \<in> set (used_cells s3)"
    "idle_value (cells s3 d)
       = (if \<not> waste_on_recycle (cells s c) \<and> t2 < min (add t1 (idle_timeout s)) (life_end s c)
          then Some v else None)"
proof -
  let ?drop = "min (add t1 (idle_timeout s)) (life_end s c)"
  obtain s2 where s2: "storage_recycle t1 (Cell c) s = Inr s2" "storage_inv n s2"
    using cells.recycle_lent [OF inv, of c t1] c by blast
  obtain s3 d where l: "lease t2 s2 = (s3, Some d)"
    using cells.return_then_lease [OF inv, of c t1 s2 t2] c s2(1) by blast
  note gave = lease_Some(2) [OF s2(2) l, unfolded leased_from_def]
  have used: "d \<in> set (used_cells s3)"
    using gave by simp
  let ?mark = "waste_on_recycle (cells s c)"
  have "idle_value (cells s3 d) = (if \<not> ?mark \<and> t2 < ?drop then Some v else None)"
  proof (cases "?mark \<or> life_end s c \<le> t1")
    case True
    then have "available_cells s2 = []"
      using s2(1) c none by (auto simp: storage_recycle_def storage_waste_def split: if_splits)
    moreover have "\<not> (\<not> ?mark \<and> t2 < ?drop)"
      using True t by auto
    ultimately show ?thesis
      using gave by auto
  next
    case False
    have s2': "available_cells s2 = [c]" "drop_time (cells s2 c) = ?drop"
      "idle_value (cells s2 c) = Some v"
      using s2(1) c none v False by (auto simp: storage_recycle_def)
    show ?thesis
    proof (cases "t2 < ?drop")
      case True
      then show ?thesis
        using False l s2' by (auto simp: lease_def lease_available.simps)
    next
      case stale: False
      then show ?thesis
        using gave s2' by auto
    qed
  qed
  with s2 l used show thesis by (rule that)
qed

text \<open>
  C25. What is put into a cell comes back while it is fresh. If a holder resets its handle to a value
  at \<open>t0\<close> and recycles it at \<open>t1\<close>, and the pool is enabled and no other cell of it is available, then the
  next call of \<open>get\<close>, at \<open>t2\<close>, does not wait, and yields a handle with this value exactly if the cell was
  not marked by \<open>invalidate\<close> while it was lent and \<open>t2\<close> lies before the end of the idle timeout after \<open>t1\<close>
  and before the end of the lifespan after \<open>t0\<close>; otherwise it yields an empty handle.
\<close>

theorem recycled_value_comes_back:
  assumes "sync_inv (w r)" and "c \<in> set (used_cells s)" and "available_cells s = []"
    and "\<not> sp_disabled (w r)" and "t1 \<le> t2"
    and s: "s = sp_storage (w r)"
  shows "\<exists>w1 h' w2 out h'' w3.
    handle_reset sync_api v t0 (handle_new r st (Cell c)) w = Inr w1
    \<and> handle_recycle sync_api t1 (handle_new r st (Cell c)) w1 = Inr (h', w2, out)
    \<and> get_auto_recycle r d t2 wakes w2 = Some (no_error, h'', w3)
    \<and> handle_get sync_api h'' w3
        = (if \<not> waste_on_recycle (cells s c) \<and> t2 < min (add t1 (idle_timeout s)) (add t0 (lifespan s))
           then Inr v else Inl (Throws Empty_Handle))"
proof -
  let ?s1 = "s\<lparr>cells := (cells s)(c := fill_cell v t0 (cells s c))\<rparr>"
  let ?h = "handle_new r st (Cell c)"
  have fill: "update_cell (Cell c) (fill_cell v t0) s = Inr ?s1"
    using assms(2) by (simp add: update_cell_def all_cells_def)
  have inv: "storage_inv (sp_capacity (w r)) ?s1"
    using update_cell_inv [OF _ assms(2) fill] assms(1) by (simp add: sync_inv_def s)
  obtain s2 s3 e where s2: "storage_recycle t1 (Cell c) ?s1 = Inr s2"
    and l: "lease t2 s2 = (s3, Some e)" and e: "e \<in> set (used_cells s3)"
    and val: "idle_value (cells s3 e)
      = (if \<not> waste_on_recycle (cells ?s1 c) \<and> t2 < min (add t1 (idle_timeout ?s1)) (life_end ?s1 c)
         then Some v else None)"
    by (rule recycle_then_lease [OF inv, of c v t1 t2]) (use assms(2,3,5) in auto)
  let ?w1 = "w(r := (w r)\<lparr>sp_storage := ?s1\<rparr>)"
  let ?w2 = "?w1(r := (?w1 r)\<lparr>sp_storage := s2\<rparr>)"
  let ?w3 = "?w2(r := (?w2 r)\<lparr>sp_storage := s3\<rparr>)"
  have 1: "handle_reset sync_api v t0 ?h w = Inr ?w1"
    using fill by (simp add: handle_reset_def assert_not_unusable_def sync_api_def s)
  have 2: "handle_recycle sync_api t1 ?h ?w1
      = Inr (?h\<lparr>resource_it := None\<rparr>, ?w2, [(r, Notify_One)])"
    using s2 by (simp add: handle_recycle_def assert_not_unusable_def sync_api_def at_pool_def
        sync_recycle_def)
  have "sync_attempt t2 (?w2 r) = (?w3 r, Some (no_error, Cell e))"
    using assms(4) l by (simp add: sync_attempt_def)
  from sync_get_done [OF this] have 3: "get_auto_recycle r d t2 wakes ?w2
      = Some (no_error, handle_new r Strategy_Recycle (Cell e), ?w3)"
    by (simp add: get_auto_recycle_def get_handle_def)
  have "handle_get sync_api (handle_new r Strategy_Recycle (Cell e)) ?w3
      = (if \<not> waste_on_recycle (cells s c) \<and> t2 < min (add t1 (idle_timeout s)) (add t0 (lifespan s))
         then Inr v else Inl (Throws Empty_Handle))"
    using e val
    by (simp add: handle_get_def assert_not_empty_def handle_empty_def handle_cell_def sync_api_def
        read_cell_def all_cells_def life_end_def)
  with 1 2 3 show ?thesis by blast
qed

text \<open>A pool of one cell with timeouts of 10 and 100, its cell lent.\<close>

definition demo_timeouts :: "unit \<Rightarrow> nat sync_pool" where
  "demo_timeouts = (\<lambda>_. fst (sync_attempt epoch
     \<lparr>sp_storage = storage_of_capacity 1 (Duration 10) (Duration 100), sp_capacity = 1,
      sp_disabled = False\<rparr>))"

theorem recycled_value_comes_back_witness:
  "\<exists>w1 h' w2 out h'' w3.
    handle_reset sync_api 42 (Time_Point 5) (handle_new () Strategy_Waste (Cell 0)) demo_timeouts = Inr w1
    \<and> handle_recycle sync_api (Time_Point 6) (handle_new () Strategy_Waste (Cell 0)) w1 = Inr (h', w2, out)
    \<and> get_auto_recycle () zero_duration (Time_Point 15) [] w2 = Some (no_error, h'', w3)
    \<and> handle_get sync_api h'' w3 = Inr 42"
proof -
  let ?s = "sp_storage (demo_timeouts ())"
  have "sync_inv (demo_timeouts ())"
  proof -
    have p: "sync_inv \<lparr>sp_storage = storage_of_capacity 1 (Duration 10) (Duration 100) :: nat storage,
        sp_capacity = 1, sp_disabled = False\<rparr>"
      by (simp add: sync_inv_def storage_of_capacity_inv)
    then show ?thesis
      by (cases rule: sync_attempt_cases [where now = epoch]) (use p in \<open>auto simp: demo_timeouts_def\<close>)
  qed
  moreover have "used_cells ?s = [0]" "available_cells ?s = []" "\<not> waste_on_recycle (cells ?s 0)"
    "\<not> sp_disabled (demo_timeouts ())" "Time_Point 6 \<le> Time_Point 15"
    "Time_Point 15 < min (add (Time_Point 6) (idle_timeout ?s)) (add (Time_Point 5) (lifespan ?s))"
    unfolding demo_timeouts_def by code_simp+
  ultimately show ?thesis
    using recycled_value_comes_back [of demo_timeouts "()" 0 ?s "Time_Point 6" "Time_Point 15" 42
        "Time_Point 5" Strategy_Waste zero_duration "[]"]
    by simp
qed

end
