(* ===== verification/Sync_Threads.thy ===== *)
theory Sync_Threads
  imports Sync_Pool
begin

text \<open>
  Any number of threads using one synchronous pool.

  The mutex makes each locked region one step. A thread in \<open>get\<close> runs one turn of its loop per step
  and sleeps in between: \<open>Waiting\<close> on the condition variable, \<open>Woken\<close> once it was notified or woke
  up spuriously and waits for the mutex, \<open>Timed_Out\<close> once its wait ended by timeout. \<open>wait_for\<close> reads the
  clock after the thread has the mutex again: it reports a timeout when the deadline has passed by then,
  even if the thread was notified before, so a thread that was woken can still time out. When a deadline
  passes is left open: any wait may end by timeout at any moment. A thread that
  got a cell holds it until it gives it back. \<open>notify_one\<close> wakes one waiting thread, if any, and the
  relation leaves open which one; \<open>notify_all\<close> wakes all of them.
\<close>

subsection \<open>Steps\<close>

datatype sync_pc =
    Outside
  | Waiting duration
  | Woken duration
  | Timed_Out
  | Holding nat
  | Refused error_code

record 'v sync_system =
  pool :: "'v sync_pool"
  pcs :: "nat \<Rightarrow> sync_pc"
  clock :: time_point

definition waiters :: "(nat \<Rightarrow> sync_pc) \<Rightarrow> nat set" where
  "waiters pc = {t. \<exists>d. pc t = Waiting d}"

definition wake_pc :: "sync_pc \<Rightarrow> sync_pc" where
  "wake_pc pc = (case pc of Waiting d \<Rightarrow> Woken d | _ \<Rightarrow> pc)"

text \<open>The effect of a call on the condition variable on the sleeping threads.\<close>

inductive notifies :: "cv_call \<Rightarrow> (nat \<Rightarrow> sync_pc) \<Rightarrow> (nat \<Rightarrow> sync_pc) \<Rightarrow> bool" where
  one: "t \<in> waiters pc \<Longrightarrow> notifies Notify_One pc (pc(t := wake_pc (pc t)))"
| one_none: "waiters pc = {} \<Longrightarrow> notifies Notify_One pc pc"
| all: "notifies Notify_All pc (\<lambda>t. wake_pc (pc t))"

text \<open>Where a thread goes after one turn of the loop.\<close>

definition after_attempt :: "duration \<Rightarrow> (error_code \<times> cell_iterator) option \<Rightarrow> sync_pc" where
  "after_attempt d r =
     (case r of
        None \<Rightarrow> Waiting d
      | Some (ec, Cell c) \<Rightarrow> Holding c
      | Some (ec, Singular) \<Rightarrow> Refused ec)"

inductive sync_step :: "'v sync_system \<Rightarrow> 'v sync_system \<Rightarrow> bool" where
  get: "pcs \<sigma> t = Outside \<Longrightarrow> sync_attempt (clock \<sigma>) (pool \<sigma>) = (p, r) \<Longrightarrow>
     sync_step \<sigma> (\<sigma>\<lparr>pool := p, pcs := (pcs \<sigma>)(t := after_attempt d r)\<rparr>)"
| retry: "pcs \<sigma> t = Woken d \<Longrightarrow> sync_attempt (clock \<sigma>) (pool \<sigma>) = (p, r) \<Longrightarrow>
     sync_step \<sigma> (\<sigma>\<lparr>pool := p, pcs := (pcs \<sigma>)(t := after_attempt d r)\<rparr>)"
| spurious: "pcs \<sigma> t = Waiting d \<Longrightarrow> sync_step \<sigma> (\<sigma>\<lparr>pcs := (pcs \<sigma>)(t := Woken d)\<rparr>)"
| wait_timeout: "pcs \<sigma> t = Waiting d \<Longrightarrow> sync_step \<sigma> (\<sigma>\<lparr>pcs := (pcs \<sigma>)(t := Timed_Out)\<rparr>)"
| late: "pcs \<sigma> t = Woken d \<Longrightarrow> sync_step \<sigma> (\<sigma>\<lparr>pcs := (pcs \<sigma>)(t := Timed_Out)\<rparr>)"
| give_up: "pcs \<sigma> t = Timed_Out \<Longrightarrow>
     sync_step \<sigma> (\<sigma>\<lparr>pcs := (pcs \<sigma>)(t := Refused (make_error_code Get_Resource_Timeout))\<rparr>)"
| recycle: "pcs \<sigma> t = Holding c \<Longrightarrow>
     sync_recycle (clock \<sigma>) (Cell c) (pool \<sigma>) = Inr (p, [call]) \<Longrightarrow>
     notifies call ((pcs \<sigma>)(t := Outside)) pc \<Longrightarrow> sync_step \<sigma> (\<sigma>\<lparr>pool := p, pcs := pc\<rparr>)"
| waste: "pcs \<sigma> t = Holding c \<Longrightarrow> sync_waste (Cell c) (pool \<sigma>) = Inr (p, [call]) \<Longrightarrow>
     notifies call ((pcs \<sigma>)(t := Outside)) pc \<Longrightarrow> sync_step \<sigma> (\<sigma>\<lparr>pool := p, pcs := pc\<rparr>)"
| fill: "pcs \<sigma> t = Holding c \<Longrightarrow>
     update_cell (Cell c) (fill_cell v (clock \<sigma>)) (sp_storage (pool \<sigma>)) = Inr s \<Longrightarrow>
     sync_step \<sigma> (\<sigma>\<lparr>pool := (pool \<sigma>)\<lparr>sp_storage := s\<rparr>\<rparr>)"
| leave: "pcs \<sigma> t = Refused ec \<Longrightarrow> sync_step \<sigma> (\<sigma>\<lparr>pcs := (pcs \<sigma>)(t := Outside)\<rparr>)"
| disable: "sync_disable (pool \<sigma>) = (p, [call]) \<Longrightarrow> notifies call (pcs \<sigma>) pc \<Longrightarrow>
     sync_step \<sigma> (\<sigma>\<lparr>pool := p, pcs := pc\<rparr>)"
| invalidate: "sync_step \<sigma> (\<sigma>\<lparr>pool := sync_invalidate (pool \<sigma>)\<rparr>)"
| tick: "clock \<sigma> \<le> now \<Longrightarrow> sync_step \<sigma> (\<sigma>\<lparr>clock := now\<rparr>)"

definition sync_start :: "'v sync_pool \<Rightarrow> time_point \<Rightarrow> 'v sync_system" where
  "sync_start p now = \<lparr>pool = p, pcs = (\<lambda>_. Outside), clock = now\<rparr>"

inductive sync_reachable :: "'v sync_pool \<Rightarrow> 'v sync_system \<Rightarrow> bool" for p where
  start: "sync_reachable p (sync_start p now)"
| step: "sync_reachable p \<sigma> \<Longrightarrow> sync_step \<sigma> \<tau> \<Longrightarrow> sync_reachable p \<tau>"

text \<open>Runs that count the notifications that were taken by threads that were late.\<close>

definition late_step :: "'v sync_system \<Rightarrow> 'v sync_system \<Rightarrow> bool" where
  "late_step \<sigma> \<tau> \<longleftrightarrow> (\<exists>t d. pcs \<sigma> t = Woken d \<and> pcs \<tau> t = Timed_Out)"

inductive sync_run :: "'v sync_pool \<Rightarrow> nat \<Rightarrow> 'v sync_system \<Rightarrow> bool" for p where
  start: "sync_run p 0 (sync_start p now)"
| step: "sync_run p k \<sigma> \<Longrightarrow> sync_step \<sigma> \<tau> \<Longrightarrow> sync_run p (if late_step \<sigma> \<tau> then Suc k else k) \<tau>"

lemma sync_run_reachable: "sync_run p k \<sigma> \<Longrightarrow> sync_reachable p \<sigma>"
  by (induction rule: sync_run.induct) (auto intro: sync_reachable.intros)

lemma sync_reachable_run: "sync_reachable p \<sigma> \<Longrightarrow> \<exists>k. sync_run p k \<sigma>"
  by (induction rule: sync_reachable.induct) (blast intro: sync_run.intros)+

inductive_cases notifies_one: "notifies Notify_One pc pc'"
inductive_cases notifies_all: "notifies Notify_All pc pc'"

subsection \<open>Ownership\<close>

text \<open>
  The cells in use are exactly the held ones, each held by one thread, and only finitely many
  threads have entered the pool.
\<close>

definition holders :: "(nat \<Rightarrow> sync_pc) \<Rightarrow> nat \<Rightarrow> nat set" where
  "holders pc c = {t. pc t = Holding c}"

definition ownership :: "'v sync_pool \<Rightarrow> (nat \<Rightarrow> sync_pc) \<Rightarrow> bool" where
  "ownership p pc \<longleftrightarrow>
     sync_inv p
     \<and> (\<forall>c. c \<in> sync_lent p \<longleftrightarrow> holders pc c \<noteq> {})
     \<and> (\<forall>t u c. pc t = Holding c \<and> pc u = Holding c \<longrightarrow> t = u)
     \<and> finite {t. pc t \<noteq> Outside}"

declare ownership_def [inv_simps] holders_def [inv_simps]

lemma wake_pc_simps [simp]:
  "wake_pc pc = Holding c \<longleftrightarrow> pc = Holding c"
  "wake_pc pc = Outside \<longleftrightarrow> pc = Outside"
  "wake_pc pc = Timed_Out \<longleftrightarrow> pc = Timed_Out"
  "wake_pc pc = Refused ec \<longleftrightarrow> pc = Refused ec"
  "wake_pc pc \<noteq> Waiting d"
  "wake_pc pc = Woken d \<longleftrightarrow> pc = Woken d \<or> pc = Waiting d"
  by (cases pc; auto simp: wake_pc_def)+

lemma notifies_frame:
  assumes "notifies call pc pc'"
  shows "pc' t = Holding c \<longleftrightarrow> pc t = Holding c" and "pc' t = Outside \<longleftrightarrow> pc t = Outside"
  using assms by (induction rule: notifies.induct) auto

lemma ownership_notifies: "notifies call pc pc' \<Longrightarrow> ownership p pc' = ownership p pc"
  by (simp add: ownership_def holders_def notifies_frame)

lemma finite_entered: "finite {t. pc t \<noteq> Outside} \<Longrightarrow> finite {t. (pc(u := x)) t \<noteq> Outside}"
  by (rule finite_subset [of _ "insert u {t. pc t \<noteq> Outside}"]) auto

lemma ownership_move:
  "ownership p pc \<Longrightarrow> (\<forall>c. pc t \<noteq> Holding c) \<Longrightarrow> (\<forall>c. x \<noteq> Holding c) \<Longrightarrow>
   ownership p (pc(t := x))"
  using finite_entered [of pc t x] unfolding ownership_def holders_def by auto

lemma ownership_take:
  "ownership p pc \<Longrightarrow> (\<forall>c. pc t \<noteq> Holding c) \<Longrightarrow> sync_inv p' \<Longrightarrow> c \<notin> sync_lent p \<Longrightarrow>
   sync_lent p' = insert c (sync_lent p) \<Longrightarrow> ownership p' (pc(t := Holding c))"
  using finite_entered [of pc t "Holding c"] unfolding ownership_def holders_def by auto

lemma holders_upd:
  "holders (pc(t := x)) c = (if x = Holding c then insert t (holders pc c) else holders pc c - {t})"
  by (auto simp: holders_def)

lemma ownership_return:
  assumes own: "ownership p pc" and t: "pc t = Holding c" and "sync_inv p'"
    and lent: "sync_lent p' = sync_lent p - {c}"
  shows "ownership p' (pc(t := Outside))"
proof -
  have "holders pc c = {t}" and "\<And>d. d \<noteq> c \<Longrightarrow> t \<notin> holders pc d"
    using own t by (auto simp: ownership_def holders_def)
  then have "holders (pc(t := Outside)) d \<noteq> {} \<longleftrightarrow> d \<noteq> c \<and> holders pc d \<noteq> {}" for d
    by (auto simp: holders_upd)
  moreover have "d \<in> sync_lent p' \<longleftrightarrow> d \<noteq> c \<and> holders pc d \<noteq> {}" for d
    using own lent by (auto simp: ownership_def)
  ultimately show ?thesis
    using own assms(3) finite_entered [of pc t Outside] by (auto simp: ownership_def)
qed

lemma ownership_pool:
  "ownership p pc \<Longrightarrow> sync_inv p' \<Longrightarrow> sync_lent p' = sync_lent p \<Longrightarrow> ownership p' pc"
  unfolding ownership_def by simp

lemma ownership_attempt:
  assumes own: "ownership p pc" and "\<forall>c. pc t \<noteq> Holding c" and "sync_attempt now p = (p', r)"
  shows "ownership p' (pc(t := after_attempt d r))"
proof -
  from own have "sync_inv p" by (simp add: ownership_def)
  then show ?thesis
  proof (cases rule: sync_attempt_cases [where now = now])
    case disabled
    with assms show ?thesis by (auto simp: after_attempt_def intro: ownership_move)
  next
    case (leased s c)
    with assms show ?thesis by (auto simp: after_attempt_def intro: ownership_take)
  next
    case waits
    with assms show ?thesis by (auto simp: after_attempt_def intro: ownership_move)
  qed
qed

lemma ownership_holding:
  "ownership p pc \<Longrightarrow> pc t = Holding c \<Longrightarrow> sync_inv p \<and> c \<in> sync_lent p"
  unfolding ownership_def holders_def by auto

lemma sync_fill_ok:
  assumes "sync_inv p" "c \<in> sync_lent p" "update_cell (Cell c) f (sp_storage p) = Inr s"
  shows "sync_inv (p\<lparr>sp_storage := s\<rparr>)" and "sync_lent (p\<lparr>sp_storage := s\<rparr>) = sync_lent p"
  using assms update_cell_inv [of "sp_capacity p" "sp_storage p" c f s]
  by (auto simp: sync_inv_def sync_lent_def update_cell_Inr_iff)

lemma sync_step_ownership:
  "sync_step \<sigma> \<tau> \<Longrightarrow> ownership (pool \<sigma>) (pcs \<sigma>) \<Longrightarrow> ownership (pool \<tau>) (pcs \<tau>)"
proof (induction rule: sync_step.induct)
  case (recycle \<sigma> t c p call pc)
  with ownership_holding [OF recycle.prems recycle.hyps(1)]
    sync_recycle_ok [of "pool \<sigma>" c "clock \<sigma>"] show ?case
    by (auto simp: ownership_notifies intro: ownership_return)
next
  case (waste \<sigma> t c p call pc)
  with ownership_holding [OF waste.prems waste.hyps(1)] sync_waste_ok [of "pool \<sigma>" c] show ?case
    by (auto simp: ownership_notifies intro: ownership_return)
next
  case (fill \<sigma> t c v s)
  with ownership_holding [OF fill.prems fill.hyps(1)]
    sync_fill_ok [of "pool \<sigma>" c "fill_cell v (clock \<sigma>)" s] show ?case
    by (auto intro: ownership_pool)
next
  case (disable \<sigma> p call pc)
  have "ownership p (pcs \<sigma>)"
    using disable.hyps(1) disable.prems sync_disable_ok [of "pool \<sigma>"] by (simp add: ownership_def)
  with disable.hyps(2) show ?case by (simp add: ownership_notifies)
next
  case (invalidate \<sigma>)
  then show ?case
    using sync_invalidate_ok [of "pool \<sigma>"]
    by (auto simp: ownership_def)
qed (auto intro: ownership_attempt ownership_move)

lemma ownership_start: "sync_inv p \<Longrightarrow> sync_lent p = {} \<Longrightarrow> ownership p (\<lambda>_. Outside)"
  by (simp add: ownership_def holders_def)

lemma sync_reachable_ownership:
  "sync_reachable p \<sigma> \<Longrightarrow> sync_inv p \<Longrightarrow> sync_lent p = {} \<Longrightarrow> ownership (pool \<sigma>) (pcs \<sigma>)"
  by (induction rule: sync_reachable.induct)
    (auto simp: sync_start_def ownership_start dest: sync_step_ownership)

end
