(* ===== verification/Sync_Wakeups.thy ===== *)
theory Sync_Wakeups
  imports Sync_Threads
begin

text \<open>
  The wake-ups of the synchronous pool: a thread sleeps while a cell is free and nobody has been woken to
  take it only if the notification went to a thread that was late, and no thread sleeps on a disabled
  pool.
\<close>

subsection \<open>Wake-ups\<close>

text \<open>
  While a thread sleeps in \<open>get\<close>, the pool is enabled and every free cell but \<open>k\<close> is matched by a thread
  that has been woken and is on its way to the mutex.
\<close>

definition awake :: "(nat \<Rightarrow> sync_pc) \<Rightarrow> nat set" where
  "awake pc = {t. \<exists>d. pc t = Woken d}"

definition attentive :: "nat \<Rightarrow> 'v sync_pool \<Rightarrow> (nat \<Rightarrow> sync_pc) \<Rightarrow> bool" where
  "attentive k p pc \<longleftrightarrow>
     (waiters pc \<noteq> {} \<longrightarrow> \<not> sp_disabled p \<and> free_cells (sp_storage p) \<le> card (awake pc) + k)"

declare attentive_def [inv_simps]

lemma waiters_upd:
  "waiters (pc(t := x)) = (if \<exists>d. x = Waiting d then insert t (waiters pc) else waiters pc - {t})"
  by (auto simp: waiters_def)

lemma awake_upd:
  "awake (pc(t := x)) = (if \<exists>d. x = Woken d then insert t (awake pc) else awake pc - {t})"
  by (auto simp: awake_def)

lemma finite_awake: "ownership p pc \<Longrightarrow> finite (awake pc)"
  unfolding ownership_def by (auto simp: awake_def elim!: finite_subset [rotated])

lemma ownership_inv: "ownership p pc \<Longrightarrow> sync_inv p"
  by (simp add: ownership_def)

lemma sync_free_lent:
  "sync_inv p \<Longrightarrow> free_cells (sp_storage p) + card (sync_lent p) = sp_capacity p"
  using storage_inv_total [of "sp_capacity p" "sp_storage p"]
    distinct_card [OF storage_inv_disjoint(2), of "sp_capacity p" "sp_storage p"]
  by (simp add: sync_inv_def sync_lent_def free_cells_def)

lemma sync_free_return:
  assumes "sync_inv p" "sync_inv p'" "sp_capacity p' = sp_capacity p" "c \<in> sync_lent p"
    and "sync_lent p' = sync_lent p - {c}"
  shows "free_cells (sp_storage p') = Suc (free_cells (sp_storage p))"
  using sync_free_lent [OF assms(1)] sync_free_lent [OF assms(2)] assms(3-5)
    card_Suc_Diff1 [of "sync_lent p" c]
  by (simp add: sync_lent_def)

lemma sync_free_same:
  "sync_inv p \<Longrightarrow> sync_inv p' \<Longrightarrow> sp_capacity p' = sp_capacity p \<Longrightarrow> sync_lent p' = sync_lent p \<Longrightarrow>
   free_cells (sp_storage p') = free_cells (sp_storage p)"
  using sync_free_lent [of p] sync_free_lent [of p'] by simp

lemma sync_used_free: "sync_inv p \<Longrightarrow> free_cells (sp_storage p) + sync_used p = sp_capacity p"
  using storage_inv_total [of "sp_capacity p" "sp_storage p"]
  by (simp add: sync_inv_def free_cells_def sync_used_def storage_stats_of_def)

lemma attentive_move:
  "attentive k p pc \<Longrightarrow> pc t \<notin> range Woken \<Longrightarrow> x \<notin> range Waiting \<Longrightarrow> finite (awake pc) \<Longrightarrow>
   attentive k p (pc(t := x))"
proof -
  assume a: "attentive k p pc" "pc t \<notin> range Woken" "x \<notin> range Waiting" "finite (awake pc)"
  then have "t \<notin> awake pc" "waiters (pc(t := x)) \<subseteq> waiters pc"
    by (auto simp: awake_def waiters_upd)
  moreover from this have "card (awake pc) \<le> card (awake (pc(t := x)))"
    using a(4) by (simp add: awake_upd card_insert_if)
  ultimately show ?thesis
    using a(1) unfolding attentive_def by auto
qed

lemma attentive_spurious:
  assumes "attentive k p pc" and "pc t = Waiting d" and "finite (awake pc)"
  shows "attentive k p (pc(t := Woken d))"
proof -
  have "waiters pc \<noteq> {}" and "card (awake pc) \<le> card (awake (pc(t := Woken d)))"
    using assms(2,3) by (auto simp: waiters_def awake_upd card_insert_if)
  with assms(1) show ?thesis
    by (auto simp: attentive_def)
qed

lemma attentive_attempt:
  assumes inv: "sync_inv p" and att: "attentive k p pc" and fin: "finite (awake pc)"
    and pc: "pc t = Outside \<or> (\<exists>d. pc t = Woken d)" and step: "sync_attempt now p = (p', r)"
  shows "attentive k p' (pc(t := after_attempt d r))"
  using inv
proof (cases rule: sync_attempt_cases [where now = now])
  case disabled
  with step att have "waiters (pc(t := after_attempt d r)) = {}"
    by (auto simp: waiters_upd after_attempt_def attentive_def)
  then show ?thesis by (simp add: attentive_def)
next
  case (leased s c)
  with step have eqs: "p' = p\<lparr>sp_storage := s\<rparr>" "after_attempt d r = Holding c"
    by (auto simp: after_attempt_def)
  have "Suc (free_cells s) = free_cells (sp_storage p)"
    using sync_free_lent [OF inv] sync_free_lent [OF leased(4)] leased(5,6)
    by (simp add: sync_lent_def)
  moreover have "waiters (pc(t := Holding c)) = waiters pc"
    using pc by (auto simp: waiters_upd) (auto simp: waiters_def)
  moreover have "card (awake pc) \<le> Suc (card (awake (pc(t := Holding c))))"
    using fin by (simp add: awake_upd) (metis card_Suc_Diff1 Diff_empty Diff_insert0 le_SucI order_refl)
  ultimately show ?thesis
    using att leased(1) by (auto simp: attentive_def eqs)
next
  case waits
  with step show ?thesis by (auto simp: attentive_def)
qed

lemma attentive_return:
  assumes own: "ownership p pc" and att: "attentive k p pc" and t: "pc t = Holding c"
    and p': "sync_inv p'" "sync_lent p' = sync_lent p - {c}" "sp_disabled p' = sp_disabled p"
      "sp_capacity p' = sp_capacity p"
    and notified: "notifies Notify_One (pc(t := Outside)) pc'"
  shows "attentive k p' pc'"
  using notified
proof cases
  case (one u)
  let ?pc = "pc(t := Outside)"
  have "awake ?pc = awake pc" "waiters ?pc = waiters pc"
    using t by (auto simp: awake_upd waiters_upd) (auto simp: awake_def waiters_def)
  moreover obtain e where u: "?pc u = Waiting e"
    using one by (auto simp: waiters_def)
  then have "u \<notin> awake ?pc" "wake_pc (?pc u) = Woken e"
    by (auto simp: awake_def wake_pc_def)
  moreover have "free_cells (sp_storage p') = Suc (free_cells (sp_storage p))"
    using sync_free_return ownership_holding [OF own t] p' by blast
  moreover have "waiters pc \<noteq> {}"
    using one calculation by auto
  ultimately show ?thesis
    using att p'(3) finite_awake [OF own] one(1)
    by (auto simp: attentive_def awake_upd card_insert_if)
next
  case one_none
  then show ?thesis by (simp add: attentive_def)
qed

lemma attentive_late:
  assumes "attentive k p pc" and "pc t = Woken d" and "finite (awake pc)"
  shows "attentive (Suc k) p (pc(t := Timed_Out))"
proof -
  have "waiters (pc(t := Timed_Out)) = waiters pc"
    using assms(2) by (auto simp: waiters_upd) (auto simp: waiters_def)
  moreover have "card (awake pc) \<le> Suc (card (awake (pc(t := Timed_Out))))"
    using assms(3) by (simp add: awake_upd) (metis card_Suc_Diff1 Diff_empty Diff_insert0 le_SucI order_refl)
  ultimately show ?thesis
    using assms(1) by (auto simp: attentive_def)
qed

lemma attentive_mono: "attentive k p pc \<Longrightarrow> k \<le> k' \<Longrightarrow> attentive k' p pc"
  by (auto simp: attentive_def)

lemma sync_step_attentive:
  "sync_step \<sigma> \<tau> \<Longrightarrow> ownership (pool \<sigma>) (pcs \<sigma>) \<Longrightarrow> attentive k (pool \<sigma>) (pcs \<sigma>) \<Longrightarrow>
   attentive (if late_step \<sigma> \<tau> then Suc k else k) (pool \<tau>) (pcs \<tau>)"
proof (induction rule: sync_step.induct)
  case (late \<sigma> t d)
  then have "late_step \<sigma> (\<sigma>\<lparr>pcs := (pcs \<sigma>)(t := Timed_Out)\<rparr>)"
    by (auto simp: late_step_def)
  with late show ?case
    by (simp add: attentive_late finite_awake del: fun_upd_apply)
next
  case (get \<sigma> t p r d)
  have "attentive k p ((pcs \<sigma>)(t := after_attempt d r))"
    using attentive_attempt [OF ownership_inv [OF get.prems(1)] get.prems(2)
        finite_awake [OF get.prems(1)] _ get.hyps(2)] get.hyps(1) by simp
  then show ?case by (auto intro: attentive_mono simp del: fun_upd_apply)
next
  case (retry \<sigma> t d p r)
  have "attentive k p ((pcs \<sigma>)(t := after_attempt d r))"
    using attentive_attempt [OF ownership_inv [OF retry.prems(1)] retry.prems(2)
        finite_awake [OF retry.prems(1)] _ retry.hyps(2)] retry.hyps(1) by simp
  then show ?case by (auto intro: attentive_mono simp del: fun_upd_apply)
next
  case (spurious \<sigma> t d)
  then have "attentive k (pool \<sigma>) ((pcs \<sigma>)(t := Woken d))"
    by (intro attentive_spurious) (simp_all add: finite_awake)
  then show ?case by (auto intro: attentive_mono simp del: fun_upd_apply)
next
  case (wait_timeout \<sigma> t d)
  then have "attentive k (pool \<sigma>) ((pcs \<sigma>)(t := Timed_Out))"
    by (intro attentive_move) (auto simp: finite_awake)
  then show ?case by (auto intro: attentive_mono simp del: fun_upd_apply)
next
  case (give_up \<sigma> t)
  then have "attentive k (pool \<sigma>) ((pcs \<sigma>)(t := Refused (make_error_code Get_Resource_Timeout)))"
    by (intro attentive_move) (auto simp: finite_awake)
  then show ?case by (auto intro: attentive_mono simp del: fun_upd_apply)
next
  case (recycle \<sigma> t c p call pc)
  have own: "sync_inv (pool \<sigma>)" "c \<in> sync_lent (pool \<sigma>)"
    using ownership_holding [OF recycle.prems(1) recycle.hyps(1)] by auto
  from recycle sync_recycle_ok [OF own, of "clock \<sigma>"] have "attentive k p pc"
    by (auto intro: attentive_return)
  then show ?case by (auto intro: attentive_mono simp del: fun_upd_apply)
next
  case (waste \<sigma> t c p call pc)
  have own: "sync_inv (pool \<sigma>)" "c \<in> sync_lent (pool \<sigma>)"
    using ownership_holding [OF waste.prems(1) waste.hyps(1)] by auto
  from waste sync_waste_ok [OF own] have "attentive k p pc"
    by (auto intro: attentive_return)
  then show ?case by (auto intro: attentive_mono simp del: fun_upd_apply)
next
  case (leave \<sigma> t ec)
  then have "attentive k (pool \<sigma>) ((pcs \<sigma>)(t := Outside))"
    by (intro attentive_move) (auto simp: finite_awake)
  then show ?case by (auto intro: attentive_mono simp del: fun_upd_apply)
next
  case (disable \<sigma> p call pc)
  then have "notifies Notify_All (pcs \<sigma>) pc"
    by (simp add: sync_disable_def)
  then have "waiters pc = {}"
    by cases (simp_all add: waiters_def)
  then show ?case by (simp add: attentive_def)
qed (auto simp: attentive_def free_cells_def update_cell_Inr_iff sync_invalidate_def)

lemma sync_run_attentive:
  "sync_run p k \<sigma> \<Longrightarrow> sync_inv p \<Longrightarrow> sync_lent p = {} \<Longrightarrow> attentive k (pool \<sigma>) (pcs \<sigma>)"
proof (induction rule: sync_run.induct)
  case (start now)
  then show ?case by (simp add: sync_start_def attentive_def waiters_def)
next
  case (step k \<sigma> \<tau>)
  then show ?case
    using sync_step_attentive [OF step.hyps(2)] sync_reachable_ownership sync_run_reachable by blast
qed

lemma sync_create_fields:
  assumes "sync_pool_create n timeout life = Inr p"
  shows "sync_inv p" "sync_lent p = {}" "sp_capacity p = n" "sync_used p = 0"
  using assms sync_create_inv [OF assms]
  by (auto simp: sync_pool_create_def sync_assert_capacity_def sync_lent_def sync_used_def
      storage_stats_of_def split: if_splits)

lemma sync_step_capacity: "sync_step \<sigma> \<tau> \<Longrightarrow> sp_capacity (pool \<tau>) = sp_capacity (pool \<sigma>)"
  by (induction rule: sync_step.induct)
    (auto simp: sync_attempt_def sync_recycle_def sync_waste_def sync_disable_def
      sync_invalidate_def and_then_Inr_iff split: if_splits prod.splits option.splits)

lemma sync_reachable_capacity: "sync_reachable p \<sigma> \<Longrightarrow> sp_capacity (pool \<sigma>) = sp_capacity p"
  by (induction rule: sync_reachable.induct) (simp_all add: sync_start_def sync_step_capacity)

subsection \<open>What threads can rely on\<close>

text \<open>
  C10. Whatever a set of threads does with a synchronous pool, no two of them ever hold the same cell,
  a held cell is one of the pool's, and its holder can give it back at any time, to be kept or
  wasted, without undefined behaviour.
\<close>

theorem sync_cells_exclusive:
  assumes "sync_pool_create n timeout life = Inr p" and "sync_reachable p \<sigma>"
    and "pcs \<sigma> t = Holding c"
  shows "(\<forall>u. pcs \<sigma> u = Holding c \<longrightarrow> u = t) \<and> c < n
    \<and> (\<exists>q. sync_recycle now (Cell c) (pool \<sigma>) = Inr (q, [Notify_One]))
    \<and> (\<exists>q. sync_waste (Cell c) (pool \<sigma>) = Inr (q, [Notify_One]))"
proof -
  note p = sync_create_fields [OF assms(1)]
  have own: "ownership (pool \<sigma>) (pcs \<sigma>)"
    using sync_reachable_ownership [OF assms(2) p(1,2)] .
  then have inv: "sync_inv (pool \<sigma>)" "c \<in> sync_lent (pool \<sigma>)"
    using ownership_holding [OF own assms(3)] by auto
  have "c < n"
    using storage_inv_used_cells [of n "sp_storage (pool \<sigma>)"] inv
      sync_reachable_capacity [OF assms(2)] p(3)
    by (auto simp: sync_inv_def sync_lent_def)
  moreover have "\<forall>u. pcs \<sigma> u = Holding c \<longrightarrow> u = t"
    using own assms(3) by (auto simp: ownership_def)
  ultimately show ?thesis
    using sync_recycle_ok [OF inv, of now] sync_waste_ok [OF inv] by blast
qed

lemma late_thread_loses:
  assumes run: "sync_run p k \<sigma>" and p: "sync_inv p" "sync_lent p = {}"
    and t: "pcs \<sigma> t = Waiting d" and u: "pcs \<sigma> u = Waiting e" "u \<noteq> t" and v: "pcs \<sigma> v = Holding c"
  shows "\<exists>\<tau>. sync_run p (Suc k) \<tau> \<and> pcs \<tau> t = Waiting d \<and> sync_used (pool \<tau>) < sp_capacity p
    \<and> awake (pcs \<tau>) = awake (pcs \<sigma>)"
proof -
  have own: "ownership (pool \<sigma>) (pcs \<sigma>)"
    using sync_reachable_ownership [OF sync_run_reachable [OF run] p] .
  obtain q where q: "sync_recycle (clock \<sigma>) (Cell c) (pool \<sigma>) = Inr (q, [Notify_One])" "sync_inv q"
    "sync_lent q = sync_lent (pool \<sigma>) - {c}"
    using sync_recycle_ok [of "pool \<sigma>" c "clock \<sigma>"] ownership_holding [OF own v] by blast
  let ?pc = "(pcs \<sigma>)(v := Outside)"
  have "?pc u = Waiting e"
    using u v by auto
  then have u': "u \<in> waiters ?pc" "wake_pc (?pc u) = Woken e"
    by (auto simp: waiters_def wake_pc_def)
  have "notifies Notify_One ?pc (?pc(u := Woken e))"
    using notifies.one [OF u'(1)] unfolding u'(2) .
  from sync_step.recycle [OF v q(1) this]
  have step1: "sync_step \<sigma> (\<sigma>\<lparr>pool := q, pcs := ?pc(u := Woken e)\<rparr>)" (is "sync_step \<sigma> ?\<rho>") .
  have "\<not> late_step \<sigma> ?\<rho>"
    by (auto simp: late_step_def)
  with sync_run.step [OF run step1] have run1: "sync_run p k ?\<rho>"
    by simp
  have "pcs ?\<rho> u = Woken e" by simp
  from sync_step.late [OF this]
  have step2: "sync_step ?\<rho> (?\<rho>\<lparr>pcs := (pcs ?\<rho>)(u := Timed_Out)\<rparr>)" (is "sync_step ?\<rho> ?\<tau>") .
  have "late_step ?\<rho> ?\<tau>"
    by (auto simp: late_step_def)
  with sync_run.step [OF run1 step2] have "sync_run p (Suc k) ?\<tau>"
    by simp
  moreover have "pcs ?\<tau> t = Waiting d"
    using t u v by auto
  moreover have "sync_used (pool ?\<tau>) < sp_capacity p"
  proof -
    have caps: "sp_capacity (pool \<sigma>) = sp_capacity p" "sp_capacity q = sp_capacity p"
      using sync_reachable_capacity [OF sync_run_reachable [OF run]]
        sync_reachable_capacity [OF sync_run_reachable [OF run1]] by simp_all
    have "free_cells (sp_storage q) = Suc (free_cells (sp_storage (pool \<sigma>)))"
      using sync_free_return [OF _ q(2) _ _ q(3)] ownership_holding [OF own v] caps by simp
    then show ?thesis
      using sync_used_free [OF q(2)] caps by simp
  qed
  moreover have "awake (pcs ?\<tau>) = awake (pcs \<sigma>)"
    using u v by (auto simp: awake_upd) (auto simp: awake_def)
  ultimately show ?thesis by blast
qed

text \<open>
  C6. A wake-up is lost only with a thread that is late. While a thread sleeps in \<open>get\<close>, the free cells
  are at most as many as the threads that have been woken plus the \<open>k\<close> notifications that went to
  threads whose deadline had passed when they came to look. So as long as no notified thread times out,
  a thread sleeps beside a free cell only if another has been woken, and that one gets a cell if it runs
  next. But a late thread does lose the wake-up: whenever two threads sleep and a third holds a cell, the
  run can go on, with one more late thread, to a state in which the one still sleeps, a cell is free,
  and nobody has been woken who was not awake before.
\<close>

theorem sync_wakeups_lost_by_late_threads:
  assumes "sync_pool_create n timeout life = Inr p" and "sync_run p k \<sigma>" and "pcs \<sigma> t = Waiting d"
  shows "n - sync_used (pool \<sigma>) \<le> card (awake (pcs \<sigma>)) + k
    \<and> (k = 0 \<and> sync_used (pool \<sigma>) < n \<longrightarrow>
         (\<exists>u e c q. pcs \<sigma> u = Woken e
            \<and> sync_attempt (clock \<sigma>) (pool \<sigma>) = (q, Some (no_error, Cell c))))
    \<and> (\<forall>u e v c. u \<noteq> t \<and> pcs \<sigma> u = Waiting e \<and> pcs \<sigma> v = Holding c \<longrightarrow>
         (\<exists>\<tau>. sync_run p (Suc k) \<tau> \<and> pcs \<tau> t = Waiting d \<and> sync_used (pool \<tau>) < n
            \<and> awake (pcs \<tau>) = awake (pcs \<sigma>)))"
proof (intro conjI impI allI)
  note p = sync_create_fields [OF assms(1)]
  note reach = sync_run_reachable [OF assms(2)]
  have own: "ownership (pool \<sigma>) (pcs \<sigma>)" and att: "attentive k (pool \<sigma>) (pcs \<sigma>)"
    using sync_reachable_ownership [OF reach p(1,2)] sync_run_attentive [OF assms(2) p(1,2)] by auto
  then have inv: "sync_inv (pool \<sigma>)"
    by (simp add: ownership_def)
  have free: "free_cells (sp_storage (pool \<sigma>)) + sync_used (pool \<sigma>) = n"
    using sync_used_free [OF inv] sync_reachable_capacity [OF reach] p(3) by simp
  have "waiters (pcs \<sigma>) \<noteq> {}"
    using assms(3) by (auto simp: waiters_def)
  with att have match: "free_cells (sp_storage (pool \<sigma>)) \<le> card (awake (pcs \<sigma>)) + k"
    and enabled: "\<not> sp_disabled (pool \<sigma>)"
    by (simp_all add: attentive_def)
  then show "n - sync_used (pool \<sigma>) \<le> card (awake (pcs \<sigma>)) + k"
    using free by simp
  show "\<exists>u e c q. pcs \<sigma> u = Woken e \<and> sync_attempt (clock \<sigma>) (pool \<sigma>) = (q, Some (no_error, Cell c))"
    if "k = 0 \<and> sync_used (pool \<sigma>) < n"
  proof -
    have some: "free_cells (sp_storage (pool \<sigma>)) \<noteq> 0"
      using that free by auto
    then have "card (awake (pcs \<sigma>)) \<noteq> 0"
      using that match by auto
    then have "awake (pcs \<sigma>) \<noteq> {}"
      by auto
    then obtain u e where "pcs \<sigma> u = Woken e"
      by (auto simp: awake_def)
    moreover from inv obtain c q where "sync_attempt (clock \<sigma>) (pool \<sigma>) = (q, Some (no_error, Cell c))"
      using some enabled by (cases rule: sync_attempt_cases [where now = "clock \<sigma>"]) auto
    ultimately show ?thesis by blast
  qed
  show "\<exists>\<tau>. sync_run p (Suc k) \<tau> \<and> pcs \<tau> t = Waiting d \<and> sync_used (pool \<tau>) < n
      \<and> awake (pcs \<tau>) = awake (pcs \<sigma>)"
    if "u \<noteq> t \<and> pcs \<sigma> u = Waiting e \<and> pcs \<sigma> v = Holding c" for u e v c
    using late_thread_loses [OF assms(2) p(1,2) assms(3)] that p(3) by blast
qed

text \<open>
  After \<open>disable\<close> nobody sleeps: every thread inside \<open>get\<close> is awake or already has its result,
  and the next turn of any of them is refused with the code \<open>disabled\<close>.
\<close>

theorem sync_disabled_nobody_waits:
  assumes "sync_pool_create n timeout life = Inr p" and "sync_reachable p \<sigma>"
    and "sp_disabled (pool \<sigma>)"
  shows "pcs \<sigma> t \<noteq> Waiting d
    \<and> sync_attempt now (pool \<sigma>) = (pool \<sigma>, Some (make_error_code Disabled, Singular))"
proof -
  note p = sync_create_fields [OF assms(1)]
  obtain k where "attentive k (pool \<sigma>) (pcs \<sigma>)"
    using sync_reachable_run [OF assms(2)] sync_run_attentive p(1,2) by blast
  then have "waiters (pcs \<sigma>) = {}"
    using assms(3) by (auto simp: attentive_def)
  then show ?thesis
    using assms(3) by (auto simp: waiters_def sync_attempt_def)
qed

subsection \<open>A concrete execution\<close>

text \<open>
  A pool of one cell: thread 0 takes the cell, threads 1 and 2 go to sleep; then the pool may be disabled.
\<close>

definition demo_pcs :: "nat \<Rightarrow> sync_pc" where
  "demo_pcs = (\<lambda>_. Outside)(0 := Holding 0, 1 := Waiting zero_duration, 2 := Waiting zero_duration)"

lemma demo_reach_lent:
  "sync_reachable (demo_pool 1) \<lparr>pool = demo_lent, pcs = demo_pcs, clock = epoch\<rparr>"
proof -
  let ?s = "\<lambda>pc. \<lparr>pool = demo_lent, pcs = pc, clock = epoch\<rparr>"
  have full: "sync_attempt epoch demo_lent = (demo_lent, None)"
    using demo_lent_full by (simp add: sync_attempt_full)
  have wait: "sync_step (?s pc) (?s (pc(t := Waiting zero_duration)))" if "pc t = Outside" for pc t
    using sync_step.get [of "?s pc" t demo_lent None zero_duration] full that
    by (simp add: after_attempt_def del: fun_upd_apply)
  have "sync_reachable (demo_pool 1) (sync_start (demo_pool 1) epoch)"
    by (rule sync_reachable.start)
  moreover have "sync_step (sync_start (demo_pool 1) epoch) (?s ((\<lambda>_. Outside)(0 := Holding 0)))"
    using sync_step.get [of "sync_start (demo_pool 1) epoch" 0 demo_lent _ zero_duration] demo_attempt
    by (simp add: sync_start_def after_attempt_def)
  ultimately have "sync_reachable (demo_pool 1) (?s ((\<lambda>_. Outside)(0 := Holding 0)))"
    by (meson sync_reachable.step)
  then have "sync_reachable (demo_pool 1)
      (?s ((\<lambda>_. Outside)(0 := Holding 0, 1 := Waiting zero_duration)))"
    by (rule sync_reachable.step) (rule wait, simp)
  then show ?thesis
    unfolding demo_pcs_def by (rule sync_reachable.step) (rule wait, simp)
qed

lemma demo_reach_disabled:
  "sync_reachable (demo_pool 1)
     \<lparr>pool = demo_lent\<lparr>sp_disabled := True\<rparr>, pcs = (\<lambda>t. wake_pc (demo_pcs t)), clock = epoch\<rparr>"
  using sync_step.disable [of "\<lparr>pool = demo_lent, pcs = demo_pcs, clock = epoch\<rparr>"]
    notifies.all [of demo_pcs] sync_reachable.step [OF demo_reach_lent]
  by (simp add: sync_disable_def)

theorem sync_cells_exclusive_witness:
  "demo_pcs 0 = Holding 0 \<and> (\<exists>q. sync_waste (Cell 0) demo_lent = Inr (q, [Notify_One]))"
  using sync_cells_exclusive [OF demo_pool_create demo_reach_lent, of 0 0]
  by (simp add: demo_pcs_def)

theorem sync_wakeups_lost_by_late_threads_witness:
  "\<exists>k \<tau>. sync_run (demo_pool 1) k \<tau> \<and> pcs \<tau> 2 = Waiting zero_duration \<and> sync_used (pool \<tau>) < 1
    \<and> awake (pcs \<tau>) = {}"
proof -
  let ?\<sigma> = "\<lparr>pool = demo_lent, pcs = demo_pcs, clock = epoch\<rparr>"
  obtain k where "sync_run (demo_pool 1) k ?\<sigma>"
    using sync_reachable_run [OF demo_reach_lent] by blast
  note late = sync_wakeups_lost_by_late_threads [OF demo_pool_create this, of 2 zero_duration,
      THEN conjunct2, THEN conjunct2, rule_format, of 1 zero_duration 0 0]
  have "awake demo_pcs = {}"
    by (auto simp: demo_pcs_def awake_def)
  with late show ?thesis
    by (auto simp: demo_pcs_def)
qed

theorem sync_disabled_nobody_waits_witness:
  "wake_pc (demo_pcs 2) \<noteq> Waiting zero_duration"
  using sync_disabled_nobody_waits [OF demo_pool_create demo_reach_disabled, of 2 zero_duration epoch]
  by simp

end
