(* ===== verification/Request_Queue.thy ===== *)
theory Request_Queue
  imports Time_Traits
begin

text \<open>
  \<open>async/detail/queue.hpp\<close>: the bounded queue of requests that wait for a cell, each with a deadline.

  A request is a node of a \<open>std::list\<close>, named by a number, with its contents in the store \<open>rq_nodes\<close>.
  It is in one of two lists, \<open>_ordered_requests\<close> (waiting, oldest first) or \<open>_ordered_requests_pool\<close>
  (kept for reuse). The multimap from deadlines to requests is the list of its entries in the order of
  iteration; an entry has an identity of its own, which is what a multimap iterator denotes. The
  map of timers is the list of its keys. I/O contexts are values of type \<open>'c\<close>.

  What the queue asks of Boost.Asio is output: posting a completion to an I/O context and operations
  on the timer it keeps for an I/O context. A timer's wait ends by a call of \<open>cancel\<close> with the
  deadline it was armed for, an error code telling an expired timer from a cancelled one.

  A member that is uninitialised, or a request that was moved from, is \<open>None\<close>; reading one is a
  fault.
\<close>

subsection \<open>State\<close>

datatype ('c, 't) asio_call =
    Post 'c 't
  | Dispatch 'c 't
  | Timer_Create 'c
  | Timer_Expires_At 'c time_point
  | Timer_Async_Wait 'c time_point
  | Timer_Cancel 'c
  | Timer_Destroy 'c

text \<open>The completion of a request that was not served in time.\<close>

datatype 'q expired_handler = Expired_Handler 'q

record ('c, 'q) expiring_request =
  er_io_context :: "'c option"
  er_request :: "'q option"
  er_order_it :: "nat option"
  er_expires_at_it :: "nat option"

definition expiring_request_default :: "('c, 'q) expiring_request" where
  "expiring_request_default =
     \<lparr>er_io_context = None, er_request = None, er_order_it = None, er_expires_at_it = None\<rparr>"

type_synonym entry = "nat \<times> time_point \<times> nat"

abbreviation entry_id :: "entry \<Rightarrow> nat" where "entry_id \<equiv> fst"

definition entry_key :: "entry \<Rightarrow> time_point" where "entry_key x = fst (snd x)"
definition entry_node :: "entry \<Rightarrow> nat" where "entry_node x = snd (snd x)"

lemma entry_simps [simp, exec]: "entry_key (e, t, r) = t" "entry_node (e, t, r) = r"
  by (simp_all add: entry_key_def entry_node_def)

record ('c, 'q) request_queue =
  rq_capacity :: nat
  rq_nodes :: "nat \<Rightarrow> ('c, 'q) expiring_request"
  rq_pool :: "nat list"
  rq_ordered :: "nat list"
  rq_expires :: "entry list"
  rq_next_entry :: nat
  rq_timers :: "'c list"

definition rq_new :: "nat \<Rightarrow> ('c, 'q) request_queue" where
  "rq_new capacity =
     \<lparr>rq_capacity = capacity, rq_nodes = (\<lambda>_. expiring_request_default), rq_pool = [],
      rq_ordered = [], rq_expires = [], rq_next_entry = 0, rq_timers = []\<rparr>"

definition rq_size :: "('c, 'q) request_queue \<Rightarrow> nat" where
  "rq_size q = length (rq_expires q)"

definition rq_empty :: "('c, 'q) request_queue \<Rightarrow> bool" where
  "rq_empty q \<longleftrightarrow> rq_ordered q = []"

definition fit_capacity :: "('c, 'q) request_queue \<Rightarrow> bool" where
  "fit_capacity q \<longleftrightarrow> length (rq_expires q) < rq_capacity q"

subsection \<open>The multimap\<close>

text \<open>\<open>insert\<close> puts an entry behind those with an equal key.\<close>

fun mm_insert :: "entry \<Rightarrow> entry list \<Rightarrow> entry list" where
  "mm_insert x [] = [x]"
| "mm_insert x (y # ys) = (if entry_key x < entry_key y then x # y # ys else y # mm_insert x ys)"

definition mm_erase :: "nat \<Rightarrow> entry list \<Rightarrow> entry list result" where
  "mm_erase e xs =
     (if e \<in> entry_id ` set xs then Inr (filter (\<lambda>x. entry_id x \<noteq> e) xs)
      else Inl Undefined_Behaviour)"

subsection \<open>Timers\<close>

definition get_timer ::
  "'c \<Rightarrow> ('c, 'q) request_queue \<Rightarrow>
   ('c, 'q) request_queue \<times> ('c, 'q expired_handler) asio_call list" where
  "get_timer c q =
     (if c \<in> set (rq_timers q) then (q, [])
      else (q\<lparr>rq_timers := rq_timers q @ [c]\<rparr>, [Timer_Create c]))"

definition update_timer ::
  "('c, 'q) request_queue \<Rightarrow>
   (('c, 'q) request_queue \<times> ('c, 'q expired_handler) asio_call list) result" where
  "update_timer q =
     (case rq_expires q of
        [] \<Rightarrow>
          Inr (q\<lparr>rq_timers := []\<rparr>, map Timer_Cancel (rq_timers q) @ map Timer_Destroy (rq_timers q))
      | (e, expires_at, r) # _ \<Rightarrow>
          (case er_io_context (rq_nodes q r) of
             None \<Rightarrow> Inl Undefined_Behaviour
           | Some c \<Rightarrow>
               (case get_timer c q of
                  (q', calls) \<Rightarrow>
                    Inr (q', calls @ [Timer_Expires_At c expires_at,
                                      Timer_Async_Wait c expires_at]))))"

subsection \<open>Operations\<close>

definition rq_emplace :: "('c, 'q) request_queue \<Rightarrow> ('c, 'q) request_queue" where
  "rq_emplace q =
     (let r = length (rq_pool q) + length (rq_ordered q)
      in q\<lparr>rq_nodes := (rq_nodes q)(r := expiring_request_default), rq_pool := rq_pool q @ [r]\<rparr>)"

definition rq_push ::
  "'c \<Rightarrow> duration \<Rightarrow> time_point \<Rightarrow> 'q \<Rightarrow> ('c, 'q) request_queue \<Rightarrow>
   (bool \<times> ('c, 'q) request_queue \<times> ('c, 'q expired_handler) asio_call list) result" where
  "rq_push c wait_duration now req q =
     (if \<not> fit_capacity q then Inr (False, q, [])
      else
        let q1 = (if rq_pool q = [] then rq_emplace q else q) in
        case rq_pool q1 of
          [] \<Rightarrow> Inl Undefined_Behaviour
        | r # rest \<Rightarrow>
            let expires_at = add now wait_duration;
                e = rq_next_entry q1;
                node = \<lparr>er_io_context = Some c, er_request = Some req, er_order_it = Some r,
                        er_expires_at_it = Some e\<rparr>
            in and_then
                 (update_timer
                   (q1\<lparr>rq_pool := rest, rq_ordered := rq_ordered q1 @ [r],
                       rq_nodes := (rq_nodes q1)(r := node),
                       rq_expires := mm_insert (e, expires_at, r) (rq_expires q1),
                       rq_next_entry := Suc e\<rparr>))
                 (\<lambda>(q', calls). Inr (True, q', calls)))"

definition rq_pop ::
  "('c, 'q) request_queue \<Rightarrow>
   (('q \<times> 'c) option \<times> ('c, 'q) request_queue \<times> ('c, 'q expired_handler) asio_call list) result"
where
  "rq_pop q =
     (case rq_ordered q of
        [] \<Rightarrow> Inr (None, q, [])
      | r # rest \<Rightarrow>
          let node = rq_nodes q r in
          (case (er_request node, er_io_context node, er_expires_at_it node) of
            (Some req, Some c, Some e) \<Rightarrow>
              and_then (mm_erase e (rq_expires q)) (\<lambda>expires.
              and_then
                (update_timer
                  (q\<lparr>rq_nodes := (rq_nodes q)(r := node\<lparr>er_request := None\<rparr>),
                     rq_expires := expires, rq_pool := r # rq_pool q, rq_ordered := rest\<rparr>))
                (\<lambda>(q', calls). Inr (Some (req, c), q', calls)))
          | _ \<Rightarrow> Inl Undefined_Behaviour))"

text \<open>
  The body of the loop of \<open>cancel\<close>, for one request: post its completion and put it back into the
  pool of nodes.
\<close>

definition expire_request ::
  "nat \<Rightarrow> ('c, 'q) request_queue \<Rightarrow>
   (('c, 'q) request_queue \<times> ('c, 'q expired_handler) asio_call list) result" where
  "expire_request r q =
     (let node = rq_nodes q r in
      case (er_io_context node, er_request node, er_order_it node) of
        (Some c, Some req, Some it) \<Rightarrow>
          if it \<notin> set (rq_ordered q) then Inl Undefined_Behaviour
          else Inr (q\<lparr>rq_nodes := (rq_nodes q)(r := node\<lparr>er_request := None\<rparr>),
                      rq_pool := it # rq_pool q, rq_ordered := remove1 it (rq_ordered q)\<rparr>,
                    [Post c (Expired_Handler req)])
      | _ \<Rightarrow> Inl Undefined_Behaviour)"

fun expire_requests ::
  "nat list \<Rightarrow> ('c, 'q) request_queue \<Rightarrow>
   (('c, 'q) request_queue \<times> ('c, 'q expired_handler) asio_call list) result" where
  "expire_requests [] q = Inr (q, [])"
| "expire_requests (r # rs) q =
     and_then (expire_request r q) (\<lambda>(q', calls).
     and_then (expire_requests rs q') (\<lambda>(q'', calls'). Inr (q'', calls @ calls')))"

definition rq_cancel ::
  "error_code \<Rightarrow> time_point \<Rightarrow> ('c, 'q) request_queue \<Rightarrow>
   (('c, 'q) request_queue \<times> ('c, 'q expired_handler) asio_call list) result" where
  "rq_cancel ec expires_at q =
     (if failed ec then Inr (q, [])
      else
        let expired = takeWhile (\<lambda>x. entry_key x \<le> expires_at) (rq_expires q) in
        and_then (expire_requests (map entry_node expired) q) (\<lambda>(q1, calls).
        and_then (update_timer (q1\<lparr>rq_expires := drop (length expired) (rq_expires q1)\<rparr>))
          (\<lambda>(q2, calls'). Inr (q2, calls @ calls'))))"

text \<open>The accessor \<open>timer\<close>, which creates the timer of an I/O context if there is none.\<close>

definition rq_timer ::
  "'c \<Rightarrow> ('c, 'q) request_queue \<Rightarrow>
   ('c, 'q) request_queue \<times> ('c, 'q expired_handler) asio_call list" where
  "rq_timer c q = get_timer c q"

lemmas rq_defs =
  rq_new_def rq_size_def rq_empty_def fit_capacity_def mm_erase_def get_timer_def update_timer_def
  rq_emplace_def rq_push_def rq_pop_def expire_request_def rq_cancel_def rq_timer_def
  expiring_request_default_def

declare rq_defs [exec]

end
