(* ===== verification/Queue_Contract.thy ===== *)
theory Queue_Contract
  imports Request_Queue
begin

text \<open>
  The contract of \<open>async/detail/queue.hpp\<close>: what it promises as a bounded first-in first-out queue
  with deadlines.

  \<open>rq_rep q es\<close> relates a queue to the entries of its multimap in the order in which their requests
  were pushed: the multimap is the stable sorting of \<open>es\<close> by deadline, the list \<open>_ordered_requests\<close>
  holds their nodes in order, and each node points back to its entry and to itself. \<open>rq_contents\<close>
  is the abstract value, the waiting requests with their deadlines, oldest first. \<open>timer_effects\<close>
  follows the calls on the timers.
\<close>

subsection \<open>Sorting\<close>

lemma mm_insert_insort:
  "mm_insert x (insort_key entry_key y ys) = insort_key entry_key y (mm_insert x ys)"
  by (induction ys) auto

lemma mm_insert_sort: "mm_insert x (sort_key entry_key es) = sort_key entry_key (es @ [x])"
  by (induction es) (simp_all add: mm_insert_insort)

lemma takeWhile_sorted:
  "sorted (map f xs) \<Longrightarrow> takeWhile (\<lambda>x. f x \<le> t) xs = filter (\<lambda>x. f x \<le> t) xs"
proof (induction xs)
  case (Cons x xs)
  then show ?case
    by (cases "f x \<le> t") (simp, fastforce simp: filter_empty_conv intro!: sym [of "filter _ _" "[]"])
qed simp

lemma dropWhile_sorted:
  "sorted (map f xs) \<Longrightarrow> dropWhile (\<lambda>x. f x \<le> t) xs = filter (\<lambda>x. \<not> f x \<le> t) xs"
proof (induction xs)
  case (Cons x xs)
  then show ?case
    by (cases "f x \<le> t") (simp, fastforce simp: filter_id_conv intro!: sym [of "filter _ _" xs])
qed simp

lemma hd_sort_key: "es \<noteq> [] \<Longrightarrow> f (hd (sort_key f es)) = Min (f ` set es)"
proof -
  assume "es \<noteq> []"
  then obtain x xs where sk: "sort_key f es = x # xs"
    by (metis length_0_conv length_sort list.exhaust)
  then have "sorted (map f (x # xs))" and "set es = set (x # xs)"
    by (metis sorted_sort_key, metis set_sort)
  then show ?thesis
    by (simp add: sk) (intro sym [OF Min_insert2], auto)
qed

subsection \<open>Representation\<close>

definition request_ok :: "('c, 'q) request_queue \<Rightarrow> entry \<Rightarrow> bool" where
  "request_ok q x \<longleftrightarrow>
     er_order_it (rq_nodes q (entry_node x)) = Some (entry_node x)
     \<and> er_expires_at_it (rq_nodes q (entry_node x)) = Some (entry_id x)
     \<and> er_io_context (rq_nodes q (entry_node x)) \<noteq> None
     \<and> er_request (rq_nodes q (entry_node x)) \<noteq> None"

definition rq_rep :: "('c, 'q) request_queue \<Rightarrow> entry list \<Rightarrow> bool" where
  "rq_rep q es \<longleftrightarrow>
     nodes_of (length (rq_pool q) + length es) (rq_pool q @ rq_ordered q)
     \<and> map entry_node es = rq_ordered q
     \<and> rq_expires q = sort_key entry_key es
     \<and> distinct (map entry_id es)
     \<and> (\<forall>x \<in> set es. entry_id x < rq_next_entry q \<and> request_ok q x)
     \<and> length (rq_pool q) + length es \<le> rq_capacity q"

definition rq_inv :: "('c, 'q) request_queue \<Rightarrow> bool" where
  "rq_inv q \<longleftrightarrow> (\<exists>es. rq_rep q es)"

declare request_ok_def [inv_simps] rq_rep_def [inv_simps]

text \<open>The waiting requests, oldest first, with deadline and I/O context.\<close>

definition deadline_of :: "('c, 'q) request_queue \<Rightarrow> nat \<Rightarrow> time_point" where
  "deadline_of q r =
     (case er_expires_at_it (rq_nodes q r) of
        None \<Rightarrow> epoch
      | Some e \<Rightarrow>
          (case find (\<lambda>x. entry_id x = e) (rq_expires q) of None \<Rightarrow> epoch | Some x \<Rightarrow> entry_key x))"

definition rq_contents :: "('c, 'q) request_queue \<Rightarrow> (time_point \<times> 'c \<times> 'q) list" where
  "rq_contents q =
     map (\<lambda>r. (deadline_of q r, the (er_io_context (rq_nodes q r)), the (er_request (rq_nodes q r))))
       (rq_ordered q)"

declare deadline_of_def [exec] rq_contents_def [exec]

definition request_view :: "('c, 'q) request_queue \<Rightarrow> entry \<Rightarrow> time_point \<times> 'c \<times> 'q" where
  "request_view q x =
     (entry_key x, the (er_io_context (rq_nodes q (entry_node x))),
      the (er_request (rq_nodes q (entry_node x))))"

lemma find_distinct:
  "distinct (map f xs) \<Longrightarrow> x \<in> set xs \<Longrightarrow> find (\<lambda>y. f y = f x) xs = Some x"
  by (induction xs) auto

lemma find_entry:
  assumes "distinct (map entry_id es)" and "x \<in> set es"
  shows "find (\<lambda>y. entry_id y = entry_id x) (sort_key entry_key es) = Some x"
  using assms by (intro find_distinct) (simp_all add: distinct_map)

lemma rq_rep_contents:
  assumes "rq_rep q es"
  shows "rq_contents q = map (request_view q) es"
proof -
  have "deadline_of q (entry_node x) = entry_key x" if "x \<in> set es" for x
    using assms that find_entry [of es x] by (auto simp: rq_rep_def deadline_of_def request_ok_def)
  moreover have "rq_ordered q = map entry_node es"
    using assms by (simp add: rq_rep_def)
  ultimately show ?thesis
    by (auto simp: rq_contents_def request_view_def)
qed

lemma rq_rep_lengths:
  "rq_rep q es \<Longrightarrow> length (rq_expires q) = length es \<and> length (rq_ordered q) = length es
     \<and> length (rq_contents q) = length es"
  using rq_rep_contents [of q es] by (auto simp: rq_rep_def dest: arg_cong [where f = length])

lemma rq_rep_distinct:
  assumes "rq_rep q es"
  shows "distinct (rq_pool q @ map entry_node es)" and "distinct (map entry_node es)"
proof -
  have "distinct (rq_pool q @ rq_ordered q)" and "map entry_node es = rq_ordered q"
    using assms nodes_of_distinct unfolding rq_rep_def by blast+
  then show "distinct (rq_pool q @ map entry_node es)" and "distinct (map entry_node es)"
    by simp_all
qed

subsection \<open>Timers\<close>

text \<open>
  What the calls do to the timers: each I/O context has no timer, an idle one or one with a wait
  armed for a time point. Setting the expiry of a timer cancels its wait. A call on a timer that
  does not exist, or the creation of a second one, is \<open>None\<close>.
\<close>

type_synonym 'c timers = "'c \<Rightarrow> time_point option option"

fun timer_effect :: "('c, 't) asio_call \<Rightarrow> 'c timers \<Rightarrow> 'c timers option" where
  "timer_effect (Timer_Create c) m = (if m c = None then Some (m(c \<mapsto> None)) else None)"
| "timer_effect (Timer_Expires_At c t) m = (if m c = None then None else Some (m(c \<mapsto> None)))"
| "timer_effect (Timer_Async_Wait c t) m = (if m c = None then None else Some (m(c \<mapsto> Some t)))"
| "timer_effect (Timer_Cancel c) m = (if m c = None then None else Some (m(c \<mapsto> None)))"
| "timer_effect (Timer_Destroy c) m = (if m c = None then None else Some (m(c := None)))"
| "timer_effect (Post c t) m = Some m"
| "timer_effect (Dispatch c t) m = Some m"

fun timer_effects :: "('c, 't) asio_call list \<Rightarrow> 'c timers \<Rightarrow> 'c timers option" where
  "timer_effects [] m = Some m"
| "timer_effects (x # xs) m = Option.bind (timer_effect x m) (timer_effects xs)"

lemma timer_effects_append [simp]:
  "timer_effects (xs @ ys) m = Option.bind (timer_effects xs m) (timer_effects ys)"
proof (induction xs arbitrary: m)
  case (Cons x xs)
  then show ?case by (cases "timer_effect x m") simp_all
qed simp

text \<open>
  The timers are those of the queue, and while a request waits, some timer is armed for the earliest
  deadline.
\<close>

definition timers_ok :: "('c, 'q) request_queue \<Rightarrow> 'c timers \<Rightarrow> bool" where
  "timers_ok q m \<longleftrightarrow> (\<forall>c. m c \<noteq> None \<longleftrightarrow> c \<in> set (rq_timers q)) \<and> distinct (rq_timers q)"

definition timers_armed :: "('c, 'q) request_queue \<Rightarrow> 'c timers \<Rightarrow> bool" where
  "timers_armed q m \<longleftrightarrow>
     timers_ok q m
     \<and> (rq_expires q \<noteq> [] \<longrightarrow> (\<exists>c. m c = Some (Some (entry_key (hd (rq_expires q))))))"

declare timers_ok_def [inv_simps] timers_armed_def [inv_simps]

lemma timer_effects_cancel:
  "\<forall>c \<in> set cs. m c \<noteq> None \<Longrightarrow>
   timer_effects (map Timer_Cancel cs) m = Some (\<lambda>c. if c \<in> set cs then Some None else m c)"
  by (induction cs arbitrary: m) (auto simp: fun_eq_iff)

lemma timer_effects_destroy:
  "\<forall>c \<in> set cs. m c \<noteq> None \<Longrightarrow> distinct cs \<Longrightarrow>
   timer_effects (map Timer_Destroy cs) m = Some (\<lambda>c. if c \<in> set cs then None else m c)"
proof (induction cs arbitrary: m)
  case (Cons c cs)
  have "\<forall>d \<in> set cs. (m(c := None)) d \<noteq> None"
    using Cons.prems by auto
  moreover have "(\<lambda>d. if d \<in> set cs then None else (m(c := None)) d)
      = (\<lambda>d. if d \<in> set (c # cs) then None else m d)"
    by auto
  ultimately show ?case
    using Cons.IH [of "m(c := None)"] Cons.prems by (auto simp del: fun_upd_apply)
qed simp

lemma timer_effects_clear:
  assumes "\<forall>c. m c \<noteq> None \<longleftrightarrow> c \<in> set cs" and "distinct cs"
  shows "timer_effects (map Timer_Cancel cs @ map Timer_Destroy cs) m = Some (\<lambda>c. None)"
  using assms by (auto simp: timer_effects_cancel timer_effects_destroy fun_eq_iff)

lemma timer_effects_posts: "timer_effects (map (\<lambda>x. Post (f x) (g x)) xs) m = Some m"
  by (induction xs) auto

text \<open>The tasks among some calls.\<close>

fun posted :: "('c, 't) asio_call list \<Rightarrow> ('c \<times> 't) list" where
  "posted [] = []"
| "posted (Post c t # xs) = (c, t) # posted xs"
| "posted (Dispatch c t # xs) = (c, t) # posted xs"
| "posted (_ # xs) = posted xs"

lemma posted_append [simp]: "posted (xs @ ys) = posted xs @ posted ys"
  by (induction xs rule: posted.induct) simp_all

lemma posted_maps [simp]:
  "posted (map Timer_Cancel cs) = []" "posted (map Timer_Destroy cs) = []"
  "posted (map (\<lambda>x. Post (f x) (g x)) ys) = map (\<lambda>x. (f x, g x)) ys"
  by (induction cs; induction ys; simp)+

definition same_requests :: "('c, 'q) request_queue \<Rightarrow> ('c, 'q) request_queue \<Rightarrow> bool" where
  "same_requests q q' \<longleftrightarrow> (\<exists>cs. q' = q\<lparr>rq_timers := cs\<rparr>)"

lemma get_timer_ok:
  assumes "timers_ok q m"
  shows "\<exists>m'. timer_effects (snd (get_timer c q)) m = Some m' \<and> timers_ok (fst (get_timer c q)) m'
    \<and> m' c \<noteq> None \<and> (\<forall>d. d \<noteq> c \<longrightarrow> m' d = m d) \<and> (m c \<noteq> None \<longrightarrow> m' = m)"
    and "same_requests q (fst (get_timer c q))" and "posted (snd (get_timer c q)) = []"
proof -
  show "same_requests q (fst (get_timer c q))"
    unfolding same_requests_def get_timer_def
    by (cases "c \<in> set (rq_timers q)") (auto intro: exI [of _ "rq_timers q"])
qed (use assms in \<open>auto simp: get_timer_def timers_ok_def\<close>)

lemma update_timer_ok:
  assumes "timers_ok q m" and "\<forall>x \<in> set (rq_expires q). er_io_context (rq_nodes q (entry_node x)) \<noteq> None"
  shows "\<exists>q' calls m'. update_timer q = Inr (q', calls) \<and> same_requests q q' \<and> posted calls = []
    \<and> timer_effects calls m = Some m' \<and> timers_armed q' m'"
proof (cases "rq_expires q")
  case Nil
  have "timer_effects (map Timer_Cancel (rq_timers q) @ map Timer_Destroy (rq_timers q)) m
      = Some (\<lambda>c. None)"
    using assms(1) by (intro timer_effects_clear) (simp_all add: timers_ok_def)
  with Nil show ?thesis
    by (auto simp: update_timer_def same_requests_def timers_armed_def timers_ok_def)
next
  case (Cons x xs)
  obtain e t r where x: "x = (e, t, r)" by (cases x)
  with assms(2) Cons obtain c where c: "er_io_context (rq_nodes q r) = Some c" by auto
  obtain q' calls where g: "get_timer c q = (q', calls)" by (cases "get_timer c q")
  obtain m' where m': "timer_effects calls m = Some m'" "timers_ok q' m'" "m' c \<noteq> None"
    using get_timer_ok(1) [OF assms(1), of c] g by auto
  have same: "same_requests q q'" "posted calls = []"
    using get_timer_ok(2,3) [OF assms(1), of c] g by simp_all
  have "timers_armed q' (m'(c \<mapsto> Some t))"
    using m'(2,3) same(1) Cons x by (auto simp: timers_armed_def timers_ok_def same_requests_def)
  with Cons x c g m' same show ?thesis
    by (auto simp: update_timer_def)
qed

end
