(* ===== verification/Queue_Refinement.thy ===== *)
theory Queue_Refinement
  imports Queue_Contract
begin

text \<open>
  The operations of the request queue against their abstract specification on the list of waiting
  requests: \<open>push\<close> appends if there is room, \<open>pop\<close> takes the oldest, \<open>cancel\<close> removes those whose
  deadline has passed and completes them in the order of their deadlines.
\<close>

subsection \<open>Preparations\<close>

lemma same_requests_view:
  assumes "same_requests q q'"
  shows "rq_contents q' = rq_contents q" "rq_capacity q' = rq_capacity q"
    and "rq_expires q' = rq_expires q" "rq_rep q' es = rq_rep q es" "rq_inv q' = rq_inv q"
proof -
  obtain cs where q': "q' = q\<lparr>rq_timers := cs\<rparr>"
    using assms by (auto simp: same_requests_def)
  show "rq_rep q' es = rq_rep q es" for es
    by (simp add: q' rq_rep_def request_ok_def)
  then show "rq_inv q' = rq_inv q"
    by (simp add: rq_inv_def)
  have "deadline_of q' r = deadline_of q r" for r
    by (simp add: q' deadline_of_def split: option.split)
  then show "rq_contents q' = rq_contents q"
    by (simp add: q' rq_contents_def)
  show "rq_capacity q' = rq_capacity q" "rq_expires q' = rq_expires q"
    by (simp_all add: q')
qed

lemma rq_rep_io_context:
  "rq_rep q es \<Longrightarrow> \<forall>x \<in> set (rq_expires q). er_io_context (rq_nodes q (entry_node x)) \<noteq> None"
  by (simp add: rq_rep_def request_ok_def)

text \<open>Every operation ends with \<open>update_timer\<close> on a queue that represents some entries.\<close>

lemma rq_rep_update_timer:
  assumes "rq_rep q es" and "timers_ok q m"
  obtains q' calls m' where "update_timer q = Inr (q', calls)" "rq_inv q'"
    "rq_contents q' = map (request_view q) es" "rq_capacity q' = rq_capacity q" "posted calls = []"
    "timer_effects calls m = Some m'" "timers_armed q' m'"
proof -
  obtain q' calls m' where u: "update_timer q = Inr (q', calls)" "same_requests q q'"
    "posted calls = []" "timer_effects calls m = Some m'" "timers_armed q' m'"
    using update_timer_ok [OF assms(2) rq_rep_io_context [OF assms(1)]] by blast
  show thesis
    using that [OF u(1) _ _ _ u(3-5)] same_requests_view [OF u(2)] rq_rep_contents [OF assms(1)]
      assms(1) by (auto simp: rq_inv_def)
qed

lemma rq_rep_fit: "rq_rep q es \<Longrightarrow> fit_capacity q \<longleftrightarrow> length (rq_contents q) < rq_capacity q"
  by (simp add: fit_capacity_def rq_rep_lengths)

subsection \<open>Pushing\<close>

lemma emplace_rep:
  assumes rep: "rq_rep q es" and "rq_pool q = []" and "length es < rq_capacity q"
  shows "rq_rep (rq_emplace q) es" and "\<forall>x \<in> set es. request_view (rq_emplace q) x = request_view q x"
    and "rq_pool (rq_emplace q) \<noteq> []"
proof -
  have nodes: "nodes_of (length es) (rq_ordered q)" and ord: "map entry_node es = rq_ordered q"
    using rep assms(2) by (simp_all add: rq_rep_def)
  then have len: "length (rq_ordered q) = length es"
    by (metis length_map)
  have old: "entry_node x \<noteq> length es" if "x \<in> set es" for x
    using nodes_of_set [OF nodes] that ord by (metis atLeastLessThan_iff image_eqI less_irrefl set_map)
  have "nodes_of (Suc (length es)) (length es # rq_ordered q)"
    using nodes_of_snoc [OF nodes] len by (simp add: nodes_of_def)
  then show "rq_rep (rq_emplace q) es"
    using rep assms(2,3) old len by (auto simp: rq_rep_def rq_emplace_def request_ok_def Let_def)
  show "\<forall>x \<in> set es. request_view (rq_emplace q) x = request_view q x"
    using old assms(2) len by (auto simp: rq_emplace_def request_view_def Let_def)
  show "rq_pool (rq_emplace q) \<noteq> []"
    by (simp add: rq_emplace_def Let_def)
qed

definition pushed_state ::
  "'c \<Rightarrow> time_point \<Rightarrow> 'q \<Rightarrow> nat \<Rightarrow> nat list \<Rightarrow> ('c, 'q) request_queue \<Rightarrow> ('c, 'q) request_queue" where
  "pushed_state c d req r rest q =
     q\<lparr>rq_pool := rest, rq_ordered := rq_ordered q @ [r],
       rq_nodes := (rq_nodes q)(r := \<lparr>er_io_context = Some c, er_request = Some req,
                                      er_order_it = Some r, er_expires_at_it = Some (rq_next_entry q)\<rparr>),
       rq_expires := mm_insert (rq_next_entry q, d, r) (rq_expires q),
       rq_next_entry := Suc (rq_next_entry q)\<rparr>"

lemma pushed_state_rep:
  assumes rep: "rq_rep q es" and pool: "rq_pool q = r # rest"
  shows "rq_rep (pushed_state c d req r rest q) (es @ [(rq_next_entry q, d, r)])"
    and "map (request_view (pushed_state c d req r rest q)) (es @ [(rq_next_entry q, d, r)])
         = rq_contents q @ [(d, c, req)]"
proof -
  have old: "entry_node x \<noteq> r" if "x \<in> set es" for x
    using rq_rep_distinct(1) [OF rep] that pool by auto
  have "nodes_of (length rest + length (es @ [(rq_next_entry q, d, r)])) (rest @ rq_ordered q @ [r])"
    using rep pool by (simp add: rq_rep_def nodes_of_def)
  moreover have "distinct (map entry_id (es @ [(rq_next_entry q, d, r)]))"
    using rep by (auto simp: rq_rep_def)
  ultimately show "rq_rep (pushed_state c d req r rest q) (es @ [(rq_next_entry q, d, r)])"
    using rep pool old
    by (auto simp: rq_rep_def pushed_state_def request_ok_def mm_insert_sort less_SucI)
  show "map (request_view (pushed_state c d req r rest q)) (es @ [(rq_next_entry q, d, r)])
      = rq_contents q @ [(d, c, req)]"
    using old by (auto simp: rq_rep_contents [OF rep] request_view_def pushed_state_def)
qed

lemma rq_push_ok:
  assumes inv: "rq_inv q" and timers: "timers_armed q m"
  obtains q' calls m' where
    "rq_push c w now req q = Inr (length (rq_contents q) < rq_capacity q, q', calls)"
    "rq_inv q'" "rq_capacity q' = rq_capacity q" "posted calls = []"
    "rq_contents q' = (if length (rq_contents q) < rq_capacity q
       then rq_contents q @ [(add now w, c, req)] else rq_contents q)"
    "timer_effects calls m = Some m'" "timers_armed q' m'"
proof -
  obtain es where rep: "rq_rep q es"
    using inv by (auto simp: rq_inv_def)
  show thesis
  proof (cases "length (rq_contents q) < rq_capacity q")
    case False
    then show thesis
      using that inv timers rq_rep_fit [OF rep] by (simp add: rq_push_def)
  next
    case True
    define q1 where "q1 = (if rq_pool q = [] then rq_emplace q else q)"
    have lens: "length es < rq_capacity q"
      using True rq_rep_lengths [OF rep] by simp
    have q1: "rq_rep q1 es" "rq_pool q1 \<noteq> []" "\<forall>x \<in> set es. request_view q1 x = request_view q x"
      using emplace_rep [OF rep _ lens] rep by (auto simp: q1_def)
    then obtain r rest where pool: "rq_pool q1 = r # rest"
      by (cases "rq_pool q1") auto
    have same: "rq_contents q1 = rq_contents q" "rq_capacity q1 = rq_capacity q"
      "rq_timers q1 = rq_timers q"
      using q1(3) rq_rep_contents [OF q1(1)] rq_rep_contents [OF rep]
      by (simp_all add: q1_def rq_emplace_def Let_def)
    define q2 where "q2 = pushed_state c (add now w) req r rest q1"
    have "timers_ok q2 m"
      using timers same(3) by (simp add: q2_def pushed_state_def timers_armed_def timers_ok_def)
    then obtain q' calls m' where "update_timer q2 = Inr (q', calls)" "rq_inv q'"
      "rq_contents q' = map (request_view q2) (es @ [(rq_next_entry q1, add now w, r)])"
      "rq_capacity q' = rq_capacity q2" "posted calls = []" "timer_effects calls m = Some m'"
      "timers_armed q' m'"
      using rq_rep_update_timer [OF pushed_state_rep(1) [OF q1(1) pool]] unfolding q2_def by metis
    moreover have "rq_capacity q2 = rq_capacity q"
      "map (request_view q2) (es @ [(rq_next_entry q1, add now w, r)])
         = rq_contents q @ [(add now w, c, req)]"
      unfolding q2_def pushed_state_rep(2) [OF q1(1) pool] by (simp_all add: same pushed_state_def)
    moreover from calculation(1) have "rq_push c w now req q = Inr (True, q', calls)"
      using True rq_rep_fit [OF rep] pool
      by (simp add: rq_push_def Let_def q1_def [symmetric] q2_def pushed_state_def)
    ultimately show thesis
      using that True by simp
  qed
qed

subsection \<open>Popping\<close>

definition popped_state :: "entry \<Rightarrow> nat list \<Rightarrow> ('c, 'q) request_queue \<Rightarrow> ('c, 'q) request_queue" where
  "popped_state x rest q =
     q\<lparr>rq_nodes := (rq_nodes q)(entry_node x := (rq_nodes q (entry_node x))\<lparr>er_request := None\<rparr>),
       rq_expires := filter (\<lambda>y. entry_id y \<noteq> entry_id x) (rq_expires q),
       rq_pool := entry_node x # rq_pool q, rq_ordered := rest\<rparr>"

lemma popped_rep:
  assumes rep: "rq_rep q (x # es)"
  shows "rq_rep (popped_state x (map entry_node es) q) es"
    and "map (request_view (popped_state x (map entry_node es) q)) es = map (request_view q) es"
proof -
  have other: "entry_node y \<noteq> entry_node x" "entry_id y \<noteq> entry_id x" if "y \<in> set es" for y
    using rq_rep_distinct(2) [OF rep] rep that unfolding rq_rep_def by (simp, metis image_eqI)+
  have "filter (\<lambda>y. entry_id y \<noteq> entry_id x) (x # es) = es"
    using other(2) by (simp add: filter_id_conv)
  then have "filter (\<lambda>y. entry_id y \<noteq> entry_id x) (rq_expires q) = sort_key entry_key es"
    using rep filter_sort [of "\<lambda>y. entry_id y \<noteq> entry_id x" entry_key "x # es"]
    by (simp add: rq_rep_def)
  moreover have "nodes_of (length (entry_node x # rq_pool q) + length es)
      ((entry_node x # rq_pool q) @ map entry_node es)"
  proof -
    have "nodes_of (length (rq_pool q) + length (x # es)) (rq_pool q @ rq_ordered q)"
      and "rq_ordered q = entry_node x # map entry_node es"
      using rep by (simp_all add: rq_rep_def)
    then show ?thesis by (simp add: nodes_of_def)
  qed
  ultimately show "rq_rep (popped_state x (map entry_node es) q) es"
    using rep other by (auto simp: rq_rep_def request_ok_def popped_state_def)
  show "map (request_view (popped_state x (map entry_node es) q)) es = map (request_view q) es"
    using other(1) by (auto simp: request_view_def popped_state_def)
qed

lemma rq_pop_ok:
  assumes inv: "rq_inv q" and timers: "timers_armed q m"
  obtains q' calls m' where
    "rq_pop q = Inr (case rq_contents q of [] \<Rightarrow> None | (d, c, req) # _ \<Rightarrow> Some (req, c), q', calls)"
    "rq_inv q'" "rq_capacity q' = rq_capacity q" "posted calls = []"
    "rq_contents q' = tl (rq_contents q)"
    "timer_effects calls m = Some m'" "timers_armed q' m'"
proof -
  obtain es where rep: "rq_rep q es"
    using inv by (auto simp: rq_inv_def)
  show thesis
  proof (cases es)
    case Nil
    then have "rq_contents q = []" "rq_ordered q = []"
      using rq_rep_lengths [OF rep] by auto
    then show thesis
      using that inv timers by (simp add: rq_pop_def)
  next
    case (Cons x es')
    note rep = rep [unfolded Cons]
    obtain e d r where x: "x = (e, d, r)" by (cases x)
    obtain req c where node: "er_request (rq_nodes q r) = Some req"
      "er_io_context (rq_nodes q r) = Some c" "er_expires_at_it (rq_nodes q r) = Some e"
      using rep by (auto simp: rq_rep_def request_ok_def x)
    have ord: "rq_ordered q = r # map entry_node es'" and mem: "e \<in> entry_id ` set (rq_expires q)"
      using rep by (auto simp: rq_rep_def x set_insort_key)
    define q1 where "q1 = popped_state x (map entry_node es') q"
    have q1: "rq_rep q1 es'" "map (request_view q1) es' = tl (rq_contents q)"
      using popped_rep [OF rep] rq_rep_contents [OF rep] by (simp_all add: q1_def)
    have "timers_ok q1 m"
      using timers by (simp add: q1_def popped_state_def timers_armed_def timers_ok_def)
    with q1(1) obtain q' calls m' where "update_timer q1 = Inr (q', calls)" "rq_inv q'"
      "rq_contents q' = map (request_view q1) es'" "rq_capacity q' = rq_capacity q1"
      "posted calls = []" "timer_effects calls m = Some m'" "timers_armed q' m'"
      by (rule rq_rep_update_timer)
    moreover have "rq_capacity q1 = rq_capacity q"
      by (simp add: q1_def popped_state_def)
    moreover from calculation(1) have "rq_pop q = Inr (Some (req, c), q', calls)"
      using node ord mem by (simp add: rq_pop_def mm_erase_def q1_def popped_state_def x)
    moreover have "rq_contents q = (d, c, req) # tl (rq_contents q)"
      using node rq_rep_contents [OF rep] by (simp add: x request_view_def)
    ultimately show thesis
      using that q1(2) by (metis (no_types, lifting) list.simps(5) split_conv)
  qed
qed

subsection \<open>Expiring\<close>

text \<open>The effect of the loop of \<open>cancel\<close> on the requests of the entries \<open>xs\<close>.\<close>

definition expired_state :: "entry list \<Rightarrow> ('c, 'q) request_queue \<Rightarrow> ('c, 'q) request_queue" where
  "expired_state xs q =
     q\<lparr>rq_nodes := (\<lambda>r. if r \<in> entry_node ` set xs then (rq_nodes q r)\<lparr>er_request := None\<rparr>
                      else rq_nodes q r),
       rq_pool := rev (map entry_node xs) @ rq_pool q,
       rq_ordered := filter (\<lambda>r. r \<notin> entry_node ` set xs) (rq_ordered q)\<rparr>"

definition expired_call :: "time_point \<times> 'c \<times> 'q \<Rightarrow> ('c, 'q expired_handler) asio_call" where
  "expired_call = (\<lambda>(d, c, req). Post c (Expired_Handler req))"

lemma expire_requests_eq:
  "distinct (map entry_node xs) \<Longrightarrow> distinct (rq_ordered q) \<Longrightarrow>
   set (map entry_node xs) \<subseteq> set (rq_ordered q) \<Longrightarrow> \<forall>x \<in> set xs. request_ok q x \<Longrightarrow>
   expire_requests (map entry_node xs) q =
     Inr (expired_state xs q, map (\<lambda>x. expired_call (request_view q x)) xs)"
proof (induction xs arbitrary: q)
  case Nil
  then show ?case by (simp add: expired_state_def)
next
  case (Cons x xs)
  let ?r = "entry_node x"
  define q1 where "q1 = expired_state [x] q"
  obtain c req where node: "er_io_context (rq_nodes q ?r) = Some c" "er_request (rq_nodes q ?r) = Some req"
    "er_order_it (rq_nodes q ?r) = Some ?r"
    using Cons.prems(4) by (auto simp: request_ok_def)
  have mem: "?r \<in> set (rq_ordered q)"
    using Cons.prems(3) by simp
  have "remove1 ?r (rq_ordered q) = filter (\<lambda>r. r \<noteq> ?r) (rq_ordered q)"
    using Cons.prems(2)
    by (auto simp: distinct_remove1_removeAll removeAll_filter_not_eq intro: filter_cong)
  moreover have "(rq_nodes q)(?r := (rq_nodes q ?r)\<lparr>er_request := None\<rparr>)
      = (\<lambda>r. if r = ?r then (rq_nodes q r)\<lparr>er_request := None\<rparr> else rq_nodes q r)"
    by auto
  ultimately have one: "expire_request ?r q = Inr (q1, [expired_call (request_view q x)])"
    using node mem
    by (simp add: expire_request_def q1_def expired_state_def expired_call_def request_view_def)
  have other: "entry_node y \<noteq> ?r" if "y \<in> set xs" for y
    using Cons.prems(1) that by (metis distinct.simps(2) image_eqI list.simps(9) set_map)
  have "expire_requests (map entry_node xs) q1 =
      Inr (expired_state xs q1, map (\<lambda>y. expired_call (request_view q1 y)) xs)"
    using Cons.prems other
    by (intro Cons.IH) (auto simp: q1_def expired_state_def request_ok_def)
  moreover have "expired_state xs q1 = expired_state (x # xs) q"
    by (auto simp: q1_def expired_state_def fun_eq_iff intro!: filter_cong)
  moreover have "map (\<lambda>y. expired_call (request_view q1 y)) xs
      = map (\<lambda>y. expired_call (request_view q y)) xs"
    using other by (auto simp: q1_def expired_state_def request_view_def)
  ultimately show ?case
    using one by simp
qed

lemma filter_nodes:
  "distinct (map entry_node es) \<Longrightarrow>
   filter (\<lambda>r. r \<notin> entry_node ` set (filter P es)) (map entry_node es)
     = map entry_node (filter (\<lambda>x. \<not> P x) es)"
proof -
  assume dist: "distinct (map entry_node es)"
  have "entry_node x \<in> entry_node ` set (filter P es) \<longleftrightarrow> P x" if "x \<in> set es" for x
    using dist that by (auto simp: distinct_map inj_on_def)
  then show ?thesis
    by (auto simp: filter_map o_def intro!: arg_cong [where f = "map entry_node"] filter_cong)
qed

text \<open>The queue after the expired entries are gone from the multimap as well.\<close>

lemma cancelled_rep:
  assumes rep: "rq_rep q es"
    and later: "later = filter (\<lambda>x. \<not> entry_key x \<le> t) es"
    and expired: "set expired = set (filter (\<lambda>x. entry_key x \<le> t) es)" "distinct expired"
  shows "rq_rep (expired_state expired q\<lparr>rq_expires := sort_key entry_key later\<rparr>) later"
    and "map (request_view (expired_state expired q\<lparr>rq_expires := sort_key entry_key later\<rparr>)) later
         = map (request_view q) later"
proof -
  let ?q = "expired_state expired q\<lparr>rq_expires := sort_key entry_key later\<rparr>"
  note dist = rq_rep_distinct [OF rep]
  have ord: "rq_ordered q = map entry_node es"
    using rep by (simp add: rq_rep_def)
  have ordered: "rq_ordered ?q = map entry_node later"
    using filter_nodes [OF dist(2), of "\<lambda>x. entry_key x \<le> t"] expired(1) later
    by (simp add: expired_state_def ord)
  have "inj_on entry_node (set es)" and "distinct es"
    using dist(2) by (simp_all add: distinct_map)
  then have kept: "entry_node x \<notin> entry_node ` set expired" if "x \<in> set later" for x
    using that by (auto simp: later expired(1) dest: inj_onD)
  have "mset expired = mset (filter (\<lambda>x. entry_key x \<le> t) es)"
    using expired \<open>distinct es\<close>
    by (intro iffD1 [OF set_eq_iff_mset_eq_distinct]) simp_all
  then have split: "mset es = mset expired + mset later"
    by (simp add: later multiset_partition [of "mset es" "\<lambda>x. entry_key x \<le> t", symmetric])
  then have "mset (rq_pool ?q @ rq_ordered ?q) = mset (rq_pool q @ rq_ordered q)"
    unfolding ordered by (simp add: ord expired_state_def)
  moreover have lens: "length (rq_pool ?q) + length later = length (rq_pool q) + length es"
    using arg_cong [OF split, of size] by (simp add: expired_state_def)
  ultimately have "nodes_of (length (rq_pool ?q) + length later) (rq_pool ?q @ rq_ordered ?q)"
    using rep by (simp add: rq_rep_def nodes_of_def)
  then show "rq_rep ?q later"
    using rep lens kept ordered
    by (auto simp: rq_rep_def later request_ok_def distinct_map_filter)
      (auto simp: expired_state_def request_ok_def)
  show "map (request_view ?q) later = map (request_view q) later"
    using kept by (auto simp: request_view_def expired_state_def)
qed

lemma map_sort_key: "map f (sort_key (\<lambda>x. g (f x)) xs) = sort_key g (map f xs)"
proof (induction xs)
  case (Cons x xs)
  have "map f (insort_key (\<lambda>x. g (f x)) x ys) = insort_key g (f x) (map f ys)" for ys
    by (induction ys) simp_all
  with Cons show ?case by simp
qed simp

definition due :: "time_point \<Rightarrow> (time_point \<times> 'c \<times> 'q) list \<Rightarrow> (time_point \<times> 'c \<times> 'q) list" where
  "due t xs = sort_key fst (filter (\<lambda>x. fst x \<le> t) xs)"

lemma rq_cancel_ok:
  assumes inv: "rq_inv q" and timers: "timers_ok q m"
  obtains q' calls m' where "rq_cancel no_error t q = Inr (q', calls)"
    "rq_inv q'" "rq_capacity q' = rq_capacity q"
    "rq_contents q' = filter (\<lambda>x. \<not> fst x \<le> t) (rq_contents q)"
    "posted calls = map (\<lambda>(d, c, req). (c, Expired_Handler req)) (due t (rq_contents q))"
    "timer_effects calls m = Some m'" "timers_armed q' m'"
proof -
  obtain es where rep: "rq_rep q es"
    using inv by (auto simp: rq_inv_def)
  let ?P = "\<lambda>x. entry_key x \<le> t"
  define expired where "expired = filter ?P (sort_key entry_key es)"
  define later where "later = filter (\<lambda>x. \<not> ?P x) es"
  define q1 where "q1 = expired_state expired q"
  have ord: "rq_ordered q = map entry_node es" and exp: "rq_expires q = sort_key entry_key es"
    and ok: "\<forall>x \<in> set es. request_ok q x"
    using rep by (simp_all add: rq_rep_def)
  have sorted: "sorted (map entry_key (sort_key entry_key es))"
    by (rule sorted_sort_key)
  have dist: "distinct es" "distinct (map entry_node es)" "distinct (map entry_node (sort_key entry_key es))"
    using rq_rep_distinct(2) [OF rep] by (auto simp: distinct_map)
  have first: "takeWhile ?P (rq_expires q) = expired"
    using takeWhile_sorted [OF sorted] by (simp add: exp expired_def)
  have rest: "drop (length expired) (rq_expires q) = sort_key entry_key later"
    using dropWhile_sorted [OF sorted, of t] filter_sort [of "\<lambda>x. \<not> ?P x" entry_key es]
    by (simp add: exp later_def flip: first dropWhile_eq_drop)
  have exp_set: "set expired = set (filter ?P es)" "distinct expired"
    using dist(1) by (auto simp: expired_def)
  have loop: "expire_requests (map entry_node expired) q
      = Inr (q1, map (\<lambda>x. expired_call (request_view q x)) expired)"
    unfolding q1_def
  proof (rule expire_requests_eq)
    show "distinct (map entry_node expired)"
      using dist(3) by (simp add: expired_def distinct_map_filter)
  qed (use dist(2) ord ok exp_set(1) in auto)
  let ?q2 = "q1\<lparr>rq_expires := sort_key entry_key later\<rparr>"
  note rep2 = cancelled_rep [OF rep later_def exp_set, folded q1_def]
  have "timers_ok ?q2 m"
    using timers by (simp add: q1_def expired_state_def timers_ok_def)
  with rep2(1) obtain q' calls m' where u: "update_timer ?q2 = Inr (q', calls)" "rq_inv q'"
    "rq_contents q' = map (request_view ?q2) later" "rq_capacity q' = rq_capacity ?q2"
    "posted calls = []" "timer_effects calls m = Some m'" "timers_armed q' m'"
    by (rule rq_rep_update_timer)
  let ?calls = "map (\<lambda>x. expired_call (request_view q x)) expired"
  have "rq_expires q1 = rq_expires q"
    by (simp add: q1_def expired_state_def)
  then have "rq_cancel no_error t q = Inr (q', ?calls @ calls)"
    using loop u(1) by (simp add: rq_cancel_def Let_def first rest)
  moreover have "rq_contents q' = filter (\<lambda>x. \<not> fst x \<le> t) (rq_contents q)"
  proof -
    have "rq_contents q' = map (request_view q) later"
      unfolding u(3) rep2(2) ..
    then show ?thesis
      by (simp add: rq_rep_contents [OF rep] later_def filter_map o_def request_view_def)
  qed
  moreover have "posted ?calls = map (\<lambda>(d, c, req). (c, Expired_Handler req)) (due t (rq_contents q))"
  proof -
    have "due t (rq_contents q) = map (request_view q) expired"
      using map_sort_key [of "request_view q" fst "filter ?P es"]
      by (simp add: due_def rq_rep_contents [OF rep] filter_map o_def request_view_def expired_def
          filter_sort [of ?P entry_key])
    then show ?thesis
      by (simp add: expired_call_def case_prod_unfold o_def)
  qed
  moreover have "timer_effects ?calls m = Some m"
    by (simp add: expired_call_def case_prod_unfold timer_effects_posts)
  ultimately show thesis
    using that [of q' "?calls @ calls" m'] u by (simp add: q1_def expired_state_def)
qed

lemma rq_cancel_failed: "failed ec \<Longrightarrow> rq_cancel ec t q = Inr (q, [])"
  by (simp add: rq_cancel_def)

lemma rq_timer_ok:
  assumes "rq_inv q" and "timers_armed q m"
  obtains q' calls m' where "rq_timer c q = (q', calls)" "rq_inv q'" "rq_capacity q' = rq_capacity q"
    "rq_contents q' = rq_contents q" "posted calls = []" "timer_effects calls m = Some m'"
    "timers_armed q' m'"
proof -
  obtain q' calls where g: "get_timer c q = (q', calls)" by (cases "get_timer c q")
  have ok: "timers_ok q m" and armed: "rq_expires q \<noteq> [] \<longrightarrow> (\<exists>d. m d = Some (Some (entry_key (hd (rq_expires q)))))"
    using assms(2) by (simp_all add: timers_armed_def)
  note same = same_requests_view [OF get_timer_ok(2) [OF ok, of c]]
  obtain m' where m': "timer_effects calls m = Some m'" "timers_ok q' m'" "\<forall>d. d \<noteq> c \<longrightarrow> m' d = m d"
    "m c \<noteq> None \<longrightarrow> m' = m"
    using get_timer_ok(1) [OF ok, of c] g by auto
  have "m' d = m d" if "m d \<noteq> None" for d
    using m'(3,4) that by (cases "d = c") auto
  then have "timers_armed q' m'"
    using armed m'(2) same(3) g by (auto simp: timers_armed_def) (metis option.distinct(1))
  then show thesis
    using that [of q' calls m'] same g assms(1) m'(1) get_timer_ok(3) [OF ok, of c]
    by (simp add: rq_timer_def)
qed

lemma rq_new_ok: "rq_inv (rq_new n)" "timers_armed (rq_new n) (\<lambda>_. None)"
  by (auto simp: rq_inv_def rq_rep_def rq_new_def timers_armed_def timers_ok_def nodes_of_def)

lemma rq_new_fields [simp]: "rq_contents (rq_new n) = []" "rq_capacity (rq_new n) = n"
  by (simp_all add: rq_new_def rq_contents_def)

lemma rq_size_contents: "rq_inv q \<Longrightarrow> rq_size q = length (rq_contents q)"
  by (auto simp: rq_inv_def rq_size_def rq_rep_lengths)

lemma rq_empty_contents: "rq_inv q \<Longrightarrow> rq_empty q \<longleftrightarrow> rq_contents q = []"
  by (simp add: rq_empty_def rq_contents_def)

lemma rq_contents_bound: "rq_inv q \<Longrightarrow> length (rq_contents q) \<le> rq_capacity q"
  by (auto simp: rq_inv_def rq_rep_lengths) (auto simp: rq_rep_def)

lemma earliest_deadline:
  assumes "rq_inv q" and "rq_contents q \<noteq> []"
  shows "rq_expires q \<noteq> [] \<and> entry_key (hd (rq_expires q)) = Min (fst ` set (rq_contents q))"
proof -
  obtain es where rep: "rq_rep q es"
    using assms(1) by (auto simp: rq_inv_def)
  then have "es \<noteq> []" and "rq_expires q = sort_key entry_key es"
    using assms(2) rq_rep_lengths [OF rep] rep by (auto simp: rq_rep_def)
  moreover have "fst ` set (rq_contents q) = entry_key ` set es"
    by (auto simp: rq_rep_contents [OF rep] request_view_def image_image)
  ultimately show ?thesis
    using hd_sort_key [of es entry_key] by (metis length_0_conv length_sort)
qed

end
