(* ===== verification/Deadline_Queue.thy ===== *)
theory Deadline_Queue
  imports Queue_Refinement
begin

text \<open>
  The interface the asynchronous pool uses of its queue, as a locale, and its interpretation by
  \<open>async/detail/queue.hpp\<close>; then arbitrary sequences of operations on a queue.

  \<open>deadline_queue\<close> speaks of the waiting requests with their deadlines, oldest first: a push appends if
  there is room, a pop takes the oldest, the end of a timer's wait completes those that are due, and
  no operation faults. The facts of its interpretation are called \<open>requests\<close>.
\<close>

subsection \<open>The interface\<close>

locale deadline_queue =
  fixes push_op :: "'c \<Rightarrow> duration \<Rightarrow> time_point \<Rightarrow> 'q \<Rightarrow> 's \<Rightarrow> (bool \<times> 's \<times> 'o list) result"
    and pop_op :: "'s \<Rightarrow> (('q \<times> 'c) option \<times> 's \<times> 'o list) result"
    and cancel_op :: "error_code \<Rightarrow> time_point \<Rightarrow> 's \<Rightarrow> ('s \<times> 'o list) result"
    and contents :: "'s \<Rightarrow> (time_point \<times> 'c \<times> 'q) list"
    and capacity :: "'s \<Rightarrow> nat"
    and tasks :: "'o list \<Rightarrow> ('c \<times> 'q expired_handler) list"
    and inv :: "'s \<Rightarrow> bool"
  assumes push_law: "inv s \<Longrightarrow>
      \<exists>s' out. push_op c w now req s = Inr (length (contents s) < capacity s, s', out)
        \<and> inv s' \<and> capacity s' = capacity s \<and> tasks out = []
        \<and> contents s' = (if length (contents s) < capacity s
                         then contents s @ [(add now w, c, req)] else contents s)"
    and pop_law: "inv s \<Longrightarrow>
      \<exists>s' out. pop_op s = Inr (map_option (\<lambda>(d, c, req). (req, c)) (List.find (\<lambda>_. True) (contents s)), s', out)
        \<and> inv s' \<and> capacity s' = capacity s \<and> tasks out = [] \<and> contents s' = tl (contents s)"
    and cancel_law: "inv s \<Longrightarrow> \<not> failed ec \<Longrightarrow>
      \<exists>s' out. cancel_op ec t s = Inr (s', out) \<and> inv s' \<and> capacity s' = capacity s
        \<and> tasks out = map (\<lambda>(d, c, req). (c, Expired_Handler req)) (due t (contents s))
        \<and> contents s' = filter (\<lambda>x. \<not> fst x \<le> t) (contents s)"
    and cancel_aborted: "failed ec \<Longrightarrow> cancel_op ec t s = Inr (s, [])"
    and contents_bound: "inv s \<Longrightarrow> length (contents s) \<le> capacity s"
begin

lemma pop_empty:
  "inv s \<Longrightarrow> contents s = [] \<Longrightarrow>
   \<exists>s' out. pop_op s = Inr (None, s', out) \<and> inv s' \<and> capacity s' = capacity s \<and> tasks out = []
     \<and> contents s' = []"
  using pop_law [of s] by auto

lemma pop_oldest:
  "inv s \<Longrightarrow> contents s = (d, c, req) # xs \<Longrightarrow>
   \<exists>s' out. pop_op s = Inr (Some (req, c), s', out) \<and> inv s' \<and> capacity s' = capacity s
     \<and> tasks out = [] \<and> contents s' = xs"
  using pop_law [of s] by auto

lemma pop_contents:
  "inv s \<Longrightarrow> pop_op s = Inr (r, s', out) \<Longrightarrow>
   inv s' \<and> capacity s' = capacity s \<and> tasks out = [] \<and> contents s' = tl (contents s)
   \<and> (r = None \<longleftrightarrow> contents s = [])
   \<and> (\<forall>req c. r = Some (req, c) \<longrightarrow> (\<exists>d. contents s = (d, c, req) # contents s'))"
  using pop_law [of s] by (cases "contents s") auto

lemma push_contents:
  "inv s \<Longrightarrow> push_op c w now req s = Inr (b, s', out) \<Longrightarrow>
   inv s' \<and> capacity s' = capacity s \<and> tasks out = [] \<and> (b \<longleftrightarrow> length (contents s) < capacity s)
   \<and> contents s' = (if b then contents s @ [(add now w, c, req)] else contents s)"
  using push_law [of s c w now req] by auto

lemma cancel_contents:
  "inv s \<Longrightarrow> cancel_op ec t s = Inr (s', out) \<Longrightarrow>
   inv s' \<and> capacity s' = capacity s
   \<and> contents s' = (if failed ec then contents s else filter (\<lambda>x. \<not> fst x \<le> t) (contents s))
   \<and> (\<not> failed ec \<longrightarrow>
        tasks out = map (\<lambda>(d, c, req). (c, Expired_Handler req)) (due t (contents s)))
   \<and> (failed ec \<longrightarrow> out = [])"
  using cancel_law [of s ec t] cancel_aborted [of ec t s] by (cases "failed ec") auto

lemma never_faults:
  "inv s \<Longrightarrow> \<exists>x. push_op c w now req s = Inr x" "inv s \<Longrightarrow> \<exists>x. pop_op s = Inr x"
  "inv s \<Longrightarrow> \<exists>x. cancel_op ec t s = Inr x"
  using push_law pop_law cancel_law [of s ec t] cancel_aborted [of ec t s] by blast+

end

definition rq_sound :: "('c, 'q) request_queue \<Rightarrow> bool" where
  "rq_sound q \<longleftrightarrow> rq_inv q \<and> (\<exists>m. timers_armed q m)"

declare rq_sound_def [inv_simps]

interpretation requests: deadline_queue rq_push rq_pop rq_cancel rq_contents rq_capacity posted rq_sound
proof unfold_locales
  fix s :: "('c, 'q) request_queue" and c w now req ec t
  show "failed ec \<Longrightarrow> rq_cancel ec t s = Inr (s, [])"
    by (rule rq_cancel_failed)
  assume s: "rq_sound s"
  then obtain m where inv: "rq_inv s" and m: "timers_armed s m"
    by (auto simp: rq_sound_def)
  show "length (rq_contents s) \<le> rq_capacity s"
    using inv by (rule rq_contents_bound)
  show "\<exists>s' out. rq_push c w now req s = Inr (length (rq_contents s) < rq_capacity s, s', out)
      \<and> rq_sound s' \<and> rq_capacity s' = rq_capacity s \<and> posted out = []
      \<and> rq_contents s' = (if length (rq_contents s) < rq_capacity s
                          then rq_contents s @ [(add now w, c, req)] else rq_contents s)"
    by (rule rq_push_ok [OF inv m, of c w now req]) (auto simp: rq_sound_def)
  show "\<exists>s' out. rq_pop s = Inr (map_option (\<lambda>(d, c, req). (req, c))
        (List.find (\<lambda>_. True) (rq_contents s)), s', out)
      \<and> rq_sound s' \<and> rq_capacity s' = rq_capacity s \<and> posted out = []
      \<and> rq_contents s' = tl (rq_contents s)"
    by (rule rq_pop_ok [OF inv m]) (auto simp: rq_sound_def split: list.splits)
  show "\<exists>s' out. rq_cancel ec t s = Inr (s', out) \<and> rq_sound s' \<and> rq_capacity s' = rq_capacity s
      \<and> posted out = map (\<lambda>(d, c, req). (c, Expired_Handler req)) (due t (rq_contents s))
      \<and> rq_contents s' = filter (\<lambda>x. \<not> fst x \<le> t) (rq_contents s)" if ec: "\<not> failed ec"
  proof -
    have same: "rq_cancel ec t s = rq_cancel no_error t s"
      using ec by (simp add: rq_cancel_def)
    have "timers_ok s m"
      using m by (simp add: timers_armed_def)
    from rq_cancel_ok [OF inv this, of t] show ?thesis
      unfolding same by (metis rq_sound_def)
  qed
qed

subsection \<open>Runs\<close>

text \<open>
  What can happen to a queue, in any order: pushes, pops, the end of a wait on the timer of an I/O
  context (with the error code and the deadline it was armed for) and a use of the accessor \<open>timer\<close>.
\<close>

datatype ('c, 'q) queue_event =
    Q_Push 'c duration time_point 'q
  | Q_Pop
  | Q_Wait_Done 'c error_code time_point
  | Q_Timer 'c

datatype ('c, 'q) queue_output =
    Pushed bool
  | Popped "('q \<times> 'c) option"
  | Expired "('c \<times> 'q expired_handler) list"
  | Silent

fun rq_step ::
  "('c, 'q) queue_event \<Rightarrow> ('c, 'q) request_queue \<Rightarrow>
   (('c, 'q) queue_output \<times> ('c, 'q) request_queue \<times> ('c, 'q expired_handler) asio_call list) result"
where
  "rq_step (Q_Push c w now req) q =
     and_then (rq_push c w now req q) (\<lambda>(b, q', calls). Inr (Pushed b, q', calls))"
| "rq_step Q_Pop q = and_then (rq_pop q) (\<lambda>(r, q', calls). Inr (Popped r, q', calls))"
| "rq_step (Q_Wait_Done c ec t) q =
     and_then (rq_cancel ec t q) (\<lambda>(q', calls). Inr (Expired (posted calls), q', calls))"
| "rq_step (Q_Timer c) q = (case rq_timer c q of (q', calls) \<Rightarrow> Inr (Silent, q', calls))"

text \<open>
  A wait that ended by expiry is no longer armed; one that was cancelled had been replaced or its
  timer destroyed before.
\<close>

fun event_timers :: "('c, 'q) queue_event \<Rightarrow> 'c timers \<Rightarrow> 'c timers" where
  "event_timers (Q_Wait_Done c ec t) m =
     (if failed ec then m else m(c := map_option (\<lambda>_. None) (m c)))"
| "event_timers _ m = m"

fun rq_run ::
  "('c, 'q) queue_event list \<Rightarrow> ('c, 'q) request_queue \<Rightarrow> 'c timers \<Rightarrow>
   (('c, 'q) queue_output list \<times> ('c, 'q) request_queue \<times> 'c timers option) result"
where
  "rq_run [] q m = Inr ([], q, Some m)"
| "rq_run (x # xs) q m =
     and_then (rq_step x q) (\<lambda>(out, q', calls).
       case timer_effects calls (event_timers x m) of
         None \<Rightarrow> Inr ([out], q', None)
       | Some m' \<Rightarrow>
           and_then (rq_run xs q' m') (\<lambda>(outs, q'', m''). Inr (out # outs, q'', m'')))"

text \<open>The specification: a bounded list of waiting requests.\<close>

fun fifo_step ::
  "nat \<Rightarrow> ('c, 'q) queue_event \<Rightarrow> (time_point \<times> 'c \<times> 'q) list \<Rightarrow>
   ('c, 'q) queue_output \<times> (time_point \<times> 'c \<times> 'q) list"
where
  "fifo_step n (Q_Push c w now req) xs =
     (if length xs < n then (Pushed True, xs @ [(add now w, c, req)]) else (Pushed False, xs))"
| "fifo_step n Q_Pop [] = (Popped None, [])"
| "fifo_step n Q_Pop ((d, c, req) # xs) = (Popped (Some (req, c)), xs)"
| "fifo_step n (Q_Wait_Done c ec t) xs =
     (if failed ec then (Expired [], xs)
      else (Expired (map (\<lambda>(d, c, req). (c, Expired_Handler req)) (due t xs)),
            filter (\<lambda>x. \<not> fst x \<le> t) xs))"
| "fifo_step n (Q_Timer c) xs = (Silent, xs)"

fun fifo_run ::
  "nat \<Rightarrow> ('c, 'q) queue_event list \<Rightarrow> (time_point \<times> 'c \<times> 'q) list \<Rightarrow>
   ('c, 'q) queue_output list \<times> (time_point \<times> 'c \<times> 'q) list"
where
  "fifo_run n [] xs = ([], xs)"
| "fifo_run n (x # es) xs =
     (case fifo_step n x xs of (out, ys) \<Rightarrow> case fifo_run n es ys of (outs, zs) \<Rightarrow> (out # outs, zs))"

lemma event_timers_ok: "timers_ok q m \<Longrightarrow> timers_ok q (event_timers x m)"
  by (cases x) (auto simp: timers_ok_def)

lemma rq_step_ok:
  assumes "rq_inv q" and "timers_armed q m"
  shows "\<exists>q' calls m'. rq_step x q = Inr (fst (fifo_step (rq_capacity q) x (rq_contents q)), q', calls)
    \<and> rq_inv q' \<and> rq_capacity q' = rq_capacity q
    \<and> rq_contents q' = snd (fifo_step (rq_capacity q) x (rq_contents q))
    \<and> timer_effects calls (event_timers x m) = Some m' \<and> timers_armed q' m'"
proof (cases x)
  case (Q_Push c w now req)
  from rq_push_ok [OF assms, of c w now req] show ?thesis
    by (fastforce simp: Q_Push)
next
  case Q_Pop
  show ?thesis
    by (rule rq_pop_ok [OF assms], cases "rq_contents q") (fastforce simp: Q_Pop)+
next
  case (Q_Wait_Done c ec t)
  show ?thesis
  proof (cases "failed ec")
    case True
    with assms show ?thesis
      by (auto simp: Q_Wait_Done rq_cancel_failed)
  next
    case False
    then have same: "rq_cancel ec t q = rq_cancel no_error t q"
      by (simp add: rq_cancel_def)
    have "timers_ok q (event_timers x m)"
      using assms(2) event_timers_ok by (auto simp: timers_armed_def)
    from rq_cancel_ok [OF assms(1) this, of t] show ?thesis
      by (fastforce simp: Q_Wait_Done same False)
  qed
next
  case (Q_Timer c)
  from rq_timer_ok [OF assms, of c] show ?thesis
    by (fastforce simp: Q_Timer)
qed

lemma rq_run_ok:
  "rq_inv q \<Longrightarrow> timers_armed q m \<Longrightarrow>
   \<exists>q' m'. rq_run xs q m = Inr (fst (fifo_run (rq_capacity q) xs (rq_contents q)), q', Some m')
     \<and> rq_inv q' \<and> rq_capacity q' = rq_capacity q
     \<and> rq_contents q' = snd (fifo_run (rq_capacity q) xs (rq_contents q)) \<and> timers_armed q' m'"
proof (induction xs arbitrary: q m)
  case Nil
  then show ?case by simp
next
  case (Cons x xs)
  obtain q1 calls m1 where step: "rq_step x q = Inr (fst (fifo_step (rq_capacity q) x (rq_contents q)), q1, calls)"
    "rq_inv q1" "rq_capacity q1 = rq_capacity q"
    "rq_contents q1 = snd (fifo_step (rq_capacity q) x (rq_contents q))"
    "timer_effects calls (event_timers x m) = Some m1" "timers_armed q1 m1"
    using rq_step_ok [OF Cons.prems, of x] by blast
  from Cons.IH [OF step(2,6)] step show ?case
    by (auto simp: case_prod_unfold)
qed

lemma rq_run_new:
  obtains q m where "rq_run xs (rq_new n) (\<lambda>_. None) = Inr (fst (fifo_run n xs []), q, Some m)"
    "rq_inv q" "rq_capacity q = n" "rq_contents q = snd (fifo_run n xs [])" "timers_armed q m"
proof -
  show thesis
    using that rq_run_ok [OF rq_new_ok(1,2) [of n], of xs] by auto
qed

subsection \<open>What the queue promises\<close>

text \<open>
  C7. Whatever sequence of pushes, pops, ends of timer waits and uses of its timers a new queue goes
  through, it has no undefined behaviour and behaves as a bounded first-in first-out queue with
  deadlines: a push is accepted exactly when there is room, a pop yields the oldest waiting request
  with the I/O context it came with, and an expired wait completes, each on its own I/O context and
  in the order of their deadlines, exactly the requests that are due.
\<close>

theorem queue_refines_bounded_fifo:
  "\<exists>q m. rq_run xs (rq_new n) (\<lambda>_. None) = Inr (fst (fifo_run n xs []), q, Some m)
    \<and> rq_contents q = snd (fifo_run n xs [])
    \<and> rq_size q = length (rq_contents q) \<and> rq_size q \<le> n
    \<and> (rq_empty q \<longleftrightarrow> rq_contents q = [])"
proof -
  obtain q m where run: "rq_run xs (rq_new n) (\<lambda>_. None) = Inr (fst (fifo_run n xs []), q, Some m)"
    and q: "rq_inv q" "rq_capacity q = n" "rq_contents q = snd (fifo_run n xs [])"
    by (rule rq_run_new)
  then show ?thesis
    using rq_size_contents [OF q(1)] rq_empty_contents [OF q(1)] rq_contents_bound [OF q(1)] by auto
qed

text \<open>
  C16. The timers are used correctly: no call ever concerns a timer that does not exist, there is at
  most one timer for each I/O context, and as long as a request waits, a wait is armed for the
  earliest of all deadlines, so no request can be forgotten.
\<close>

theorem queue_timer_armed:
  assumes "rq_run xs (rq_new n) (\<lambda>_. None) = Inr (outs, q, timers)"
  shows "\<exists>m. timers = Some m \<and> distinct (rq_timers q) \<and> set (rq_timers q) = dom m
    \<and> (rq_contents q \<noteq> [] \<longrightarrow> (\<exists>c. m c = Some (Some (Min (fst ` set (rq_contents q))))))"
proof -
  obtain q' m where "rq_run xs (rq_new n) (\<lambda>_. None) = Inr (fst (fifo_run n xs []), q', Some m)"
    "rq_inv q'" "timers_armed q' m"
    by (rule rq_run_new)
  then have "timers = Some m" and inv: "rq_inv q" and armed: "timers_armed q m"
    using assms by auto
  then show ?thesis
    using earliest_deadline [OF inv] by (auto simp: timers_armed_def timers_ok_def)
qed

definition demo_events :: "(string, nat) queue_event list" where
  "demo_events =
     [Q_Push ''a'' (Duration 20) (Time_Point 100) 1, Q_Push ''b'' (Duration 5) (Time_Point 101) 2,
      Q_Push ''a'' (Duration 9) (Time_Point 102) 3, Q_Push ''a'' (Duration 9) (Time_Point 103) 4,
      Q_Wait_Done ''b'' no_error (Time_Point 106)]"

declare demo_events_def [exec]

theorem queue_timer_armed_witness:
  "\<exists>q m. rq_run demo_events (rq_new 3) (\<lambda>_. None)
     = Inr ([Pushed True, Pushed True, Pushed True, Pushed False, Expired [(''b'', Expired_Handler 2)]],
            q, Some m)
    \<and> rq_contents q = [(Time_Point 120, ''a'', 1), (Time_Point 111, ''a'', 3)]
    \<and> (\<exists>c. m c = Some (Some (Min (fst ` set (rq_contents q)))))"
proof -
  obtain q m where run: "rq_run demo_events (rq_new 3) (\<lambda>_. None)
      = Inr (fst (fifo_run 3 demo_events []), q, Some m)"
    and contents: "rq_contents q = snd (fifo_run 3 demo_events [])"
    by (rule rq_run_new)
  have fifo: "fifo_run 3 demo_events [] =
      ([Pushed True, Pushed True, Pushed True, Pushed False, Expired [(''b'', Expired_Handler 2)]],
       [(Time_Point 120, ''a'', 1), (Time_Point 111, ''a'', 3)])"
    by code_simp
  show ?thesis
    using queue_timer_armed [OF run] run contents by (auto simp: fifo)
qed

text \<open>
  The queue reuses its nodes: it never allocates more than its capacity, and each node is in
  exactly one of its two lists.
\<close>

theorem queue_nodes_bounded:
  "\<exists>q m. rq_run xs (rq_new n) (\<lambda>_. None) = Inr (fst (fifo_run n xs []), q, m)
    \<and> distinct (rq_pool q @ rq_ordered q) \<and> length (rq_pool q @ rq_ordered q) \<le> n
    \<and> length (rq_ordered q) = length (snd (fifo_run n xs []))"
proof -
  obtain q m where run: "rq_run xs (rq_new n) (\<lambda>_. None) = Inr (fst (fifo_run n xs []), q, Some m)"
    and q: "rq_inv q" "rq_capacity q = n" "rq_contents q = snd (fifo_run n xs [])"
    by (rule rq_run_new)
  obtain es where rep: "rq_rep q es"
    using q(1) by (auto simp: rq_inv_def)
  then have "length (rq_pool q) + length es \<le> n" "rq_ordered q = map entry_node es"
    "length es = length (snd (fifo_run n xs []))"
    using rq_rep_lengths [OF rep] q(2,3) by (auto simp: rq_rep_def)
  with run rq_rep_distinct(1) [OF rep] show ?thesis by auto
qed

end
