(* ===== verification/Queue_Timeouts.thy ===== *)
theory Queue_Timeouts
  imports Deadline_Queue
begin

text \<open>
  What the timers alone do to a queue: if nobody pushes or pops any more, the wait armed for the
  earliest deadline ends, its completion arms the next one, and so on until the queue is empty.
\<close>

lemma expire_requests_expires:
  "expire_requests rs q = Inr (q', calls) \<Longrightarrow> rq_expires q' = rq_expires q"
  by (induction rs arbitrary: q calls)
    (fastforce simp: expire_request_def Let_def and_then_Inr_iff split: option.splits if_splits)+

lemma update_timer_expires: "update_timer q = Inr (q', calls) \<Longrightarrow> rq_expires q' = rq_expires q"
  by (auto simp: update_timer_def get_timer_def split: list.splits option.splits if_splits)

lemma rq_cancel_shrinks:
  assumes "rq_expires q = (e, t, r) # xs" and "rq_cancel no_error t q = Inr (q', calls)"
  shows "length (rq_expires q') < Suc (length xs)"
proof -
  let ?expired = "takeWhile (\<lambda>y. entry_key y \<le> t) (rq_expires q)"
  obtain q1 calls' calls'' where
    "expire_requests (map entry_node ?expired) q = Inr (q1, calls')"
    "update_timer (q1\<lparr>rq_expires := drop (length ?expired) (rq_expires q1)\<rparr>) = Inr (q', calls'')"
    using assms(2) by (auto simp: rq_cancel_def Let_def and_then_Inr_iff)
  then have "rq_expires q' = drop (length ?expired) (rq_expires q)"
    using expire_requests_expires update_timer_expires by fastforce
  then show ?thesis
    using assms(1) by simp
qed

text \<open>The loop of waits, each for the deadline that \<open>update_timer\<close> arms.\<close>

function time_out ::
  "('c, 'q) request_queue \<Rightarrow> (('c \<times> 'q expired_handler) list \<times> ('c, 'q) request_queue) result" where
  "time_out q =
     (case rq_expires q of
        [] \<Rightarrow> Inr ([], q)
      | x # _ \<Rightarrow>
          and_then (rq_cancel no_error (entry_key x) q) (\<lambda>(q', calls).
          and_then (time_out q') (\<lambda>(posts, q''). Inr (posted calls @ posts, q''))))"
  by pat_completeness auto
termination
  by (relation "measure (\<lambda>q. length (rq_expires q))") (auto dest: rq_cancel_shrinks)

declare time_out.simps [simp del, exec]

lemma sorted_split:
  "sorted (map f xs) \<Longrightarrow> filter (\<lambda>x. f x \<le> t) xs @ filter (\<lambda>x. \<not> f x \<le> t) xs = xs"
proof (induction xs)
  case (Cons x xs)
  have "filter (\<lambda>x. f x \<le> t) xs = []" if "\<not> f x \<le> t"
    using Cons.prems that by (auto simp: filter_empty_conv)
  with Cons show ?case by auto
qed simp

lemma due_later: "due t xs @ sort_key fst (filter (\<lambda>x. \<not> fst x \<le> t) xs) = sort_key fst xs"
  using sorted_split [of fst "sort_key fst xs" t] by (simp add: due_def filter_sort)

lemma time_out_ok:
  "rq_sound q \<Longrightarrow>
   \<exists>q'. time_out q = Inr (map (\<lambda>(d, c, req). (c, Expired_Handler req)) (sort_key fst (rq_contents q)), q')
     \<and> rq_sound q' \<and> rq_contents q' = [] \<and> rq_capacity q' = rq_capacity q"
proof (induction q rule: time_out.induct)
  case (1 q)
  show ?case
  proof (cases "rq_expires q")
    case Nil
    then have "rq_contents q = []"
      using "1.prems" rq_size_contents [of q] by (auto simp: rq_sound_def rq_size_def)
    with Nil "1.prems" show ?thesis
      by (simp add: time_out.simps [of q])
  next
    case (Cons x xs)
    let ?t = "entry_key x"
    obtain q1 calls where cancel: "rq_cancel no_error ?t q = Inr (q1, calls)"
      using requests.never_faults(3) [OF "1.prems"] by (metis prod.collapse)
    note q1 = requests.cancel_contents [OF "1.prems" cancel]
    have rest: "rq_contents q1 = filter (\<lambda>x. \<not> fst x \<le> ?t) (rq_contents q)"
      and posts: "posted calls = map (\<lambda>(d, c, req). (c, Expired_Handler req)) (due ?t (rq_contents q))"
      using q1 by simp_all
    obtain q' where q': "time_out q1
        = Inr (map (\<lambda>(d, c, req). (c, Expired_Handler req)) (sort_key fst (rq_contents q1)), q')"
      "rq_sound q'" "rq_contents q' = []" "rq_capacity q' = rq_capacity q1"
      using "1.IH" [OF Cons cancel] q1 by fastforce
    have "map (\<lambda>(d, c, req). (c, Expired_Handler req)) (sort_key fst (rq_contents q))
        = posted calls
          @ map (\<lambda>(d, c, req). (c, Expired_Handler req)) (sort_key fst (rq_contents q1))"
      unfolding rest posts map_append [symmetric] due_later ..
    with Cons cancel q' q1 show ?thesis
      by (simp add: time_out.simps [of q])
  qed
qed

lemma rq_run_sound: "rq_run xs (rq_new n) (\<lambda>_. None) = Inr (outs, q, timers) \<Longrightarrow> rq_sound q"
  by (rule rq_run_new [of xs n]) (auto simp: rq_sound_def)

text \<open>
  C17. The timers empty the queue. From any queue that operations on a new one lead to, waiting for the
  armed deadline again and again comes to an end with nobody waiting: every request has been completed
  with the timeout exactly once, on its own I/O context, in the order of the deadlines and, among
  equal ones, in the order of arrival.
\<close>

theorem queue_times_out:
  assumes "rq_run xs (rq_new n) (\<lambda>_. None) = Inr (outs, q, timers)"
  shows "\<exists>q'. time_out q
      = Inr (map (\<lambda>(d, c, req). (c, Expired_Handler req)) (sort_key fst (rq_contents q)), q')
    \<and> rq_size q' = 0 \<and> rq_empty q'"
proof -
  obtain q' where "time_out q
      = Inr (map (\<lambda>(d, c, req). (c, Expired_Handler req)) (sort_key fst (rq_contents q)), q')"
    and q': "rq_sound q'" "rq_contents q' = []"
    using time_out_ok [OF rq_run_sound [OF assms]] by blast
  then show ?thesis
    using rq_size_contents [of q'] rq_empty_contents [of q'] by (simp add: rq_sound_def)
qed

theorem queue_times_out_witness:
  "\<exists>q q' outs m. rq_run demo_events (rq_new 3) (\<lambda>_. None) = Inr (outs, q, m)
    \<and> time_out q = Inr ([(''a'', Expired_Handler 3), (''a'', Expired_Handler 1)], q') \<and> rq_size q' = 0"
proof -
  obtain q m where run: "rq_run demo_events (rq_new 3) (\<lambda>_. None)
      = Inr (fst (fifo_run 3 demo_events []), q, Some m)"
    and contents: "rq_contents q = snd (fifo_run 3 demo_events [])"
    by (rule rq_run_new)
  have "map (\<lambda>(d, c, req). (c, Expired_Handler req)) (sort_key fst (snd (fifo_run 3 demo_events [])))
      = [(''a'', Expired_Handler 3), (''a'', Expired_Handler 1)]"
    by code_simp
  then show ?thesis
    using queue_times_out [OF run] run by (auto simp: contents)
qed

end
