(* ===== verification/Handlers.thy ===== *)
theory Handlers
  imports Deadline_Queue Cell_Store
begin

text \<open>
  The completion handlers of the asynchronous pool (\<open>async/detail/pool_impl.hpp\<close>, and
  \<open>expired_handler\<close> of \<open>async/detail/queue.hpp\<close>).

  A caller of \<open>get\<close> gives a handler of its own, a value of type \<open>'h\<close>, to be called once with an error
  code and an iterator. The pool wraps it: a request that waits is a \<open>list_iterator_handler\<close>, which
  erases the type of the caller's handler and remembers its executor, and what is posted to an I/O
  context is one of four function objects that bind the arguments. Calling such an object amounts to
  one call of the caller's handler, which is what the functions below yield. \<open>assoc\<close> stands for
  \<open>boost::asio::get_associated_executor\<close>.
\<close>

subsection \<open>The wrapped handler\<close>

record ('x, 'h) list_iterator_handler =
  lih_executor :: 'x
  lih_impl :: "'h option"

type_synonym 'h handler_call = "'h \<times> error_code \<times> cell_iterator"

definition list_iterator_handler_of :: "('h \<Rightarrow> 'x) \<Rightarrow> 'h \<Rightarrow> ('x, 'h) list_iterator_handler" where
  "list_iterator_handler_of assoc h = \<lparr>lih_executor = assoc h, lih_impl = Some h\<rparr>"

text \<open>The three overloads of the call operator, on a handler that was not moved from.\<close>

definition lih_call ::
  "error_code \<Rightarrow> cell_iterator \<Rightarrow> ('x, 'h) list_iterator_handler \<Rightarrow> 'h handler_call result" where
  "lih_call ec it w =
     (case lih_impl w of None \<Rightarrow> Inl Undefined_Behaviour | Some h \<Rightarrow> Inr (h, ec, it))"

definition lih_call_error ::
  "error_code \<Rightarrow> ('x, 'h) list_iterator_handler \<Rightarrow> 'h handler_call result" where
  "lih_call_error ec w = lih_call ec Singular w"

definition lih_call_iterator ::
  "cell_iterator \<Rightarrow> ('x, 'h) list_iterator_handler \<Rightarrow> 'h handler_call result" where
  "lih_call_iterator it w = lih_call no_error it w"

subsection \<open>Bound handlers\<close>

datatype 'h on_list_iterator_handler = On_List_Iterator_Handler error_code cell_iterator 'h
datatype 'w on_error_handler = On_Error_Handler error_code 'w
datatype 'w on_serve_queued_handler = On_Serve_Queued_Handler cell_iterator 'w

fun on_list_iterator_call :: "'h on_list_iterator_handler \<Rightarrow> 'h handler_call result" where
  "on_list_iterator_call (On_List_Iterator_Handler ec it h) = Inr (h, ec, it)"

fun on_error_call ::
  "('x, 'h) list_iterator_handler on_error_handler \<Rightarrow> 'h handler_call result" where
  "on_error_call (On_Error_Handler ec w) = lih_call_error ec w"

fun on_serve_queued_call ::
  "('x, 'h) list_iterator_handler on_serve_queued_handler \<Rightarrow> 'h handler_call result" where
  "on_serve_queued_call (On_Serve_Queued_Handler it w) = lih_call_iterator it w"

fun expired_handler_call ::
  "('x, 'h) list_iterator_handler expired_handler \<Rightarrow> 'h handler_call result" where
  "expired_handler_call (Expired_Handler w) = lih_call_error (make_error_code Get_Resource_Timeout) w"

text \<open>What the pool hands to an I/O context.\<close>

datatype ('x, 'h) task =
    Get_Task "'h on_list_iterator_handler"
  | Error_Task "('x, 'h) list_iterator_handler on_error_handler"
  | Serve_Task "('x, 'h) list_iterator_handler on_serve_queued_handler"
  | Expired_Task "('x, 'h) list_iterator_handler expired_handler"

fun run_task :: "('x, 'h) task \<Rightarrow> 'h handler_call result" where
  "run_task (Get_Task t) = on_list_iterator_call t"
| "run_task (Error_Task t) = on_error_call t"
| "run_task (Serve_Task t) = on_serve_queued_call t"
| "run_task (Expired_Task t) = expired_handler_call t"

text \<open>\<open>get_executor\<close> of the four objects.\<close>

fun task_executor :: "('h \<Rightarrow> 'x) \<Rightarrow> ('x, 'h) task \<Rightarrow> 'x" where
  "task_executor assoc (Get_Task (On_List_Iterator_Handler ec it h)) = assoc h"
| "task_executor assoc (Error_Task (On_Error_Handler ec w)) = lih_executor w"
| "task_executor assoc (Serve_Task (On_Serve_Queued_Handler it w)) = lih_executor w"
| "task_executor assoc (Expired_Task (Expired_Handler w)) = lih_executor w"

declare list_iterator_handler_of_def [exec] lih_call_def [exec] lih_call_error_def [exec]
  lih_call_iterator_def [exec]

subsection \<open>Tasks of a caller\<close>

text \<open>
  A task is sound if it is built from a handler itself or from a wrapper that holds one and its
  executor, and if it binds an error exactly when it binds no cell.
\<close>

definition wraps :: "('h \<Rightarrow> 'x) \<Rightarrow> ('x, 'h) list_iterator_handler \<Rightarrow> bool" where
  "wraps assoc w \<longleftrightarrow> (\<exists>h. w = list_iterator_handler_of assoc h)"

fun task_sound :: "('h \<Rightarrow> 'x) \<Rightarrow> ('x, 'h) task \<Rightarrow> bool" where
  "task_sound assoc (Get_Task (On_List_Iterator_Handler ec it h)) = (failed ec \<longleftrightarrow> it = Singular)"
| "task_sound assoc (Error_Task (On_Error_Handler ec w)) = (failed ec \<and> wraps assoc w)"
| "task_sound assoc (Serve_Task (On_Serve_Queued_Handler it w)) = (it \<noteq> Singular \<and> wraps assoc w)"
| "task_sound assoc (Expired_Task (Expired_Handler w)) = wraps assoc w"

text \<open>The caller's handler of a sound task, and the cell it is called with.\<close>

definition lih_handler :: "('x, 'h) list_iterator_handler \<Rightarrow> 'h" where
  "lih_handler w = the (lih_impl w)"

fun task_handler :: "('x, 'h) task \<Rightarrow> 'h" where
  "task_handler (Get_Task (On_List_Iterator_Handler ec it h)) = h"
| "task_handler (Error_Task (On_Error_Handler ec w)) = lih_handler w"
| "task_handler (Serve_Task (On_Serve_Queued_Handler it w)) = lih_handler w"
| "task_handler (Expired_Task (Expired_Handler w)) = lih_handler w"

fun task_code :: "('x, 'h) task \<Rightarrow> error_code" where
  "task_code (Get_Task (On_List_Iterator_Handler ec it h)) = ec"
| "task_code (Error_Task (On_Error_Handler ec w)) = ec"
| "task_code (Serve_Task t) = no_error"
| "task_code (Expired_Task t) = make_error_code Get_Resource_Timeout"

fun task_iterator :: "('x, 'h) task \<Rightarrow> cell_iterator" where
  "task_iterator (Get_Task (On_List_Iterator_Handler ec it h)) = it"
| "task_iterator (Serve_Task (On_Serve_Queued_Handler it w)) = it"
| "task_iterator _ = Singular"

declare lih_handler_def [exec]

lemma lih_handler_of [simp]:
  "lih_handler (list_iterator_handler_of assoc h) = h"
  "wraps assoc (list_iterator_handler_of assoc h)"
  by (simp_all add: lih_handler_def list_iterator_handler_of_def wraps_def)

lemma run_task_sound:
  "task_sound assoc t \<Longrightarrow> run_task t = Inr (task_handler t, task_code t, task_iterator t)"
  by (cases t rule: task_handler.cases)
    (auto simp: wraps_def lih_call_error_def lih_call_iterator_def lih_call_def lih_handler_def
      list_iterator_handler_of_def)

lemma task_code_sound: "task_sound assoc t \<Longrightarrow> failed (task_code t) \<longleftrightarrow> task_iterator t = Singular"
  by (cases t rule: task_handler.cases) auto

lemma task_executor_sound: "task_sound assoc t \<Longrightarrow> task_executor assoc t = assoc (task_handler t)"
  by (cases t rule: task_handler.cases)
    (auto simp: wraps_def list_iterator_handler_of_def lih_handler_def)

end
