(* ===== verification/Async_Pool_Impl.thy ===== *)
theory Async_Pool_Impl
  imports Handlers
begin

text \<open>
  \<open>async/detail/pool_impl.hpp\<close>: the pool behind the asynchronous interface.

  Each operation yields, beside the new state, the calls it makes on Boost.Asio in order, those of the
  queue included. \<open>get\<close> holds the mutex only while it looks for a cell; it then releases it and, if
  it found none, pushes the request into the queue, which has a mutex of its own. The model has the
  two halves as operations (\<open>async_get_locked\<close>, \<open>async_get_push\<close>) and \<open>async_get\<close> as their
  composition. The other operations are atomic: what they do after they released the mutex concerns
  only the cell they were given.
\<close>

subsection \<open>State and construction\<close>

record ('c, 'x, 'h, 'v) async_pool =
  ap_storage :: "'v storage"
  ap_capacity :: nat
  ap_queue :: "('c, ('x, 'h) list_iterator_handler) request_queue"
  ap_disabled :: bool

type_synonym ('c, 'x, 'h) pool_calls = "('c, ('x, 'h) task) asio_call list"

definition async_assert_capacity :: "nat \<Rightarrow> nat result" where
  "async_assert_capacity n = (if n = 0 then Inl (Throws Zero_Pool_Capacity) else Inr n)"

definition async_pool_create ::
  "nat \<Rightarrow> nat \<Rightarrow> duration \<Rightarrow> duration \<Rightarrow> ('c, 'x, 'h, 'v) async_pool result" where
  "async_pool_create capacity queue_capacity timeout life =
     and_then (async_assert_capacity capacity) (\<lambda>n.
       Inr \<lparr>ap_storage = storage_of_capacity n timeout life, ap_capacity = capacity,
            ap_queue = rq_new queue_capacity, ap_disabled = False\<rparr>)"

definition async_pool_generate ::
  "('g \<Rightarrow> 'v \<times> 'g) \<Rightarrow> 'g \<Rightarrow> nat \<Rightarrow> nat \<Rightarrow> duration \<Rightarrow> duration \<Rightarrow> time_point \<Rightarrow>
   (('c, 'x, 'h, 'v) async_pool \<times> 'g) result"
where
  "async_pool_generate gen g capacity queue_capacity timeout life now =
     and_then (async_assert_capacity capacity) (\<lambda>n.
       case storage_of_generator gen g n timeout life now of
         (s, g') \<Rightarrow>
           and_then (async_assert_capacity capacity) (\<lambda>n'.
             Inr (\<lparr>ap_storage = s, ap_capacity = n', ap_queue = rq_new queue_capacity,
                   ap_disabled = False\<rparr>, g')))"

text \<open>The range constructor passes a generator that walks the range.\<close>

fun next_of_range :: "'v list \<Rightarrow> 'v \<times> 'v list" where
  "next_of_range (v # vs) = (v, vs)"
| "next_of_range [] = (undefined, [])"

definition async_pool_of_range ::
  "'v list \<Rightarrow> nat \<Rightarrow> duration \<Rightarrow> duration \<Rightarrow> time_point \<Rightarrow> ('c, 'x, 'h, 'v) async_pool result" where
  "async_pool_of_range vs queue_capacity timeout life now =
     map_sum id fst (async_pool_generate next_of_range vs (length vs) queue_capacity timeout life now)"

subsection \<open>Statistics\<close>

record async_stats =
  as_size :: nat
  as_available :: nat
  as_used :: nat
  as_queue_size :: nat

definition async_size :: "('c, 'x, 'h, 'v) async_pool \<Rightarrow> nat" where
  "async_size p =
     (let stats = storage_stats_of (ap_storage p) in stat_available stats + stat_used stats)"

definition async_available :: "('c, 'x, 'h, 'v) async_pool \<Rightarrow> nat" where
  "async_available p = stat_available (storage_stats_of (ap_storage p))"

definition async_used :: "('c, 'x, 'h, 'v) async_pool \<Rightarrow> nat" where
  "async_used p = stat_used (storage_stats_of (ap_storage p))"

definition async_stats_of :: "('c, 'x, 'h, 'v) async_pool \<Rightarrow> async_stats" where
  "async_stats_of p =
     (let stats = storage_stats_of (ap_storage p)
      in \<lparr>as_size = stat_available stats + stat_used stats, as_available = stat_available stats,
          as_used = stat_used stats, as_queue_size = rq_size (ap_queue p)\<rparr>)"

subsection \<open>Getting a cell\<close>

text \<open>The calls of the queue, as calls of the pool.\<close>

definition queue_calls ::
  "('c, ('x, 'h) list_iterator_handler expired_handler) asio_call list \<Rightarrow> ('c, 'x, 'h) pool_calls" where
  "queue_calls calls = map (map_asio_call id Expired_Task) calls"

text \<open>The first half: \<open>None\<close> when the request is to be queued.\<close>

definition async_get_locked ::
  "'c \<Rightarrow> 'h \<Rightarrow> duration \<Rightarrow> time_point \<Rightarrow> ('c, 'x, 'h, 'v) async_pool \<Rightarrow>
   ('c, 'x, 'h, 'v) async_pool \<times> ('c, 'x, 'h) pool_calls option"
where
  "async_get_locked c h wait_duration now p =
     (if ap_disabled p then
        (p, Some [Dispatch c (Get_Task
               (On_List_Iterator_Handler (make_error_code Disabled) Singular h))])
      else
        case lease now (ap_storage p) of
          (s, Some cell) \<Rightarrow>
            (p\<lparr>ap_storage := s\<rparr>,
             Some [Post c (Get_Task (On_List_Iterator_Handler no_error (Cell cell) h))])
        | (s, None) \<Rightarrow>
            (p\<lparr>ap_storage := s\<rparr>,
             if ticks wait_duration = 0 then
               Some [Post c (Get_Task
                 (On_List_Iterator_Handler (make_error_code Get_Resource_Timeout) Singular h))]
             else None))"

definition async_get_push ::
  "('h \<Rightarrow> 'x) \<Rightarrow> 'c \<Rightarrow> 'h \<Rightarrow> duration \<Rightarrow> time_point \<Rightarrow> ('c, 'x, 'h, 'v) async_pool \<Rightarrow>
   (('c, 'x, 'h, 'v) async_pool \<times> ('c, 'x, 'h) pool_calls) result"
where
  "async_get_push assoc c h wait_duration now p =
     (let wrapped = list_iterator_handler_of assoc h in
      and_then (rq_push c wait_duration now wrapped (ap_queue p)) (\<lambda>(pushed, q, calls).
        Inr (p\<lparr>ap_queue := q\<rparr>,
             queue_calls calls
             @ (if pushed then []
                else [Post c (Error_Task
                        (On_Error_Handler (make_error_code Request_Queue_Overflow) wrapped))]))))"

definition async_get ::
  "('h \<Rightarrow> 'x) \<Rightarrow> 'c \<Rightarrow> 'h \<Rightarrow> duration \<Rightarrow> time_point \<Rightarrow> time_point \<Rightarrow> ('c, 'x, 'h, 'v) async_pool \<Rightarrow>
   (('c, 'x, 'h, 'v) async_pool \<times> ('c, 'x, 'h) pool_calls) result"
where
  "async_get assoc c h wait_duration now now' p =
     (case async_get_locked c h wait_duration now p of
        (p', Some calls) \<Rightarrow> Inr (p', calls)
      | (p', None) \<Rightarrow> async_get_push assoc c h wait_duration now' p')"

subsection \<open>Giving back, disabling, invalidating\<close>

definition async_recycle ::
  "time_point \<Rightarrow> cell_iterator \<Rightarrow> ('c, 'x, 'h, 'v) async_pool \<Rightarrow>
   (('c, 'x, 'h, 'v) async_pool \<times> ('c, 'x, 'h) pool_calls) result"
where
  "async_recycle now it p =
     and_then (rq_pop (ap_queue p)) (\<lambda>(queued, q, calls).
       case queued of
         None \<Rightarrow>
           and_then (storage_recycle now it (ap_storage p)) (\<lambda>s.
             Inr (p\<lparr>ap_storage := s, ap_queue := q\<rparr>, queue_calls calls))
       | Some (request, c) \<Rightarrow>
           and_then (is_valid now it (ap_storage p)) (\<lambda>valid.
           and_then (if valid then Inr (ap_storage p) else update_cell it reset_value (ap_storage p))
             (\<lambda>s. Inr (p\<lparr>ap_storage := s, ap_queue := q\<rparr>,
                       queue_calls calls
                       @ [Post c (Serve_Task (On_Serve_Queued_Handler it request))]))))"

definition async_waste ::
  "cell_iterator \<Rightarrow> ('c, 'x, 'h, 'v) async_pool \<Rightarrow>
   (('c, 'x, 'h, 'v) async_pool \<times> ('c, 'x, 'h) pool_calls) result"
where
  "async_waste it p =
     and_then (rq_pop (ap_queue p)) (\<lambda>(queued, q, calls).
       case queued of
         None \<Rightarrow>
           and_then (storage_waste it (ap_storage p)) (\<lambda>s.
             Inr (p\<lparr>ap_storage := s, ap_queue := q\<rparr>, queue_calls calls))
       | Some (request, c) \<Rightarrow>
           and_then (update_cell it reset_value (ap_storage p)) (\<lambda>s.
             Inr (p\<lparr>ap_storage := s, ap_queue := q\<rparr>,
                  queue_calls calls @ [Post c (Serve_Task (On_Serve_Queued_Handler it request))])))"

lemma update_timer_ordered:
  "update_timer q = Inr (q', calls) \<Longrightarrow> rq_ordered q' = rq_ordered q"
  by (auto simp: update_timer_def get_timer_def split: list.splits option.splits if_splits)

lemma rq_pop_shrinks:
  "rq_pop q = Inr (Some x, q', calls) \<Longrightarrow> length (rq_ordered q') < length (rq_ordered q)"
  by (auto simp: rq_pop_def Let_def and_then_Inr_iff split: list.splits option.splits
      dest!: update_timer_ordered)

text \<open>The loop of \<open>disable\<close>: every waiting request is refused, the oldest first.\<close>

function refuse_queued ::
  "('c, ('x, 'h) list_iterator_handler) request_queue \<Rightarrow>
   (('c, ('x, 'h) list_iterator_handler) request_queue \<times> ('c, 'x, 'h) pool_calls) result"
where
  "refuse_queued q =
     (case rq_pop q of
        Inl f \<Rightarrow> Inl f
      | Inr (None, q', calls) \<Rightarrow> Inr (q', queue_calls calls)
      | Inr (Some (request, c), q', calls) \<Rightarrow>
          and_then (refuse_queued q') (\<lambda>(q'', calls').
            Inr (q'', queue_calls calls
              @ Dispatch c (Error_Task (On_Error_Handler (make_error_code Disabled) request))
                # calls')))"
  by pat_completeness auto
termination
  by (relation "measure (\<lambda>q. length (rq_ordered q))") (auto dest: rq_pop_shrinks)

declare refuse_queued.simps [simp del, exec]

definition async_disable ::
  "('c, 'x, 'h, 'v) async_pool \<Rightarrow> (('c, 'x, 'h, 'v) async_pool \<times> ('c, 'x, 'h) pool_calls) result" where
  "async_disable p =
     and_then (refuse_queued (ap_queue p)) (\<lambda>(q, calls).
       Inr (p\<lparr>ap_queue := q, ap_disabled := True\<rparr>, calls))"

definition async_invalidate :: "('c, 'x, 'h, 'v) async_pool \<Rightarrow> ('c, 'x, 'h, 'v) async_pool" where
  "async_invalidate p = p\<lparr>ap_storage := storage_invalidate (ap_storage p)\<rparr>"

text \<open>The end of a wait on a timer of the queue.\<close>

definition async_wait_done ::
  "error_code \<Rightarrow> time_point \<Rightarrow> ('c, 'x, 'h, 'v) async_pool \<Rightarrow>
   (('c, 'x, 'h, 'v) async_pool \<times> ('c, 'x, 'h) pool_calls) result"
where
  "async_wait_done ec expires_at p =
     and_then (rq_cancel ec expires_at (ap_queue p)) (\<lambda>(q, calls).
       Inr (p\<lparr>ap_queue := q\<rparr>, queue_calls calls))"

lemmas async_pool_defs =
  async_assert_capacity_def async_pool_create_def async_pool_generate_def async_pool_of_range_def
  async_size_def async_available_def async_used_def async_stats_of_def queue_calls_def
  async_get_locked_def async_get_push_def async_get_def async_recycle_def async_waste_def
  async_disable_def async_invalidate_def async_wait_done_def

declare async_pool_defs [exec]

end
