(* ===== verification/Async_Contract.thy ===== *)
theory Async_Contract
  imports Async_Pool_Impl
begin

text \<open>
  The contract of the asynchronous pool's operations: its invariant, and for each operation the
  cells lent, the requests waiting and the tasks handed to an I/O context afterwards.
\<close>

subsection \<open>Invariant and views\<close>

definition async_inv :: "('h \<Rightarrow> 'x) \<Rightarrow> ('c, 'x, 'h, 'v) async_pool \<Rightarrow> bool" where
  "async_inv assoc p \<longleftrightarrow>
     storage_inv (ap_capacity p) (ap_storage p) \<and> rq_sound (ap_queue p)
     \<and> (\<forall>(d, c, w) \<in> set (rq_contents (ap_queue p)). wraps assoc w)"

declare async_inv_def [inv_simps]

definition async_lent :: "('c, 'x, 'h, 'v) async_pool \<Rightarrow> nat set" where
  "async_lent p = set (used_cells (ap_storage p))"

text \<open>The waiting requests, oldest first.\<close>

abbreviation waiting ::
  "('c, 'x, 'h, 'v) async_pool \<Rightarrow> (time_point \<times> 'c \<times> ('x, 'h) list_iterator_handler) list" where
  "waiting p \<equiv> rq_contents (ap_queue p)"

definition async_free :: "('c, 'x, 'h, 'v) async_pool \<Rightarrow> nat" where
  "async_free p = length (available_cells (ap_storage p)) + length (wasted_cells (ap_storage p))"

lemma posted_queue_calls [simp]:
  "posted (queue_calls calls) = map (\<lambda>(c, t). (c, Expired_Task t)) (posted calls)"
  by (induction calls rule: posted.induct) (simp_all add: queue_calls_def)

lemma queue_calls_Nil [simp]: "queue_calls [] = []"
  by (simp add: queue_calls_def)

lemma rq_new_sound: "rq_sound (rq_new n)"
  using rq_new_ok unfolding rq_sound_def by blast

lemma async_create_inv:
  assumes "async_pool_create n k timeout life = Inr p"
  shows "async_inv assoc p" "async_lent p = {}" "waiting p = []" "\<not> ap_disabled p"
    "ap_capacity p = n" "rq_capacity (ap_queue p) = k" "0 < n"
  using assms
  by (auto simp: async_pool_create_def async_assert_capacity_def async_inv_def async_lent_def
      storage_of_capacity_inv rq_new_sound split: if_splits)

lemma async_inv_parts:
  assumes "async_inv assoc p"
  shows "storage_inv (ap_capacity p) (ap_storage p)" "rq_sound (ap_queue p)"
    "\<And>d c w. (d, c, w) \<in> set (waiting p) \<Longrightarrow> wraps assoc w"
  using assms by (auto simp: async_inv_def)

lemma async_free_lent:
  assumes "async_inv assoc p"
  shows "async_free p + card (async_lent p) = ap_capacity p"
  using storage_inv_total [OF async_inv_parts(1) [OF assms]]
    distinct_card [OF storage_inv_disjoint(2) [OF async_inv_parts(1) [OF assms]]]
  by (simp add: async_free_def async_lent_def)

lemma async_free_same:
  "async_inv assoc p \<Longrightarrow> async_inv assoc p' \<Longrightarrow> async_lent p' = async_lent p \<Longrightarrow>
   ap_capacity p' = ap_capacity p \<Longrightarrow> async_free p' = async_free p"
  using async_free_lent [of assoc p] async_free_lent [of assoc p'] by simp

text \<open>Replacing the queue by one with fewer requests, or with one more.\<close>

lemma async_inv_queue:
  "async_inv assoc p \<Longrightarrow> rq_sound q \<Longrightarrow> \<forall>(d, c, w) \<in> set (rq_contents q). wraps assoc w \<Longrightarrow>
   async_inv assoc (p\<lparr>ap_queue := q\<rparr>)"
  by (simp add: async_inv_def)

subsection \<open>\<open>get\<close>\<close>

lemma async_get_locked_cases:
  assumes "async_inv assoc p"
  obtains
    (disabled) "ap_disabled p" "async_get_locked c h w now p = (p, Some [Dispatch c (Get_Task
        (On_List_Iterator_Handler (make_error_code Disabled) Singular h))])"
  | (leased) s cell where "\<not> ap_disabled p" "lease now (ap_storage p) = (s, Some cell)"
      "async_get_locked c h w now p = (p\<lparr>ap_storage := s\<rparr>,
        Some [Post c (Get_Task (On_List_Iterator_Handler no_error (Cell cell) h))])"
      "async_inv assoc (p\<lparr>ap_storage := s\<rparr>)" "cell \<notin> async_lent p"
      "async_lent (p\<lparr>ap_storage := s\<rparr>) = insert cell (async_lent p)"
  | (refused) "\<not> ap_disabled p" "async_free p = 0" "ticks w = 0"
      "async_get_locked c h w now p = (p, Some [Post c (Get_Task
        (On_List_Iterator_Handler (make_error_code Get_Resource_Timeout) Singular h))])"
  | (waits) "\<not> ap_disabled p" "async_free p = 0" "ticks w \<noteq> 0"
      "async_get_locked c h w now p = (p, None)"
proof (cases "ap_disabled p")
  case True
  then show thesis by (intro disabled) (simp_all add: async_get_locked_def)
next
  case False
  note inv = async_inv_parts [OF assms]
  obtain s r where l: "lease now (ap_storage p) = (s, r)" by (cases "lease now (ap_storage p)")
  show thesis
  proof (cases r)
    case (Some cell)
    with l False inv assms show thesis
      using cells.lease_some [OF inv(1), of now s cell]
      by (intro leased [of s cell]) (auto simp: async_get_locked_def async_inv_def async_lent_def)
  next
    case None
    with l have "s = ap_storage p" "async_free p = 0"
      using lease_None lease_None_iff [of now "ap_storage p"] by (auto simp: async_free_def)
    with l None False show thesis
      by (cases "ticks w = 0") (intro refused waits; simp add: async_get_locked_def)+
  qed
qed

lemma async_get_push_ok:
  assumes "async_inv assoc p"
  obtains p' calls where "async_get_push assoc c h w now p = Inr (p', calls)" "async_inv assoc p'"
    "ap_storage p' = ap_storage p" "ap_disabled p' = ap_disabled p" "ap_capacity p' = ap_capacity p"
    "rq_capacity (ap_queue p') = rq_capacity (ap_queue p)"
    "length (waiting p) < rq_capacity (ap_queue p) \<Longrightarrow>
       posted calls = [] \<and> waiting p' = waiting p @ [(add now w, c, list_iterator_handler_of assoc h)]"
    "\<not> length (waiting p) < rq_capacity (ap_queue p) \<Longrightarrow>
       posted calls = [(c, Error_Task (On_Error_Handler (make_error_code Request_Queue_Overflow)
         (list_iterator_handler_of assoc h)))] \<and> waiting p' = waiting p"
proof -
  note inv = async_inv_parts [OF assms]
  obtain b q calls where push: "rq_push c w now (list_iterator_handler_of assoc h) (ap_queue p) = Inr (b, q, calls)"
    using requests.never_faults(1) [OF inv(2)] by (metis prod.collapse)
  note q = requests.push_contents [OF inv(2) push]
  have "async_inv assoc (p\<lparr>ap_queue := q\<rparr>)"
    using q inv(3) by (intro async_inv_queue [OF assms]) auto
  with push q show thesis
    by (intro that [of "p\<lparr>ap_queue := q\<rparr>"]) (auto simp: async_get_push_def Let_def)
qed

subsection \<open>Giving back\<close>

text \<open>The two ways of giving a cell back, with nobody waiting or to the oldest request.\<close>

definition serve :: "cell_iterator \<Rightarrow> time_point \<times> 'c \<times> ('x, 'h) list_iterator_handler \<Rightarrow>
    'c \<times> ('x, 'h) task" where
  "serve it = (\<lambda>(d, c, w). (c, Serve_Task (On_Serve_Queued_Handler it w)))"

definition empty_cell :: "nat \<Rightarrow> 'v storage \<Rightarrow> 'v storage" where
  "empty_cell c s = s\<lparr>cells := (cells s)(c := reset_value (cells s c))\<rparr>"

lemma empty_cell_inv:
  "storage_inv n s \<Longrightarrow> c \<in> set (used_cells s) \<Longrightarrow> storage_inv n (empty_cell c s)"
  using update_cell_inv [of n s c reset_value "empty_cell c s"]
  by (simp add: update_cell_def empty_cell_def all_cells_def)

lemma update_cell_empty:
  "c \<in> set (used_cells s) \<Longrightarrow> update_cell (Cell c) reset_value s = Inr (empty_cell c s)"
  by (simp add: update_cell_def empty_cell_def all_cells_def)

lemma empty_cell_fields [simp]:
  "used_cells (empty_cell c s) = used_cells s" "available_cells (empty_cell c s) = available_cells s"
  "wasted_cells (empty_cell c s) = wasted_cells s"
  by (simp_all add: empty_cell_def)

lemma async_inv_served:
  assumes "async_inv assoc p" "waiting p = x # xs" "rq_sound q" "rq_contents q = xs"
    and "storage_inv (ap_capacity p) s"
  shows "async_inv assoc (p\<lparr>ap_storage := s, ap_queue := q\<rparr>)"
  using assms by (auto simp: async_inv_def)

lemma async_recycle_ok:
  assumes inv: "async_inv assoc p" and c: "cell \<in> async_lent p"
  obtains
    (kept) p' calls where "waiting p = []"
      "async_recycle now (Cell cell) p = Inr (p', calls)" "async_inv assoc p'" "posted calls = []"
      "waiting p' = []" "storage_recycle now (Cell cell) (ap_storage p) = Inr (ap_storage p')"
      "async_lent p' = async_lent p - {cell}" "ap_disabled p' = ap_disabled p"
      "ap_capacity p' = ap_capacity p" "rq_capacity (ap_queue p') = rq_capacity (ap_queue p)"
  | (served) x xs p' calls where "waiting p = x # xs"
      "async_recycle now (Cell cell) p = Inr (p', calls)" "async_inv assoc p'"
      "posted calls = [serve (Cell cell) x]" "waiting p' = xs"
      "ap_storage p' = (if worth_keeping now (ap_storage p) cell then ap_storage p
                        else empty_cell cell (ap_storage p))"
      "async_lent p' = async_lent p" "ap_disabled p' = ap_disabled p"
      "ap_capacity p' = ap_capacity p" "rq_capacity (ap_queue p') = rq_capacity (ap_queue p)"
proof (cases "waiting p")
  case Nil
  note parts = async_inv_parts [OF inv]
  obtain q calls where pop: "rq_pop (ap_queue p) = Inr (None, q, calls)" and q: "rq_sound q"
    "rq_capacity q = rq_capacity (ap_queue p)" "posted calls = []" "rq_contents q = []"
    using requests.pop_empty [OF parts(2) Nil] by blast
  obtain s where s: "storage_recycle now (Cell cell) (ap_storage p) = Inr s"
    "storage_inv (ap_capacity p) s" "set (used_cells s) = async_lent p - {cell}"
    using cells.recycle_lent [OF parts(1), of cell now] c by (auto simp: async_lent_def)
  let ?p = "p\<lparr>ap_storage := s, ap_queue := q\<rparr>"
  have "async_recycle now (Cell cell) p = Inr (?p, queue_calls calls)"
    by (simp add: async_recycle_def pop s(1))
  moreover have "async_inv assoc ?p"
    by (simp add: async_inv_def q s(2))
  ultimately show thesis
    using q s by (intro kept [of ?p "queue_calls calls"] Nil) (simp_all add: async_lent_def)
next
  case (Cons x xs)
  note parts = async_inv_parts [OF inv]
  obtain d ctx w where x: "x = (d, ctx, w)" by (cases x)
  obtain q calls where pop: "rq_pop (ap_queue p) = Inr (Some (w, ctx), q, calls)" and q: "rq_sound q"
    "rq_capacity q = rq_capacity (ap_queue p)" "posted calls = []" "rq_contents q = xs"
    using requests.pop_oldest [OF parts(2) Cons [unfolded x]] by blast
  let ?s = "if worth_keeping now (ap_storage p) cell then ap_storage p
            else empty_cell cell (ap_storage p)"
  have s: "storage_inv (ap_capacity p) ?s" "used_cells ?s = used_cells (ap_storage p)"
    using parts(1) c empty_cell_inv [of "ap_capacity p" "ap_storage p" cell]
    by (auto simp: async_lent_def)
  have valid: "is_valid now (Cell cell) (ap_storage p) = Inr (worth_keeping now (ap_storage p) cell)"
    using c is_valid_Cell [of cell "ap_storage p"] used_cells_alive [of cell "ap_storage p"]
    by (simp add: async_lent_def)
  have "async_inv assoc (p\<lparr>ap_storage := ?s, ap_queue := q\<rparr>)"
    using async_inv_served [OF inv Cons q(1,4) s(1)] .
  then show thesis
    using pop q s Cons c valid
    by (intro served [of x xs "p\<lparr>ap_storage := ?s, ap_queue := q\<rparr>"])
      (auto simp: async_recycle_def async_lent_def update_cell_empty serve_def x)
qed

lemma async_waste_ok:
  assumes inv: "async_inv assoc p" and c: "cell \<in> async_lent p"
  obtains
    (kept) p' calls where "waiting p = []"
      "async_waste (Cell cell) p = Inr (p', calls)" "async_inv assoc p'" "posted calls = []"
      "waiting p' = []" "storage_waste (Cell cell) (ap_storage p) = Inr (ap_storage p')"
      "async_lent p' = async_lent p - {cell}" "ap_disabled p' = ap_disabled p"
      "ap_capacity p' = ap_capacity p" "rq_capacity (ap_queue p') = rq_capacity (ap_queue p)"
  | (served) x xs p' calls where "waiting p = x # xs"
      "async_waste (Cell cell) p = Inr (p', calls)" "async_inv assoc p'"
      "posted calls = [serve (Cell cell) x]" "waiting p' = xs"
      "ap_storage p' = empty_cell cell (ap_storage p)"
      "async_lent p' = async_lent p" "ap_disabled p' = ap_disabled p"
      "ap_capacity p' = ap_capacity p" "rq_capacity (ap_queue p') = rq_capacity (ap_queue p)"
proof (cases "waiting p")
  case Nil
  note parts = async_inv_parts [OF inv]
  obtain q calls where pop: "rq_pop (ap_queue p) = Inr (None, q, calls)" and q: "rq_sound q"
    "rq_capacity q = rq_capacity (ap_queue p)" "posted calls = []" "rq_contents q = []"
    using requests.pop_empty [OF parts(2) Nil] by blast
  obtain s where s: "storage_waste (Cell cell) (ap_storage p) = Inr s"
    "storage_inv (ap_capacity p) s" "set (used_cells s) = async_lent p - {cell}"
    using cells.waste_lent [OF parts(1), of cell] c by (auto simp: async_lent_def)
  let ?p = "p\<lparr>ap_storage := s, ap_queue := q\<rparr>"
  have "async_waste (Cell cell) p = Inr (?p, queue_calls calls)"
    by (simp add: async_waste_def pop s(1))
  moreover have "async_inv assoc ?p"
    by (simp add: async_inv_def q s(2))
  ultimately show thesis
    using q s by (intro kept [of ?p "queue_calls calls"] Nil) (simp_all add: async_lent_def)
next
  case (Cons x xs)
  note parts = async_inv_parts [OF inv]
  obtain d ctx w where x: "x = (d, ctx, w)" by (cases x)
  obtain q calls where pop: "rq_pop (ap_queue p) = Inr (Some (w, ctx), q, calls)" and q: "rq_sound q"
    "rq_capacity q = rq_capacity (ap_queue p)" "posted calls = []" "rq_contents q = xs"
    using requests.pop_oldest [OF parts(2) Cons [unfolded x]] by blast
  have s: "storage_inv (ap_capacity p) (empty_cell cell (ap_storage p))"
    using parts(1) c empty_cell_inv by (auto simp: async_lent_def)
  show thesis
    using pop q s Cons inv c
    by (intro served [of x xs "p\<lparr>ap_storage := empty_cell cell (ap_storage p), ap_queue := q\<rparr>"])
      (auto simp: async_waste_def async_lent_def update_cell_empty serve_def x
        intro: async_inv_served)
qed

text \<open>What the two have in common.\<close>

definition given_back ::
  "nat \<Rightarrow> ('c, 'x, 'h, 'v) async_pool \<Rightarrow> ('c, 'x, 'h, 'v) async_pool \<Rightarrow> ('c, 'x, 'h) pool_calls \<Rightarrow> bool"
where
  "given_back cell p p' calls \<longleftrightarrow>
     ap_disabled p' = ap_disabled p \<and> ap_capacity p' = ap_capacity p
     \<and> rq_capacity (ap_queue p') = rq_capacity (ap_queue p)
     \<and> (waiting p = [] \<and> waiting p' = [] \<and> posted calls = [] \<and> async_lent p' = async_lent p - {cell}
        \<or> (\<exists>x. waiting p = x # waiting p' \<and> posted calls = [serve (Cell cell) x]
             \<and> async_lent p' = async_lent p))"

lemma given_back_cases:
  assumes "given_back cell p p' calls"
  obtains
    (kept) "waiting p = []" "waiting p' = []" "posted calls = []" "async_lent p' = async_lent p - {cell}"
  | (served) x where "waiting p = x # waiting p'" "posted calls = [serve (Cell cell) x]"
      "async_lent p' = async_lent p"
  using assms unfolding given_back_def by blast

lemma given_back_same:
  "given_back cell p p' calls \<Longrightarrow> ap_disabled p' = ap_disabled p \<and> ap_capacity p' = ap_capacity p
     \<and> rq_capacity (ap_queue p') = rq_capacity (ap_queue p)"
  by (simp add: given_back_def)

lemma async_give_back:
  assumes inv: "async_inv assoc p" and c: "cell \<in> async_lent p"
  shows "\<exists>p' calls. async_recycle now (Cell cell) p = Inr (p', calls) \<and> async_inv assoc p'
      \<and> given_back cell p p' calls"
    and "\<exists>p' calls. async_waste (Cell cell) p = Inr (p', calls) \<and> async_inv assoc p'
      \<and> given_back cell p p' calls"
  by (rule async_recycle_ok [OF inv c, of now]; simp add: given_back_def)
    (rule async_waste_ok [OF inv c]; simp add: given_back_def)

subsection \<open>Disabling, expiry, invalidation\<close>

definition refuse :: "time_point \<times> 'c \<times> ('x, 'h) list_iterator_handler \<Rightarrow> 'c \<times> ('x, 'h) task" where
  "refuse = (\<lambda>(d, c, w). (c, Error_Task (On_Error_Handler (make_error_code Disabled) w)))"

lemma refuse_queued_ok:
  "rq_sound q \<Longrightarrow>
   \<exists>q' calls. refuse_queued q = Inr (q', calls) \<and> rq_sound q' \<and> rq_contents q' = []
     \<and> rq_capacity q' = rq_capacity q \<and> posted calls = map refuse (rq_contents q)"
proof (induction "rq_contents q" arbitrary: q)
  case Nil
  then obtain q' calls where "rq_pop q = Inr (None, q', calls)" "rq_sound q'"
    "rq_capacity q' = rq_capacity q" "posted calls = []" "rq_contents q' = []"
    using requests.pop_empty [of q] by auto
  then show ?case
    using Nil.hyps by (auto simp: refuse_queued.simps [of q])
next
  case (Cons x xs)
  obtain d c w where x: "x = (d, c, w)" by (cases x)
  obtain q1 calls where pop: "rq_pop q = Inr (Some (w, c), q1, calls)" "rq_sound q1"
    "rq_capacity q1 = rq_capacity q" "posted calls = []" "rq_contents q1 = xs"
    using requests.pop_oldest [OF Cons.prems Cons.hyps(2) [symmetric, unfolded x]] by blast
  obtain q' calls' where rest: "refuse_queued q1 = Inr (q', calls')" "rq_sound q'" "rq_contents q' = []"
    "rq_capacity q' = rq_capacity q1" "posted calls' = map refuse (rq_contents q1)"
    using Cons.hyps(1) [OF pop(5) [symmetric] pop(2)] by blast
  have "rq_contents q = x # xs"
    using Cons.hyps(2) by simp
  then show ?case
    using pop rest by (auto simp: refuse_queued.simps [of q] refuse_def x)
qed

lemma async_disable_ok:
  assumes "async_inv assoc p"
  obtains p' calls where "async_disable p = Inr (p', calls)" "async_inv assoc p'"
    "posted calls = map refuse (waiting p)" "waiting p' = []" "ap_disabled p'"
    "ap_storage p' = ap_storage p" "ap_capacity p' = ap_capacity p"
    "rq_capacity (ap_queue p') = rq_capacity (ap_queue p)"
proof -
  obtain q calls where "refuse_queued (ap_queue p) = Inr (q, calls)" "rq_sound q" "rq_contents q = []"
    "rq_capacity q = rq_capacity (ap_queue p)" "posted calls = map refuse (waiting p)"
    using refuse_queued_ok [OF async_inv_parts(2) [OF assms]] by blast
  then show thesis
    using assms
    by (intro that [of "p\<lparr>ap_queue := q, ap_disabled := True\<rparr>"]) (auto simp: async_disable_def async_inv_def)
qed

definition expire :: "time_point \<times> 'c \<times> ('x, 'h) list_iterator_handler \<Rightarrow> 'c \<times> ('x, 'h) task" where
  "expire = (\<lambda>(d, c, w). (c, Expired_Task (Expired_Handler w)))"

lemma async_wait_done_ok:
  assumes "async_inv assoc p"
  obtains p' calls where "async_wait_done ec t p = Inr (p', calls)" "async_inv assoc p'"
    "posted calls = (if failed ec then [] else map expire (due t (waiting p)))"
    "waiting p' = (if failed ec then waiting p else filter (\<lambda>x. \<not> fst x \<le> t) (waiting p))"
    "ap_storage p' = ap_storage p" "ap_disabled p' = ap_disabled p" "ap_capacity p' = ap_capacity p"
    "rq_capacity (ap_queue p') = rq_capacity (ap_queue p)"
proof -
  note inv = async_inv_parts [OF assms]
  obtain q calls where cancel: "rq_cancel ec t (ap_queue p) = Inr (q, calls)"
    using requests.never_faults(3) [OF inv(2)] by (metis prod.collapse)
  note q = requests.cancel_contents [OF inv(2) cancel]
  have "async_inv assoc (p\<lparr>ap_queue := q\<rparr>)"
    using q inv(3) by (intro async_inv_queue [OF assms]) (auto split: if_splits)
  with cancel q show thesis
    by (intro that [of "p\<lparr>ap_queue := q\<rparr>" "queue_calls calls"])
      (auto simp: async_wait_done_def expire_def)
qed

lemma async_invalidate_ok:
  assumes "async_inv assoc p"
  shows "async_inv assoc (async_invalidate p)" "async_lent (async_invalidate p) = async_lent p"
    "waiting (async_invalidate p) = waiting p" "ap_disabled (async_invalidate p) = ap_disabled p"
    "async_free (async_invalidate p) = async_free p" "ap_capacity (async_invalidate p) = ap_capacity p"
    "ap_queue (async_invalidate p) = ap_queue p"
  using assms cells.invalidate_lent [OF async_inv_parts(1) [OF assms]]
  by (auto simp: async_inv_def async_invalidate_def async_lent_def async_free_def)

end
