(* ===== verification/Async_Runs.thy ===== *)
theory Async_Runs
  imports Async_Contract
begin

text \<open>
  Any interleaving of the threads that use one asynchronous pool, as a sequence of events.

  The state of the system is the pool, the calls of \<open>get\<close> that have released the pool's mutex and are
  about to push their request (\<open>pushing\<close>), the tasks handed to I/O contexts and not yet executed
  (\<open>in_flight\<close>), the cells whose handler has been called and that have not been given back
  (\<open>holding\<close>), and the calls of handlers so far (\<open>called\<close>). An I/O context may execute its tasks in
  any order. Events that name a pending call or task that does not exist change nothing.

  \<open>Disable_Pool\<close> is a call of \<open>disable\<close> between whose pops nobody touches the queue. \<open>Async_Semaphore\<close>
  has the calls that are disturbed, and \<open>Async_Threads\<close> every step of every operation.
\<close>

subsection \<open>Events\<close>

record ('c, 'x, 'h, 'v) async_system =
  a_pool :: "('c, 'x, 'h, 'v) async_pool"
  pushing :: "('c \<times> 'h \<times> duration) list"
  in_flight :: "('c \<times> ('x, 'h) task) list"
  holding :: "nat list"
  called :: "'h handler_call list"

datatype ('c, 'h) async_event =
    Get_Begin 'c 'h duration time_point
  | Get_Push nat time_point
  | Run_Task nat
  | Give_Recycle time_point nat
  | Give_Waste nat
  | Wait_Done error_code time_point
  | Disable_Pool
  | Invalidate_Pool

definition remove_nth :: "nat \<Rightarrow> 'a list \<Rightarrow> 'a list" where
  "remove_nth k xs = take k xs @ drop (Suc k) xs"

definition cell_of :: "cell_iterator \<Rightarrow> nat list" where
  "cell_of it = (case it of Singular \<Rightarrow> [] | Cell c \<Rightarrow> [c])"

text \<open>The outcome of an operation of the pool that emits tasks.\<close>

definition emit ::
  "('c, 'x, 'h, 'v) async_system \<Rightarrow> (('c, 'x, 'h, 'v) async_pool \<times> ('c, 'x, 'h) pool_calls) result \<Rightarrow>
   ('c, 'x, 'h, 'v) async_system result"
where
  "emit \<sigma> r = and_then r (\<lambda>(p, calls).
     Inr (\<sigma>\<lparr>a_pool := p, in_flight := in_flight \<sigma> @ posted calls\<rparr>))"

fun async_step ::
  "('h \<Rightarrow> 'x) \<Rightarrow> ('c, 'h) async_event \<Rightarrow> ('c, 'x, 'h, 'v) async_system \<Rightarrow>
   ('c, 'x, 'h, 'v) async_system result"
where
  "async_step assoc (Get_Begin c h w now) \<sigma> =
     (case async_get_locked c h w now (a_pool \<sigma>) of
        (p, Some calls) \<Rightarrow> Inr (\<sigma>\<lparr>a_pool := p, in_flight := in_flight \<sigma> @ posted calls\<rparr>)
      | (p, None) \<Rightarrow> Inr (\<sigma>\<lparr>a_pool := p, pushing := pushing \<sigma> @ [(c, h, w)]\<rparr>))"
| "async_step assoc (Get_Push k now) \<sigma> =
     (if k < length (pushing \<sigma>) then
        case pushing \<sigma> ! k of
          (c, h, w) \<Rightarrow> emit (\<sigma>\<lparr>pushing := remove_nth k (pushing \<sigma>)\<rparr>)
                         (async_get_push assoc c h w now (a_pool \<sigma>))
      else Inr \<sigma>)"
| "async_step assoc (Run_Task k) \<sigma> =
     (if k < length (in_flight \<sigma>) then
        and_then (run_task (snd (in_flight \<sigma> ! k))) (\<lambda>(h, ec, it).
          Inr (\<sigma>\<lparr>in_flight := remove_nth k (in_flight \<sigma>), holding := cell_of it @ holding \<sigma>,
                 called := called \<sigma> @ [(h, ec, it)]\<rparr>))
      else Inr \<sigma>)"
| "async_step assoc (Give_Recycle now c) \<sigma> =
     emit (\<sigma>\<lparr>holding := remove1 c (holding \<sigma>)\<rparr>) (async_recycle now (Cell c) (a_pool \<sigma>))"
| "async_step assoc (Give_Waste c) \<sigma> =
     emit (\<sigma>\<lparr>holding := remove1 c (holding \<sigma>)\<rparr>) (async_waste (Cell c) (a_pool \<sigma>))"
| "async_step assoc (Wait_Done ec t) \<sigma> = emit \<sigma> (async_wait_done ec t (a_pool \<sigma>))"
| "async_step assoc Disable_Pool \<sigma> = emit \<sigma> (async_disable (a_pool \<sigma>))"
| "async_step assoc Invalidate_Pool \<sigma> = Inr (\<sigma>\<lparr>a_pool := async_invalidate (a_pool \<sigma>)\<rparr>)"

fun async_run ::
  "('h \<Rightarrow> 'x) \<Rightarrow> ('c, 'h) async_event list \<Rightarrow> ('c, 'x, 'h, 'v) async_system \<Rightarrow>
   ('c, 'x, 'h, 'v) async_system result"
where
  "async_run assoc [] \<sigma> = Inr \<sigma>"
| "async_run assoc (e # es) \<sigma> = and_then (async_step assoc e \<sigma>) (async_run assoc es)"

definition async_start :: "('c, 'x, 'h, 'v) async_pool \<Rightarrow> ('c, 'x, 'h, 'v) async_system" where
  "async_start p = \<lparr>a_pool = p, pushing = [], in_flight = [], holding = [], called = []\<rparr>"

text \<open>The protocol: a cell is given back only by its holder.\<close>

fun gives_held :: "('c, 'x, 'h, 'v) async_system \<Rightarrow> ('c, 'h) async_event \<Rightarrow> bool" where
  "gives_held \<sigma> (Give_Recycle now c) = (c \<in> set (holding \<sigma>))"
| "gives_held \<sigma> (Give_Waste c) = (c \<in> set (holding \<sigma>))"
| "gives_held \<sigma> _ = True"

fun all_give_held ::
  "('h \<Rightarrow> 'x) \<Rightarrow> ('c, 'h) async_event list \<Rightarrow> ('c, 'x, 'h, 'v) async_system \<Rightarrow> bool" where
  "all_give_held assoc [] \<sigma> = True"
| "all_give_held assoc (e # es) \<sigma> =
     (gives_held \<sigma> e
      \<and> (case async_step assoc e \<sigma> of Inl _ \<Rightarrow> True | Inr \<tau> \<Rightarrow> all_give_held assoc es \<tau>))"

declare remove_nth_def [exec] cell_of_def [exec] emit_def [exec] async_start_def [exec]

subsection \<open>The invariant\<close>

definition flight_cells :: "('c \<times> ('x, 'h) task) list \<Rightarrow> nat list" where
  "flight_cells ts = concat (map (\<lambda>(c, t). cell_of (task_iterator t)) ts)"

definition system_inv :: "('h \<Rightarrow> 'x) \<Rightarrow> ('c, 'x, 'h, 'v) async_system \<Rightarrow> bool" where
  "system_inv assoc \<sigma> \<longleftrightarrow>
     async_inv assoc (a_pool \<sigma>)
     \<and> (\<forall>(c, t) \<in> set (in_flight \<sigma>). task_sound assoc t)
     \<and> distinct (holding \<sigma> @ flight_cells (in_flight \<sigma>))
     \<and> set (holding \<sigma> @ flight_cells (in_flight \<sigma>)) = async_lent (a_pool \<sigma>)"

declare system_inv_def [inv_simps]

lemma flight_cells_append [simp]: "flight_cells (ts @ us) = flight_cells ts @ flight_cells us"
  by (simp add: flight_cells_def)

lemma flight_cells_simps [simp]:
  "flight_cells [] = []"
  "flight_cells ((c, t) # ts) = cell_of (task_iterator t) @ flight_cells ts"
  by (simp_all add: flight_cells_def)

lemma cell_of_simps [simp]: "cell_of Singular = []" "cell_of (Cell c) = [c]"
  by (simp_all add: cell_of_def)

lemma quiet_tasks [simp]:
  "flight_cells (map refuse xs) = []" "flight_cells (map expire xs) = []"
  by (induction xs) (auto simp: refuse_def expire_def)

lemma quiet_tasks_sound:
  "\<forall>(d, c, w) \<in> set xs. wraps assoc w \<Longrightarrow>
   (\<forall>(c, t) \<in> set (map refuse xs). task_sound assoc t)
   \<and> (\<forall>(c, t) \<in> set (map expire xs). task_sound assoc t)"
  by (auto simp: refuse_def expire_def)

lemma serve_simps [simp]:
  "flight_cells [serve (Cell c) x] = [c]"
  "(\<forall>(c, t) \<in> set [serve it x]. task_sound assoc t) \<longleftrightarrow> it \<noteq> Singular \<and> wraps assoc (snd (snd x))"
  by (cases x; simp add: serve_def)+

lemma mset_remove_nth: "k < length xs \<Longrightarrow> add_mset (xs ! k) (mset (remove_nth k xs)) = mset xs"
  by (metis add.commute append_take_drop_id id_take_nth_drop mset.simps(2) mset_append
      remove_nth_def union_mset_add_mset_right)

lemma set_remove_nth: "set (remove_nth k xs) \<subseteq> set xs"
  by (auto simp: remove_nth_def dest: in_set_takeD in_set_dropD)

lemma mset_flight_cells: "mset (flight_cells ts) = (\<Sum>x \<in># mset ts. mset (cell_of (task_iterator (snd x))))"
  by (induction ts) auto

lemma flight_cells_remove_nth:
  assumes "k < length ts"
  shows "mset (cell_of (task_iterator (snd (ts ! k))) @ flight_cells (remove_nth k ts))
    = mset (flight_cells ts)"
  using arg_cong [OF mset_remove_nth [OF assms], where f = "\<lambda>m. \<Sum>x \<in># m. mset (cell_of (task_iterator (snd x)))"]
  by (simp add: mset_flight_cells)

lemma distinct_set_mset: "mset xs = mset ys \<Longrightarrow> distinct xs = distinct ys \<and> set xs = set ys"
  by (metis mset_eq_imp_distinct_iff set_mset_mset)

subsection \<open>Accounting for handlers\<close>

text \<open>
  Where a handler can be: with a call of \<open>get\<close> that is about to push, in the queue, in a task that was
  handed to an I/O context, or called.
\<close>

definition waiting_handlers ::
  "(time_point \<times> 'c \<times> ('x, 'h) list_iterator_handler) list \<Rightarrow> 'h list" where
  "waiting_handlers xs = map (\<lambda>(d, c, w). lih_handler w) xs"

definition task_handlers :: "('c \<times> ('x, 'h) task) list \<Rightarrow> 'h list" where
  "task_handlers ts = map (\<lambda>(c, t). task_handler t) ts"

definition accounted :: "('c, 'x, 'h, 'v) async_system \<Rightarrow> 'h multiset" where
  "accounted \<sigma> =
     mset (map (\<lambda>(c, h, w). h) (pushing \<sigma>)) + mset (waiting_handlers (waiting (a_pool \<sigma>)))
     + mset (task_handlers (in_flight \<sigma>)) + mset (map fst (called \<sigma>))"

fun submitted :: "('c, 'h) async_event list \<Rightarrow> 'h list" where
  "submitted [] = []"
| "submitted (Get_Begin c h w now # es) = h # submitted es"
| "submitted (e # es) = submitted es"

lemma task_handlers_simps [simp]:
  "task_handlers [] = []"
  "task_handlers (ts @ us) = task_handlers ts @ task_handlers us"
  "task_handlers ((c, t) # ts) = task_handler t # task_handlers ts"
  "task_handlers [serve it x] = waiting_handlers [x]"
  "task_handlers (map refuse xs) = waiting_handlers xs"
  "task_handlers (map expire xs) = waiting_handlers xs"
  by (cases x; auto simp: task_handlers_def waiting_handlers_def serve_def refuse_def expire_def)+

lemma waiting_handlers_simps [simp]:
  "waiting_handlers [] = []"
  "waiting_handlers (xs @ ys) = waiting_handlers xs @ waiting_handlers ys"
  "waiting_handlers ((d, c, w) # xs) = lih_handler w # waiting_handlers xs"
  by (simp_all add: waiting_handlers_def)

lemma waiting_handlers_Cons: "waiting_handlers (x # xs) = waiting_handlers [x] @ waiting_handlers xs"
  by (simp add: waiting_handlers_def)

lemma mset_due_later:
  "mset (waiting_handlers (due t xs)) + mset (waiting_handlers (filter (\<lambda>x. \<not> fst x \<le> t) xs))
     = mset (waiting_handlers xs)"
  by (simp add: waiting_handlers_def due_def image_mset_filter_mset_swap
      flip: image_mset_union multiset_partition)

lemma mset_task_handlers_remove:
  "k < length ts \<Longrightarrow>
   add_mset (task_handler (snd (ts ! k))) (mset (task_handlers (remove_nth k ts))) = mset (task_handlers ts)"
  using arg_cong [OF mset_remove_nth [of k ts], where f = "image_mset (\<lambda>(c, t). task_handler t)"]
  by (simp add: task_handlers_def case_prod_unfold)

lemma mset_pushing_remove:
  "k < length xs \<Longrightarrow> xs ! k = (c, h, w) \<Longrightarrow>
   add_mset h (mset (map (\<lambda>(c, h, w). h) (remove_nth k xs))) = mset (map (\<lambda>(c, h, w). h) xs)"
  using arg_cong [OF mset_remove_nth [of k xs], where f = "image_mset (\<lambda>(c, h, w). h)"]
  by simp

subsection \<open>Each event keeps the invariant and loses no handler\<close>

definition same_bounds ::
  "('c, 'x, 'h, 'v) async_pool \<Rightarrow> ('c, 'x, 'h, 'v) async_pool \<Rightarrow> bool" where
  "same_bounds p p' \<longleftrightarrow>
     ap_capacity p' = ap_capacity p \<and> rq_capacity (ap_queue p') = rq_capacity (ap_queue p)"

declare same_bounds_def [simp]

definition step_ok :: "('h \<Rightarrow> 'x) \<Rightarrow> 'h list \<Rightarrow> ('c, 'x, 'h, 'v) async_system \<Rightarrow>
    ('c, 'x, 'h, 'v) async_system result \<Rightarrow> bool" where
  "step_ok assoc hs \<sigma> r \<longleftrightarrow>
     (\<exists>\<tau>. r = Inr \<tau> \<and> system_inv assoc \<tau> \<and> accounted \<tau> = accounted \<sigma> + mset hs
       \<and> same_bounds (a_pool \<sigma>) (a_pool \<tau>))"

lemma step_ok_get_begin:
  assumes "system_inv assoc \<sigma>"
  shows "step_ok assoc [h] \<sigma> (async_step assoc (Get_Begin c h w now) \<sigma>)"
proof -
  have inv: "async_inv assoc (a_pool \<sigma>)"
    using assms by (simp add: system_inv_def)
  then show ?thesis
  proof (cases rule: async_get_locked_cases [where c = c and h = h and w = w and now = now])
    case (leased s cell)
    then show ?thesis
      using assms by (auto simp: step_ok_def system_inv_def accounted_def)
  qed (use assms in \<open>auto simp: step_ok_def system_inv_def accounted_def\<close>)
qed

lemma step_ok_get_push:
  assumes "system_inv assoc \<sigma>"
  shows "step_ok assoc [] \<sigma> (async_step assoc (Get_Push k now) \<sigma>)"
proof (cases "k < length (pushing \<sigma>)")
  case True
  obtain c h w where k: "pushing \<sigma> ! k = (c, h, w)" by (cases "pushing \<sigma> ! k")
  have inv: "async_inv assoc (a_pool \<sigma>)"
    using assms by (simp add: system_inv_def)
  obtain p calls where push: "async_get_push assoc c h w now (a_pool \<sigma>) = Inr (p, calls)"
    "async_inv assoc p" "ap_storage p = ap_storage (a_pool \<sigma>)"
    "ap_capacity p = ap_capacity (a_pool \<sigma>)"
    "rq_capacity (ap_queue p) = rq_capacity (ap_queue (a_pool \<sigma>))"
    "posted calls = [] \<and> waiting p = waiting (a_pool \<sigma>) @ [(add now w, c, list_iterator_handler_of assoc h)]
     \<or> posted calls = [(c, Error_Task (On_Error_Handler (make_error_code Request_Queue_Overflow)
         (list_iterator_handler_of assoc h)))] \<and> waiting p = waiting (a_pool \<sigma>)"
    by (rule async_get_push_ok [OF inv, of c h w now]) metis
  have "async_lent p = async_lent (a_pool \<sigma>)"
    by (simp add: async_lent_def push(3))
  then show ?thesis
    using True k push assms mset_pushing_remove [OF True k]
    by (auto simp: step_ok_def system_inv_def accounted_def emit_def)
next
  case False
  with assms show ?thesis by (simp add: step_ok_def)
qed

lemma step_ok_run_task:
  assumes "system_inv assoc \<sigma>"
  shows "step_ok assoc [] \<sigma> (async_step assoc (Run_Task k) \<sigma>)"
proof (cases "k < length (in_flight \<sigma>)")
  case True
  obtain c t where k: "in_flight \<sigma> ! k = (c, t)" by (cases "in_flight \<sigma> ! k")
  have "task_sound assoc t"
    using assms True k nth_mem [OF True] by (auto simp: system_inv_def)
  note run = run_task_sound [OF this]
  have "mset ((cell_of (task_iterator t) @ holding \<sigma>) @ flight_cells (remove_nth k (in_flight \<sigma>)))
      = mset (holding \<sigma> @ flight_cells (in_flight \<sigma>))"
    using flight_cells_remove_nth [OF True] k by (simp add: union_ac)
  note cells = distinct_set_mset [OF this]
  have "mset (task_handlers (in_flight \<sigma>))
      = add_mset (task_handler t) (mset (task_handlers (remove_nth k (in_flight \<sigma>))))"
    using mset_task_handlers_remove [OF True] k by simp
  moreover have "\<forall>(c, t) \<in> set (remove_nth k (in_flight \<sigma>)). task_sound assoc t"
    using assms set_remove_nth [of k "in_flight \<sigma>"] unfolding system_inv_def by blast
  ultimately show ?thesis
    using True k run assms cells by (auto simp: step_ok_def system_inv_def accounted_def)
next
  case False
  with assms show ?thesis by (simp add: step_ok_def)
qed

text \<open>Giving a cell back: it leaves the lent cells, or goes to the oldest waiting request.\<close>

lemma step_ok_give:
  assumes inv: "system_inv assoc \<sigma>" and c: "c \<in> set (holding \<sigma>)"
    and op: "\<exists>p calls. r = Inr (p, calls) \<and> async_inv assoc p \<and> given_back c (a_pool \<sigma>) p calls"
  shows "step_ok assoc [] \<sigma> (emit (\<sigma>\<lparr>holding := remove1 c (holding \<sigma>)\<rparr>) r)"
proof -
  obtain p calls where r: "r = Inr (p, calls)" "async_inv assoc p" and out: "given_back c (a_pool \<sigma>) p calls"
    using op by blast
  note same = given_back_same [OF out]
  from out show ?thesis
  proof (cases rule: given_back_cases)
    case kept
    then show ?thesis
      using inv c r same by (auto simp: step_ok_def emit_def system_inv_def accounted_def)
  next
    case (served x)
    have "mset (remove1 c (holding \<sigma>) @ flight_cells (in_flight \<sigma> @ [serve (Cell c) x]))
        = mset (holding \<sigma> @ flight_cells (in_flight \<sigma>))"
      using mset_remove1_add [OF c] by simp
    note cells = distinct_set_mset [OF this]
    obtain d ctx w where xd: "x = (d, ctx, w)" by (cases x)
    have "wraps assoc w"
      using inv served(1) by (auto simp: system_inv_def async_inv_def xd)
    then show ?thesis
      using inv r same served cells
      by (auto simp: step_ok_def emit_def system_inv_def accounted_def xd serve_def)
  qed
qed

lemma holder_lent:
  "system_inv assoc \<sigma> \<Longrightarrow> c \<in> set (holding \<sigma>) \<Longrightarrow> async_inv assoc (a_pool \<sigma>)"
  "system_inv assoc \<sigma> \<Longrightarrow> c \<in> set (holding \<sigma>) \<Longrightarrow> c \<in> async_lent (a_pool \<sigma>)"
  by (auto simp: system_inv_def)

lemmas holder_gives = async_give_back [OF holder_lent]

lemma step_ok_gives:
  assumes "system_inv assoc \<sigma>" and "c \<in> set (holding \<sigma>)"
  shows "step_ok assoc [] \<sigma> (async_step assoc (Give_Recycle now c) \<sigma>)"
    and "step_ok assoc [] \<sigma> (async_step assoc (Give_Waste c) \<sigma>)"
  by (simp_all add: step_ok_give [OF assms holder_gives(1) [OF assms assms]]
      step_ok_give [OF assms holder_gives(2) [OF assms assms]])

lemma step_ok_wait_done:
  assumes inv: "system_inv assoc \<sigma>"
  shows "step_ok assoc [] \<sigma> (async_step assoc (Wait_Done ec t) \<sigma>)"
proof -
  have a: "async_inv assoc (a_pool \<sigma>)"
    using inv by (simp add: system_inv_def)
  obtain p calls where op: "async_wait_done ec t (a_pool \<sigma>) = Inr (p, calls)" "async_inv assoc p"
    "posted calls = (if failed ec then [] else map expire (due t (waiting (a_pool \<sigma>))))"
    "waiting p = (if failed ec then waiting (a_pool \<sigma>)
       else filter (\<lambda>x. \<not> fst x \<le> t) (waiting (a_pool \<sigma>)))"
    "ap_storage p = ap_storage (a_pool \<sigma>)" "same_bounds (a_pool \<sigma>) p"
    by (rule async_wait_done_ok [OF a, of ec t]) simp
  have "\<forall>(d, c, w) \<in> set (due t (waiting (a_pool \<sigma>))). wraps assoc w"
    using a by (auto simp: async_inv_def due_def)
  note sound = quiet_tasks_sound [OF this]
  have "async_lent p = async_lent (a_pool \<sigma>)"
    by (simp add: async_lent_def op(5))
  then show ?thesis
    using inv op(1-4,6) sound
    by (cases "failed ec")
      (auto simp: step_ok_def emit_def system_inv_def accounted_def union_ac
        mset_due_later [of t "waiting (a_pool \<sigma>)", symmetric])
qed

lemma step_ok_disable:
  assumes inv: "system_inv assoc \<sigma>"
  shows "step_ok assoc [] \<sigma> (async_step assoc Disable_Pool \<sigma>)"
proof -
  have a: "async_inv assoc (a_pool \<sigma>)"
    using inv by (simp add: system_inv_def)
  obtain p calls where op: "async_disable (a_pool \<sigma>) = Inr (p, calls)" "async_inv assoc p"
    "posted calls = map refuse (waiting (a_pool \<sigma>))" "waiting p = []"
    "ap_storage p = ap_storage (a_pool \<sigma>)" "same_bounds (a_pool \<sigma>) p"
    by (rule async_disable_ok [OF a]) simp
  have "\<forall>(d, c, w) \<in> set (waiting (a_pool \<sigma>)). wraps assoc w"
    using a by (auto simp: async_inv_def)
  note sound = quiet_tasks_sound [OF this]
  have "async_lent p = async_lent (a_pool \<sigma>)"
    by (simp add: async_lent_def op(5))
  then show ?thesis
    using inv op(1-4,6) sound
    by (auto simp: step_ok_def emit_def system_inv_def accounted_def)
qed

lemma step_ok_invalidate:
  assumes inv: "system_inv assoc \<sigma>"
  shows "step_ok assoc [] \<sigma> (async_step assoc Invalidate_Pool \<sigma>)"
  using inv async_invalidate_ok [of assoc "a_pool \<sigma>"]
  by (auto simp: step_ok_def system_inv_def accounted_def)

lemma async_step_ok:
  "system_inv assoc \<sigma> \<Longrightarrow> gives_held \<sigma> e \<Longrightarrow> step_ok assoc (submitted [e]) \<sigma> (async_step assoc e \<sigma>)"
proof (cases e)
  case (Get_Begin c h w now)
  assume "system_inv assoc \<sigma>"
  with Get_Begin step_ok_get_begin show ?thesis by (metis submitted.simps(1,2))
qed (simp_all add: step_ok_get_push step_ok_run_task step_ok_gives step_ok_wait_done
    step_ok_disable step_ok_invalidate del: async_step.simps)

lemma submitted_Cons: "submitted (e # es) = submitted [e] @ submitted es"
  by (cases e) simp_all

lemma async_run_ok:
  "system_inv assoc \<sigma> \<Longrightarrow> all_give_held assoc es \<sigma> \<Longrightarrow>
   step_ok assoc (submitted es) \<sigma> (async_run assoc es \<sigma>)"
proof (induction es arbitrary: \<sigma>)
  case Nil
  then show ?case by (simp add: step_ok_def)
next
  case (Cons e es)
  have "gives_held \<sigma> e"
    using Cons.prems(2) by simp
  then obtain \<tau> where \<tau>: "async_step assoc e \<sigma> = Inr \<tau>" "system_inv assoc \<tau>"
    "accounted \<tau> = accounted \<sigma> + mset (submitted [e])" "same_bounds (a_pool \<sigma>) (a_pool \<tau>)"
    using async_step_ok [OF Cons.prems(1)] by (auto simp: step_ok_def)
  have "step_ok assoc (submitted es) \<tau> (async_run assoc es \<tau>)"
    using Cons.IH [OF \<tau>(2)] Cons.prems(2) \<tau>(1) by simp
  then show ?case
    using \<tau> by (auto simp: step_ok_def submitted_Cons [of e es])
qed

lemma async_start_inv:
  assumes "async_pool_create n k timeout life = Inr p"
  shows "system_inv assoc (async_start p)" "accounted (async_start p) = {#}"
    "ap_capacity (a_pool (async_start p)) = n" "rq_capacity (ap_queue (a_pool (async_start p))) = k"
  using async_create_inv(1) [OF assms, of assoc] async_create_inv(2-6) [OF assms]
  by (simp_all add: system_inv_def async_start_def accounted_def)

end
