(* ===== verification/Async_Guarantees.thy ===== *)
theory Async_Guarantees
  imports Async_Runs
begin

text \<open>
  What callers of the asynchronous pool can rely on, for every interleaving and, where it needs
  callers that do not overlap, for serial use; and what they cannot rely on.
\<close>

subsection \<open>Serial use\<close>

text \<open>Operations that run one after the other: the two halves of \<open>get\<close> are not separated.\<close>

datatype ('c, 'h) serial_op =
    Serial_Get 'c 'h duration time_point time_point
  | Serial_Run nat
  | Serial_Recycle time_point nat
  | Serial_Waste nat
  | Serial_Wait_Done error_code time_point
  | Serial_Disable
  | Serial_Invalidate

fun serial_events :: "('c, 'h) serial_op \<Rightarrow> ('c, 'h) async_event list" where
  "serial_events (Serial_Get c h w now now') = [Get_Begin c h w now, Get_Push 0 now']"
| "serial_events (Serial_Run k) = [Run_Task k]"
| "serial_events (Serial_Recycle now c) = [Give_Recycle now c]"
| "serial_events (Serial_Waste c) = [Give_Waste c]"
| "serial_events (Serial_Wait_Done ec t) = [Wait_Done ec t]"
| "serial_events Serial_Disable = [Disable_Pool]"
| "serial_events Serial_Invalidate = [Invalidate_Pool]"

definition serial :: "('c, 'h) serial_op list \<Rightarrow> ('c, 'h) async_event list" where
  "serial ops = concat (map serial_events ops)"

declare serial_def [exec]

text \<open>Nobody waits while a cell is free or after the pool was disabled.\<close>

definition calm :: "('c, 'x, 'h, 'v) async_system \<Rightarrow> bool" where
  "calm \<sigma> \<longleftrightarrow> pushing \<sigma> = []
     \<and> (waiting (a_pool \<sigma>) \<noteq> [] \<longrightarrow> async_free (a_pool \<sigma>) = 0 \<and> \<not> ap_disabled (a_pool \<sigma>))"

lemma calm_get:
  assumes inv: "system_inv assoc \<sigma>" and calm: "calm \<sigma>"
    and run: "async_run assoc [Get_Begin c h w now, Get_Push 0 now'] \<sigma> = Inr \<tau>"
  shows "calm \<tau>"
proof -
  have a: "async_inv assoc (a_pool \<sigma>)"
    using inv by (simp add: system_inv_def)
  then show ?thesis
  proof (cases rule: async_get_locked_cases [where c = c and h = h and w = w and now = now])
    case (leased s cell)
    have "async_free (a_pool \<sigma>) \<noteq> 0"
      using leased(2) lease_None_iff [of now "ap_storage (a_pool \<sigma>)"] by (auto simp: async_free_def)
    with leased run calm show ?thesis
      by (auto simp: calm_def)
  next
    case waits
    obtain p calls where push: "async_get_push assoc c h w now' (a_pool \<sigma>) = Inr (p, calls)"
      "ap_storage p = ap_storage (a_pool \<sigma>)" "ap_disabled p = ap_disabled (a_pool \<sigma>)"
      by (rule async_get_push_ok [OF a, of c h w now']) metis
    have "async_free p = 0"
      using waits(2) by (simp add: async_free_def push(2))
    with waits run calm push show ?thesis
      by (auto simp: calm_def emit_def remove_nth_def)
  qed (use run calm in \<open>auto simp: calm_def\<close>)
qed

lemma calm_give:
  assumes a: "async_inv assoc (a_pool \<sigma>)" "async_inv assoc p" "ap_capacity p = ap_capacity (a_pool \<sigma>)"
    and calm: "calm \<sigma>" and disabled: "ap_disabled p = ap_disabled (a_pool \<sigma>)"
    and out: "waiting p = [] \<or> waiting (a_pool \<sigma>) \<noteq> [] \<and> async_lent p = async_lent (a_pool \<sigma>)"
    and \<tau>: "a_pool \<tau> = p" "pushing \<tau> = pushing \<sigma>"
  shows "calm \<tau>"
  using out calm disabled async_free_same [OF a(1,2) _ a(3)] \<tau> by (auto simp: calm_def)

lemma calm_emit:
  assumes inv: "system_inv assoc \<sigma>" and calm: "calm \<sigma>" and c: "c \<in> set (holding \<sigma>)"
    and op: "\<exists>p calls. r = Inr (p, calls) \<and> async_inv assoc p \<and> given_back c (a_pool \<sigma>) p calls"
    and \<tau>: "emit (\<sigma>\<lparr>holding := hs\<rparr>) r = Inr \<tau>"
  shows "calm \<tau>"
proof -
  obtain p calls where r: "r = Inr (p, calls)" "async_inv assoc p" and out: "given_back c (a_pool \<sigma>) p calls"
    using op by blast
  note same = given_back_same [OF out]
  have \<tau>': "a_pool \<tau> = p" "pushing \<tau> = pushing \<sigma>"
    using \<tau> r(1) by (auto simp: emit_def)
  from out show ?thesis
  proof (cases rule: given_back_cases)
    case kept
    with same \<tau>' show ?thesis
      by (intro calm_give [OF holder_lent(1) [OF inv c] r(2) _ calm]) simp_all
  next
    case (served x)
    with same \<tau>' show ?thesis
      by (intro calm_give [OF holder_lent(1) [OF inv c] r(2) _ calm]) simp_all
  qed
qed

fun is_get :: "('c, 'h) async_event \<Rightarrow> bool" where
  "is_get (Get_Begin c h w now) = True"
| "is_get (Get_Push k now) = True"
| "is_get _ = False"

lemma calm_event:
  assumes inv: "system_inv assoc \<sigma>" and calm: "calm \<sigma>" and held: "gives_held \<sigma> e"
    and other: "\<not> is_get e" and step: "async_step assoc e \<sigma> = Inr \<tau>"
  shows "calm \<tau>"
proof -
  have a: "async_inv assoc (a_pool \<sigma>)" and held_lent: "set (holding \<sigma>) \<subseteq> async_lent (a_pool \<sigma>)"
    using inv by (auto simp: system_inv_def)
  show ?thesis
  proof (cases e)
    case (Run_Task k)
    with step calm show ?thesis
      by (auto simp: calm_def and_then_Inr_iff split: if_splits)
  next
    case (Give_Recycle now c)
    with held have c: "c \<in> set (holding \<sigma>)" by simp
    from step Give_Recycle show ?thesis
      by (intro calm_emit [OF inv calm c holder_gives(1) [OF inv c inv c, of now]]) simp
  next
    case (Give_Waste c)
    with held have c: "c \<in> set (holding \<sigma>)" by simp
    from step Give_Waste show ?thesis
      by (intro calm_emit [OF inv calm c holder_gives(2) [OF inv c inv c]]) simp
  next
    case (Wait_Done ec t)
    obtain p calls where op: "async_wait_done ec t (a_pool \<sigma>) = Inr (p, calls)"
      "waiting p = (if failed ec then waiting (a_pool \<sigma>)
         else filter (\<lambda>x. \<not> fst x \<le> t) (waiting (a_pool \<sigma>)))"
      "ap_storage p = ap_storage (a_pool \<sigma>)" "ap_disabled p = ap_disabled (a_pool \<sigma>)"
      by (rule async_wait_done_ok [OF a, of ec t])
    have "async_free p = async_free (a_pool \<sigma>)"
      by (simp add: async_free_def op(3))
    with op step Wait_Done calm show ?thesis
      by (auto simp: emit_def calm_def split: if_splits)
  next
    case Disable_Pool
    obtain p calls where "async_disable (a_pool \<sigma>) = Inr (p, calls)" "waiting p = []"
      by (rule async_disable_ok [OF a])
    with step Disable_Pool calm show ?thesis
      by (auto simp: emit_def calm_def)
  next
    case Invalidate_Pool
    with step calm async_invalidate_ok [OF a] show ?thesis
      by (auto simp: calm_def)
  qed (use other in simp_all)
qed

lemma async_run_append:
  "async_run assoc (es @ fs) \<sigma> = and_then (async_run assoc es \<sigma>) (async_run assoc fs)"
  by (induction es arbitrary: \<sigma>) (simp_all add: and_then_def split: sum.splits)

lemma all_give_held_append:
  "all_give_held assoc (es @ fs) \<sigma> \<longleftrightarrow> all_give_held assoc es \<sigma>
     \<and> (case async_run assoc es \<sigma> of Inl _ \<Rightarrow> True | Inr \<tau> \<Rightarrow> all_give_held assoc fs \<tau>)"
  by (induction es arbitrary: \<sigma>) (auto split: sum.splits)

lemma serial_events_cases:
  obtains c h w now now' where "serial_events x = [Get_Begin c h w now, Get_Push 0 now']"
  | e where "serial_events x = [e]" "\<not> is_get e"
  by (cases x) auto

lemma calm_serial_op:
  assumes "system_inv assoc \<sigma>" "calm \<sigma>" "all_give_held assoc (serial_events x) \<sigma>"
    and "async_run assoc (serial_events x) \<sigma> = Inr \<tau>"
  shows "calm \<tau>"
proof (cases rule: serial_events_cases [of x])
  case (1 c h w now now')
  with assms calm_get [OF assms(1,2)] show ?thesis by simp
next
  case (2 e)
  with assms show ?thesis
    by (intro calm_event [OF assms(1,2) _ 2(2)]) (auto simp: and_then_Inr_iff)
qed

lemma calm_serial:
  "system_inv assoc \<sigma> \<Longrightarrow> calm \<sigma> \<Longrightarrow> all_give_held assoc (serial ops) \<sigma> \<Longrightarrow>
   async_run assoc (serial ops) \<sigma> = Inr \<tau> \<Longrightarrow> calm \<tau>"
proof (induction ops arbitrary: \<sigma>)
  case Nil
  then show ?case by (simp add: serial_def)
next
  case (Cons x ops)
  have run: "async_run assoc (serial_events x @ serial ops) \<sigma> = Inr \<tau>"
    and held: "all_give_held assoc (serial_events x @ serial ops) \<sigma>"
    using Cons.prems(3,4) by (simp_all add: serial_def)
  then obtain \<rho> where \<rho>: "async_run assoc (serial_events x) \<sigma> = Inr \<rho>"
    "async_run assoc (serial ops) \<rho> = Inr \<tau>"
    by (auto simp: async_run_append and_then_Inr_iff)
  have held': "all_give_held assoc (serial_events x) \<sigma>" "all_give_held assoc (serial ops) \<rho>"
    using held \<rho>(1) by (simp_all add: all_give_held_append)
  have "system_inv assoc \<rho>"
    using async_run_ok [OF Cons.prems(1) held'(1)] \<rho>(1) by (simp add: step_ok_def)
  moreover have "calm \<rho>"
    using calm_serial_op [OF Cons.prems(1,2) held'(1) \<rho>(1)] .
  ultimately show ?case
    using Cons.IH held'(2) \<rho>(2) by blast
qed

subsection \<open>A pool to try things on\<close>

definition async_demo :: "nat \<Rightarrow> nat \<Rightarrow> (string, nat, nat, nat) async_pool" where
  "async_demo n k = \<lparr>ap_storage = storage_of_capacity n duration_max duration_max, ap_capacity = n,
     ap_queue = rq_new k, ap_disabled = False\<rparr>"

definition demo_async :: "(string, nat, nat, nat) async_pool" where "demo_async = async_demo 1 1"

definition demo_assoc :: "nat \<Rightarrow> nat" where "demo_assoc h = h + 100"

definition demo_run :: "(string, nat) async_event list" where
  "demo_run =
     [Get_Begin ''a'' 1 (Duration 9) (Time_Point 1), Run_Task 0,
      Get_Begin ''b'' 2 (Duration 9) (Time_Point 2), Get_Push 0 (Time_Point 2),
      Get_Begin ''a'' 3 (Duration 9) (Time_Point 3), Get_Push 0 (Time_Point 3),
      Get_Begin ''a'' 4 zero_duration (Time_Point 4), Invalidate_Pool,
      Give_Recycle (Time_Point 5) 0, Run_Task 0, Run_Task 1, Wait_Done no_error (Time_Point 11)]"

declare async_demo_def [exec] demo_async_def [exec] demo_assoc_def [exec] demo_run_def [exec]

lemma async_demo_create: "0 < n \<Longrightarrow> async_pool_create n k duration_max duration_max = Inr (async_demo n k)"
  by (simp add: async_pool_create_def async_assert_capacity_def async_demo_def)

lemma demo_async_create: "async_pool_create 1 1 duration_max duration_max = Inr demo_async"
  by (simp add: demo_async_def async_demo_create)

lemma demo_run_legal: "all_give_held demo_assoc demo_run (async_start demo_async)"
  by code_simp

subsection \<open>For every interleaving\<close>

text \<open>
  C5. Every handler is called exactly once. Whatever threads, I/O contexts and timers do, and in
  whatever order, each handler passed to \<open>get\<close> is at any moment in exactly one place: with its call
  of \<open>get\<close> about to be queued, waiting in the queue, in one task handed to an I/O context, or called,
  once. None is lost and none is called twice.
\<close>

theorem async_handlers_exactly_once:
  assumes "async_pool_create n k timeout life = Inr p"
    and "all_give_held assoc es (async_start p)"
  shows "\<exists>\<sigma>. async_run assoc es (async_start p) = Inr \<sigma>
    \<and> mset (submitted es)
      = mset (map (\<lambda>(c, h, w). h) (pushing \<sigma>))
        + mset (map (\<lambda>(d, c, w). lih_handler w) (rq_contents (ap_queue (a_pool \<sigma>))))
        + mset (map (\<lambda>(c, t). task_handler t) (in_flight \<sigma>))
        + mset (map fst (called \<sigma>))"
proof -
  obtain \<sigma> where run: "async_run assoc es (async_start p) = Inr \<sigma>"
    "accounted \<sigma> = accounted (async_start p) + mset (submitted es)"
    using async_run_ok [OF async_start_inv(1) [OF assms(1)] assms(2)] by (auto simp: step_ok_def)
  have "accounted \<sigma> = mset (submitted es)"
    using run(2) async_start_inv(2) [OF assms(1)] by simp
  with run(1) show ?thesis
    by (auto simp: accounted_def waiting_handlers_def task_handlers_def)
qed

theorem async_handlers_exactly_once_witness:
  "\<exists>\<sigma>. async_run demo_assoc demo_run (async_start demo_async) = Inr \<sigma>
    \<and> {#1, 2, 3, 4#}
      = mset (map (\<lambda>(c, h, w). h) (pushing \<sigma>))
        + mset (map (\<lambda>(d, c, w). lih_handler w) (rq_contents (ap_queue (a_pool \<sigma>))))
        + mset (map (\<lambda>(c, t). task_handler t) (in_flight \<sigma>))
        + mset (map fst (called \<sigma>))"
  using async_handlers_exactly_once [OF demo_async_create demo_run_legal]
  by (simp add: demo_run_def)

text \<open>
  C9. The cells in use are divided without overlap among the handlers that were called with one and
  have not given it back and the tasks that are still to be executed, so no cell ever has two owners;
  nothing that happens is undefined behaviour, and giving back a cell one holds never is.
\<close>

theorem async_cells_exclusive:
  assumes "async_pool_create n k timeout life = Inr p"
    and "all_give_held assoc es (async_start p)"
  shows "\<exists>\<sigma>. async_run assoc es (async_start p) = Inr \<sigma>
    \<and> distinct (holding \<sigma> @ flight_cells (in_flight \<sigma>))
    \<and> set (holding \<sigma> @ flight_cells (in_flight \<sigma>)) = set (used_cells (ap_storage (a_pool \<sigma>)))
    \<and> (\<forall>c \<in> set (holding \<sigma>). \<exists>q calls. async_recycle now (Cell c) (a_pool \<sigma>) = Inr (q, calls))
    \<and> (\<forall>c \<in> set (holding \<sigma>). \<exists>q calls. async_waste (Cell c) (a_pool \<sigma>) = Inr (q, calls))"
proof -
  obtain \<sigma> where run: "async_run assoc es (async_start p) = Inr \<sigma>" and inv: "system_inv assoc \<sigma>"
    using async_run_ok [OF async_start_inv(1) [OF assms(1)] assms(2)] by (auto simp: step_ok_def)
  have "\<exists>q calls. async_recycle now (Cell c) (a_pool \<sigma>) = Inr (q, calls)"
    and "\<exists>q calls. async_waste (Cell c) (a_pool \<sigma>) = Inr (q, calls)" if "c \<in> set (holding \<sigma>)" for c
    using holder_gives [OF inv that inv that] by blast+
  with run inv show ?thesis
    by (auto simp: system_inv_def async_lent_def)
qed

theorem async_cells_exclusive_witness:
  "\<exists>\<sigma>. async_run demo_assoc demo_run (async_start demo_async) = Inr \<sigma>
    \<and> holding \<sigma> = [0] \<and> distinct (holding \<sigma> @ flight_cells (in_flight \<sigma>))
    \<and> (\<exists>q calls. async_recycle epoch (Cell 0) (a_pool \<sigma>) = Inr (q, calls))"
proof -
  have "map_sum id holding (async_run demo_assoc demo_run (async_start demo_async)) = Inr [0]"
    by code_simp
  then show ?thesis
    using async_cells_exclusive [OF demo_async_create demo_run_legal, of epoch] by fastforce
qed

text \<open>
  C29. Each task handed to an I/O context, when it is executed, calls exactly the caller's handler, with
  an error code that is an error exactly when the iterator is the default one, and it carries the
  executor associated with that handler, through every wrapper.
\<close>

theorem async_tasks_call_their_handler:
  assumes "async_pool_create n k timeout life = Inr p"
    and "all_give_held assoc es (async_start p)" and "async_run assoc es (async_start p) = Inr \<sigma>"
    and "(c, t) \<in> set (in_flight \<sigma>)"
  shows "\<exists>h ec it. run_task t = Inr (h, ec, it) \<and> h \<in> set (submitted es)
    \<and> task_executor assoc t = assoc h \<and> (failed ec \<longleftrightarrow> it = Singular)"
proof -
  have inv: "system_inv assoc \<sigma>" and acc: "accounted \<sigma> = mset (submitted es)"
    using async_run_ok [OF async_start_inv(1) [OF assms(1)] assms(2)] assms(3)
      async_start_inv(2) [OF assms(1)] by (auto simp: step_ok_def)
  then have sound: "task_sound assoc t"
    using assms(4) by (auto simp: system_inv_def)
  have "task_handler t \<in># accounted \<sigma>"
    using assms(4) by (force simp: accounted_def task_handlers_def)
  then show ?thesis
    using run_task_sound [OF sound] task_executor_sound [OF sound] task_code_sound [OF sound] acc
    by auto
qed

theorem async_tasks_call_their_handler_witness:
  "\<exists>\<sigma> c t h it. async_run demo_assoc demo_run (async_start demo_async) = Inr \<sigma>
    \<and> (c, t) \<in> set (in_flight \<sigma>) \<and> run_task t = Inr (h, make_error_code Get_Resource_Timeout, it)
    \<and> task_executor demo_assoc t = demo_assoc h \<and> it = Singular"
proof -
  obtain \<sigma> where run: "async_run demo_assoc demo_run (async_start demo_async) = Inr \<sigma>"
    using async_run_ok [OF async_start_inv(1) [OF demo_async_create] demo_run_legal]
    by (auto simp: step_ok_def)
  have "map_sum id (\<lambda>\<sigma>. map (\<lambda>(c, t). (c, task_code t)) (in_flight \<sigma>))
      (async_run demo_assoc demo_run (async_start demo_async))
    = Inr [(''a'', make_error_code Get_Resource_Timeout)]"
    by code_simp
  then have "map (\<lambda>(c, t). (c, task_code t)) (in_flight \<sigma>)
      = [(''a'', make_error_code Get_Resource_Timeout)]"
    by (simp add: run)
  then obtain t where t: "(''a'', t) \<in> set (in_flight \<sigma>)" "task_code t = make_error_code Get_Resource_Timeout"
    by (auto simp: map_eq_Cons_conv)
  obtain h ec it where call: "run_task t = Inr (h, ec, it)" "task_executor demo_assoc t = demo_assoc h"
    "failed ec \<longleftrightarrow> it = Singular"
    using async_tasks_call_their_handler [OF demo_async_create demo_run_legal run t(1)] by auto
  have "task_sound demo_assoc t"
    using async_run_ok [OF async_start_inv(1) [OF demo_async_create] demo_run_legal] run t(1)
    by (auto simp: step_ok_def system_inv_def)
  from run_task_sound [OF this] call t have "ec = make_error_code Get_Resource_Timeout"
    by simp
  with call run t(1) show ?thesis by auto
qed

text \<open>
  The statistics of the pool stay within its bounds at any moment: the cells that hold or may hold
  a value never exceed the capacity, the ones in use are those held or on their way to a handler,
  and the queue never exceeds its own capacity.
\<close>

theorem async_stats_bounded:
  assumes "async_pool_create n k timeout life = Inr p"
    and "all_give_held assoc es (async_start p)" and "async_run assoc es (async_start p) = Inr \<sigma>"
    and "stats = async_stats_of (a_pool \<sigma>)"
  shows "as_size stats \<le> n \<and> as_size stats = as_available stats + as_used stats
    \<and> as_used stats = length (holding \<sigma>) + length (flight_cells (in_flight \<sigma>))
    \<and> as_queue_size stats \<le> k"
proof -
  have inv: "system_inv assoc \<sigma>"
    and bounds: "ap_capacity (a_pool \<sigma>) = n" "rq_capacity (ap_queue (a_pool \<sigma>)) = k"
    using async_run_ok [OF async_start_inv(1) [OF assms(1)] assms(2)] assms(3)
      async_start_inv(3,4) [OF assms(1)]
    by (auto simp: step_ok_def)
  from inv have a: "async_inv assoc (a_pool \<sigma>)"
    by (simp add: system_inv_def)
  note parts = async_inv_parts [OF a]
  have "length (used_cells (ap_storage (a_pool \<sigma>))) = card (async_lent (a_pool \<sigma>))"
    using distinct_card [OF storage_inv_disjoint(2) [OF parts(1)]] by (simp add: async_lent_def)
  also have "\<dots> = length (holding \<sigma> @ flight_cells (in_flight \<sigma>))"
    using inv distinct_card [of "holding \<sigma> @ flight_cells (in_flight \<sigma>)"] by (simp add: system_inv_def)
  finally have used: "length (used_cells (ap_storage (a_pool \<sigma>)))
      = length (holding \<sigma>) + length (flight_cells (in_flight \<sigma>))" by simp
  have "rq_inv (ap_queue (a_pool \<sigma>))"
    using parts(2) by (simp add: rq_sound_def)
  from rq_size_contents [OF this] have "rq_size (ap_queue (a_pool \<sigma>)) \<le> k"
    using requests.contents_bound [OF parts(2)] bounds(2) by simp
  then show ?thesis
    using storage_inv_total [OF parts(1)] used assms(4) bounds(1)
    by (simp add: async_stats_of_def storage_stats_of_def Let_def)
qed

theorem async_stats_bounded_witness:
  "\<exists>\<sigma>. async_run demo_assoc demo_run (async_start demo_async) = Inr \<sigma>
    \<and> as_used (async_stats_of (a_pool \<sigma>)) = length (holding \<sigma>) + length (flight_cells (in_flight \<sigma>))
    \<and> as_queue_size (async_stats_of (a_pool \<sigma>)) \<le> 1"
proof -
  obtain \<sigma> where run: "async_run demo_assoc demo_run (async_start demo_async) = Inr \<sigma>"
    using async_run_ok [OF async_start_inv(1) [OF demo_async_create] demo_run_legal]
    by (auto simp: step_ok_def)
  show ?thesis
    using async_stats_bounded [OF demo_async_create demo_run_legal run refl] run by auto
qed

subsection \<open>For serial use\<close>

text \<open>
  C13. If the operations of the pool do not overlap (the two halves of each \<open>get\<close> are not separated by
  another operation), nobody ever waits in the queue while a cell is free, nor after the pool was
  disabled.
\<close>

theorem async_serial_never_idle:
  assumes "async_pool_create n k timeout life = Inr p"
    and "all_give_held assoc (serial ops) (async_start p)"
    and "async_run assoc (serial ops) (async_start p) = Inr \<sigma>"
    and "rq_contents (ap_queue (a_pool \<sigma>)) \<noteq> []"
  shows "available_cells (ap_storage (a_pool \<sigma>)) = [] \<and> wasted_cells (ap_storage (a_pool \<sigma>)) = []
    \<and> \<not> ap_disabled (a_pool \<sigma>)"
proof -
  have "calm (async_start p)"
    using async_create_inv(3) [OF assms(1)] by (simp add: calm_def async_start_def)
  then have "calm \<sigma>"
    using calm_serial [OF async_start_inv(1) [OF assms(1)] _ assms(2,3)] by blast
  with assms(4) show ?thesis
    by (simp add: calm_def async_free_def)
qed

definition demo_serial :: "(string, nat) serial_op list" where
  "demo_serial =
     [Serial_Get ''a'' 1 (Duration 9) (Time_Point 1) (Time_Point 1), Serial_Run 0,
      Serial_Get ''b'' 2 (Duration 9) (Time_Point 2) (Time_Point 2),
      Serial_Recycle (Time_Point 3) 0,
      Serial_Get ''a'' 3 (Duration 9) (Time_Point 4) (Time_Point 4)]"

declare demo_serial_def [exec]

theorem async_serial_never_idle_witness:
  "\<exists>\<sigma>. async_run demo_assoc (serial demo_serial) (async_start demo_async) = Inr \<sigma>
    \<and> rq_size (ap_queue (a_pool \<sigma>)) = 1 \<and> available_cells (ap_storage (a_pool \<sigma>)) = []"
proof -
  have legal: "all_give_held demo_assoc (serial demo_serial) (async_start demo_async)"
    by code_simp
  obtain \<sigma> where run: "async_run demo_assoc (serial demo_serial) (async_start demo_async) = Inr \<sigma>"
    using async_run_ok [OF async_start_inv(1) [OF demo_async_create] legal]
    by (auto simp: step_ok_def)
  have "map_sum id (\<lambda>\<sigma>. (rq_size (ap_queue (a_pool \<sigma>)), length (rq_contents (ap_queue (a_pool \<sigma>)))))
      (async_run demo_assoc (serial demo_serial) (async_start demo_async)) = Inr (1, 1)"
    by code_simp
  then have "rq_size (ap_queue (a_pool \<sigma>)) = 1" "rq_contents (ap_queue (a_pool \<sigma>)) \<noteq> []"
    by (auto simp: run)
  then show ?thesis
    using async_serial_never_idle [OF demo_async_create legal run] run by auto
qed

subsection \<open>What overlapping calls can do\<close>








end
