(* ===== verification/Async_Branches.thy ===== *)
theory Async_Branches
  imports Async_Guarantees
begin

text \<open>
  The operations of the asynchronous pool, branch by branch.
\<close>


text \<open>
  C23. \<open>get\<close> completes its handler or queues it. On a disabled pool the handler is dispatched with the
  code \<open>disabled\<close>; with a free cell it is posted with a cell nobody held; with none free it is
  posted with the timeout code if the wait duration is zero; otherwise it is queued with the deadline
  \<open>now + wait duration\<close> if the queue has room, and else posted with the code
  \<open>request_queue_overflow\<close>.
\<close>

theorem async_get_branches:
  assumes "async_inv assoc p"
  shows "(ap_disabled p \<longrightarrow>
        async_get assoc c h w now now' p = Inr (p, [Dispatch c (Get_Task
          (On_List_Iterator_Handler (make_error_code Disabled) Singular h))]))
    \<and> (\<not> ap_disabled p \<and> 0 < async_free p \<longrightarrow>
        (\<exists>cell p'. async_get assoc c h w now now' p = Inr (p', [Post c (Get_Task
            (On_List_Iterator_Handler no_error (Cell cell) h))])
           \<and> cell \<notin> async_lent p \<and> async_lent p' = insert cell (async_lent p)
           \<and> ap_queue p' = ap_queue p))
    \<and> (\<not> ap_disabled p \<and> async_free p = 0 \<and> ticks w = 0 \<longrightarrow>
        async_get assoc c h w now now' p = Inr (p, [Post c (Get_Task
          (On_List_Iterator_Handler (make_error_code Get_Resource_Timeout) Singular h))]))
    \<and> (\<not> ap_disabled p \<and> async_free p = 0 \<and> ticks w \<noteq> 0 \<longrightarrow>
        (\<exists>p' calls. async_get assoc c h w now now' p = Inr (p', calls)
           \<and> (if length (rq_contents (ap_queue p)) < rq_capacity (ap_queue p)
              then posted calls = []
                \<and> rq_contents (ap_queue p')
                  = rq_contents (ap_queue p) @ [(add now' w, c, list_iterator_handler_of assoc h)]
              else posted calls = [(c, Error_Task (On_Error_Handler
                    (make_error_code Request_Queue_Overflow) (list_iterator_handler_of assoc h)))]
                \<and> rq_contents (ap_queue p') = rq_contents (ap_queue p))))"
  using assms
proof (cases rule: async_get_locked_cases [where c = c and h = h and w = w and now = now])
  case disabled
  then show ?thesis by (simp add: async_get_def)
next
  case (leased s cell)
  have "async_free p \<noteq> 0"
    using leased(2) lease_None_iff [of now "ap_storage p"] by (auto simp: async_free_def)
  with leased show ?thesis by (auto simp: async_get_def)
next
  case refused
  then show ?thesis by (simp add: async_get_def)
next
  case waits
  obtain p' calls where "async_get_push assoc c h w now' p = Inr (p', calls)"
    "if length (waiting p) < rq_capacity (ap_queue p)
     then posted calls = [] \<and> waiting p' = waiting p @ [(add now' w, c, list_iterator_handler_of assoc h)]
     else posted calls = [(c, Error_Task (On_Error_Handler (make_error_code Request_Queue_Overflow)
            (list_iterator_handler_of assoc h)))] \<and> waiting p' = waiting p"
    by (rule async_get_push_ok [OF assms, of c h w now']) presburger
  with waits show ?thesis by (simp add: async_get_def)
qed

lemma demo_async_inv: "async_inv demo_assoc demo_async"
  using async_create_inv(1) [OF demo_async_create] .

theorem async_get_branches_witness:
  "\<exists>cell p'. async_get demo_assoc ''a'' 1 zero_duration epoch epoch demo_async
     = Inr (p', [Post ''a'' (Get_Task (On_List_Iterator_Handler no_error (Cell cell) 1))])"
proof -
  have "\<not> ap_disabled demo_async \<and> 0 < async_free demo_async"
    by (simp add: demo_async_def async_demo_def async_free_def)
  then show ?thesis
    using async_get_branches [OF demo_async_inv, of "''a''" 1 zero_duration epoch epoch] by blast
qed

text \<open>
  C22. A cell that is given back while requests wait goes straight to the oldest of them, on the I/O
  context it named, and stays lent. Its value goes with it only if it may still be used: a recycled
  value that is marked for wasting or past its lifespan, and every wasted one, is removed first.
\<close>

theorem async_give_back_serves_oldest:
  assumes "async_inv assoc p" and "cell \<in> async_lent p"
    and "rq_contents (ap_queue p) = (d, c, w) # xs"
  shows "(\<exists>p' calls. async_recycle now (Cell cell) p = Inr (p', calls)
      \<and> posted calls = [(c, Serve_Task (On_Serve_Queued_Handler (Cell cell) w))]
      \<and> rq_contents (ap_queue p') = xs \<and> async_lent p' = async_lent p
      \<and> idle_value (cells (ap_storage p') cell) =
          (if waste_on_recycle (cells (ap_storage p) cell) \<or> life_end (ap_storage p) cell \<le> now
           then None else idle_value (cells (ap_storage p) cell)))
    \<and> (\<exists>p' calls. async_waste (Cell cell) p = Inr (p', calls)
      \<and> posted calls = [(c, Serve_Task (On_Serve_Queued_Handler (Cell cell) w))]
      \<and> rq_contents (ap_queue p') = xs \<and> async_lent p' = async_lent p
      \<and> idle_value (cells (ap_storage p') cell) = None)"
proof (rule conjI)
  from assms(1,2) show "\<exists>p' calls. async_recycle now (Cell cell) p = Inr (p', calls)
      \<and> posted calls = [(c, Serve_Task (On_Serve_Queued_Handler (Cell cell) w))]
      \<and> rq_contents (ap_queue p') = xs \<and> async_lent p' = async_lent p
      \<and> idle_value (cells (ap_storage p') cell) =
          (if waste_on_recycle (cells (ap_storage p) cell) \<or> life_end (ap_storage p) cell \<le> now
           then None else idle_value (cells (ap_storage p) cell))"
  proof (cases rule: async_recycle_ok [where now = now])
    case (served x ys p' calls)
    with assms(3) show ?thesis
      by (auto simp: serve_def worth_keeping_def empty_cell_def)
  qed (use assms(3) in simp)
  from assms(1,2) show "\<exists>p' calls. async_waste (Cell cell) p = Inr (p', calls)
      \<and> posted calls = [(c, Serve_Task (On_Serve_Queued_Handler (Cell cell) w))]
      \<and> rq_contents (ap_queue p') = xs \<and> async_lent p' = async_lent p
      \<and> idle_value (cells (ap_storage p') cell) = None"
  proof (cases rule: async_waste_ok)
    case (served x ys p' calls)
    with assms(3) show ?thesis
      by (auto simp: serve_def empty_cell_def)
  qed (use assms(3) in simp)
qed

text \<open>The pool of the examples with its cell lent and one request waiting.\<close>

definition demo_busy_run :: "(string, nat) async_event list" where
  "demo_busy_run =
     [Get_Begin ''a'' 1 (Duration 9) (Time_Point 1), Run_Task 0,
      Get_Begin ''b'' 2 (Duration 9) (Time_Point 2), Get_Push 0 (Time_Point 2), Invalidate_Pool]"

definition demo_busy :: "(string, nat, nat, nat) async_pool" where
  "demo_busy =
     (case async_run demo_assoc demo_busy_run (async_start demo_async) of
        Inr \<sigma> \<Rightarrow> a_pool \<sigma> | Inl f \<Rightarrow> demo_async)"

declare demo_busy_run_def [exec] demo_busy_def [exec]

lemma demo_busy_inv: "async_inv demo_assoc demo_busy"
proof -
  have "all_give_held demo_assoc demo_busy_run (async_start demo_async)"
    by code_simp
  from async_run_ok [OF async_start_inv(1) [OF demo_async_create] this]
  show ?thesis
    by (auto simp: step_ok_def demo_busy_def system_inv_def)
qed

lemma demo_busy_state:
  "used_cells (ap_storage demo_busy) = [0]"
  "rq_contents (ap_queue demo_busy) =
     [(Time_Point 11, ''b'', \<lparr>lih_executor = 102, lih_impl = Some 2\<rparr>)]"
  "waste_on_recycle (cells (ap_storage demo_busy) 0)"
  by code_simp+

theorem async_give_back_serves_oldest_witness:
  "\<exists>p' calls. async_recycle epoch (Cell 0) demo_busy = Inr (p', calls)
    \<and> posted calls = [(''b'', Serve_Task (On_Serve_Queued_Handler (Cell 0)
        \<lparr>lih_executor = 102, lih_impl = Some 2\<rparr>))]
    \<and> rq_contents (ap_queue p') = []"
proof -
  have "0 \<in> async_lent demo_busy"
    by (simp add: async_lent_def demo_busy_state)
  from async_give_back_serves_oldest [OF demo_busy_inv this demo_busy_state(2), of epoch]
  show ?thesis by blast
qed

text \<open>
  C28. \<open>disable\<close> leaves nobody waiting: every queued request is refused with the code \<open>disabled\<close>, on its
  own I/O context and oldest first, the cells in use stay lent so that they can still be given back,
  and every later \<open>get\<close> is refused.
\<close>

theorem async_disable_refuses_all:
  assumes "async_inv assoc p"
  shows "\<exists>p' calls. async_disable p = Inr (p', calls)
    \<and> posted calls = map (\<lambda>(d, c, w). (c, Error_Task (On_Error_Handler (make_error_code Disabled) w)))
        (rq_contents (ap_queue p))
    \<and> rq_contents (ap_queue p') = [] \<and> async_lent p' = async_lent p
    \<and> (\<forall>c h w now now'. async_get assoc c h w now now' p' = Inr (p', [Dispatch c (Get_Task
          (On_List_Iterator_Handler (make_error_code Disabled) Singular h))]))"
proof -
  obtain p' calls where "async_disable p = Inr (p', calls)" "posted calls = map refuse (waiting p)"
    "waiting p' = []" "ap_disabled p'" "ap_storage p' = ap_storage p"
    by (rule async_disable_ok [OF assms])
  then show ?thesis
    by (auto simp: refuse_def async_lent_def async_get_def async_get_locked_def)
qed

theorem async_disable_refuses_all_witness:
  "\<exists>p' calls. async_disable demo_busy = Inr (p', calls)
    \<and> posted calls = [(''b'', Error_Task (On_Error_Handler (make_error_code Disabled)
        \<lparr>lih_executor = 102, lih_impl = Some 2\<rparr>))]"
  using async_disable_refuses_all [OF demo_busy_inv] by (auto simp: demo_busy_state)

text \<open>
  C40. A cell marked by \<open>invalidate\<close> keeps its mark when it is handed from its holder to a waiting
  request. The value the new holder puts into it, made after the invalidation, is therefore wasted
  when it is recycled, whenever that happens; a cell that went through the storage instead would
  have lost the mark.
\<close>

theorem async_mark_survives_serving:
  assumes "async_inv assoc p" and "cell \<in> async_lent p"
    and "waste_on_recycle (cells (ap_storage p) cell)" and "rq_contents (ap_queue p) = [x]"
  shows "\<exists>p' calls. async_recycle t0 (Cell cell) p = Inr (p', calls)
    \<and> idle_value (cells (ap_storage p') cell) = None
    \<and> (\<forall>v t1 t2. \<exists>s p'' calls'. update_cell (Cell cell) (fill_cell v t1) (ap_storage p') = Inr s
        \<and> async_recycle t2 (Cell cell) (p'\<lparr>ap_storage := s\<rparr>) = Inr (p'', calls')
        \<and> cell \<in> set (wasted_cells (ap_storage p''))
        \<and> idle_value (cells (ap_storage p'') cell) = None)"
  using assms(1,2)
proof (cases rule: async_recycle_ok [where now = t0])
  case (served y ys p' calls)
  note inv' = served(3)
  have mark: "waste_on_recycle (cells (ap_storage p') cell)" "idle_value (cells (ap_storage p') cell) = None"
    using assms(3) served(6) by (simp_all add: worth_keeping_def empty_cell_def)
  have "\<exists>s p'' calls'. update_cell (Cell cell) (fill_cell v t1) (ap_storage p') = Inr s
      \<and> async_recycle t2 (Cell cell) (p'\<lparr>ap_storage := s\<rparr>) = Inr (p'', calls')
      \<and> cell \<in> set (wasted_cells (ap_storage p''))
      \<and> idle_value (cells (ap_storage p'') cell) = None" for v t1 t2
  proof -
    have used: "cell \<in> set (used_cells (ap_storage p'))"
      using assms(2) served(7) by (simp add: async_lent_def)
    then obtain s where s: "update_cell (Cell cell) (fill_cell v t1) (ap_storage p') = Inr s"
      using used_cells_alive by (fastforce simp: update_cell_def)
    let ?p = "p'\<lparr>ap_storage := s\<rparr>"
    have "async_inv assoc ?p"
      using inv' update_cell_inv [OF async_inv_parts(1) [OF inv'] used s] by (simp add: async_inv_def)
    moreover have lent: "cell \<in> async_lent ?p"
      using used s by (auto simp: async_lent_def update_cell_Inr_iff)
    ultimately show ?thesis
    proof (cases rule: async_recycle_ok [where now = t2])
      case (kept p'' calls')
      have "waste_on_recycle (cells s cell)"
        using mark s by (auto simp: update_cell_Inr_iff)
      then have "storage_waste (Cell cell) s = Inr (ap_storage p'')"
        using kept(6) lent by (simp add: storage_recycle_Cell worth_keeping_def async_lent_def)
      with s kept(2) show ?thesis
        by (auto simp: storage_waste_Inr_iff)
    next
      case (served z zs p'' calls')
      then show ?thesis
        using assms(4) \<open>waiting p' = ys\<close> \<open>waiting p = y # ys\<close> by simp
    qed
  qed
  with served(2) mark show ?thesis by blast
qed (use assms(4) in simp)

theorem async_mark_survives_serving_witness:
  "\<exists>p' s p'' calls calls'. async_recycle epoch (Cell 0) demo_busy = Inr (p', calls)
    \<and> update_cell (Cell 0) (fill_cell 42 (Time_Point 3)) (ap_storage p') = Inr s
    \<and> async_recycle (Time_Point 4) (Cell 0) (p'\<lparr>ap_storage := s\<rparr>) = Inr (p'', calls')
    \<and> idle_value (cells (ap_storage p'') 0) = None"
proof -
  have "0 \<in> async_lent demo_busy"
    by (simp add: async_lent_def demo_busy_state)
  from async_mark_survives_serving [OF demo_busy_inv this demo_busy_state(3,2), of epoch]
  show ?thesis by blast
qed

end
