(* ===== verification/Async_Semaphore.thy ===== *)
theory Async_Semaphore
  imports Async_Guarantees
begin

text \<open>
  The abstract specification of the asynchronous pool: a counting semaphore with a bounded queue of
  waiters that have deadlines, and the refinement that the pool implements it.

  The semaphore knows no cells, values, drop times, lists, multimaps or timers: a permit stands for a
  cell that is not lent, and each completion of a handler is the handler with its error code. The tasks
  on their way are listed in the order of the events that made them, but any of them may be the next one
  that is executed.
\<close>

subsection \<open>The specification\<close>

record 'h semaphore =
  sm_permits :: nat
  sm_limit :: nat
  sm_off :: bool
  sm_pushing :: "('h \<times> duration) list"
  sm_waiters :: "(time_point \<times> 'h) list"
  sm_flight :: "('h \<times> error_code) list"
  sm_called :: "('h \<times> error_code) list"

definition semaphore_new :: "nat \<Rightarrow> nat \<Rightarrow> 'h semaphore" where
  "semaphore_new n k = \<lparr>sm_permits = n, sm_limit = k, sm_off = False, sm_pushing = [], sm_waiters = [],
     sm_flight = [], sm_called = []\<rparr>"

definition sem_complete :: "('h \<times> error_code) list \<Rightarrow> 'h semaphore \<Rightarrow> 'h semaphore" where
  "sem_complete hs s = s\<lparr>sm_flight := sm_flight s @ hs\<rparr>"

definition sem_release :: "'h semaphore \<Rightarrow> 'h semaphore" where
  "sem_release s =
     (case sm_waiters s of
        [] \<Rightarrow> s\<lparr>sm_permits := Suc (sm_permits s)\<rparr>
      | (d, h) # ws \<Rightarrow> sem_complete [(h, no_error)] (s\<lparr>sm_waiters := ws\<rparr>))"

fun sem_step :: "('c, 'h) async_event \<Rightarrow> 'h semaphore \<Rightarrow> 'h semaphore" where
  "sem_step (Get_Begin c h w now) s =
     (if sm_off s then sem_complete [(h, make_error_code Disabled)] s
      else if 0 < sm_permits s then
        sem_complete [(h, no_error)] (s\<lparr>sm_permits := sm_permits s - 1\<rparr>)
      else if ticks w = 0 then sem_complete [(h, make_error_code Get_Resource_Timeout)] s
      else s\<lparr>sm_pushing := sm_pushing s @ [(h, w)]\<rparr>)"
| "sem_step (Get_Push k now) s =
     (if k < length (sm_pushing s) then
        case sm_pushing s ! k of (h, w) \<Rightarrow>
          let s' = s\<lparr>sm_pushing := remove_nth k (sm_pushing s)\<rparr>
          in if length (sm_waiters s) < sm_limit s
             then s'\<lparr>sm_waiters := sm_waiters s @ [(add now w, h)]\<rparr>
             else sem_complete [(h, make_error_code Request_Queue_Overflow)] s'
      else s)"
| "sem_step (Run_Task k) s =
     (if k < length (sm_flight s) then
        s\<lparr>sm_flight := remove_nth k (sm_flight s), sm_called := sm_called s @ [sm_flight s ! k]\<rparr>
      else s)"
| "sem_step (Give_Recycle now c) s = sem_release s"
| "sem_step (Give_Waste c) s = sem_release s"
| "sem_step (Wait_Done ec t) s =
     (if failed ec then s
      else sem_complete
             (map (\<lambda>(d, h). (h, make_error_code Get_Resource_Timeout))
                (sort_key fst (filter (\<lambda>x. fst x \<le> t) (sm_waiters s))))
             (s\<lparr>sm_waiters := filter (\<lambda>x. \<not> fst x \<le> t) (sm_waiters s)\<rparr>))"
| "sem_step Disable_Pool s =
     sem_complete (map (\<lambda>(d, h). (h, make_error_code Disabled)) (sm_waiters s))
       (s\<lparr>sm_off := True, sm_waiters := []\<rparr>)"
| "sem_step Invalidate_Pool s = s"

declare semaphore_new_def [exec] sem_complete_def [exec] sem_release_def [exec]

subsection \<open>The abstraction\<close>

definition waiter_of :: "time_point \<times> 'c \<times> ('x, 'h) list_iterator_handler \<Rightarrow> time_point \<times> 'h" where
  "waiter_of = (\<lambda>(d, c, w). (d, lih_handler w))"

definition completion_of :: "'c \<times> ('x, 'h) task \<Rightarrow> 'h \<times> error_code" where
  "completion_of = (\<lambda>(c, t). (task_handler t, task_code t))"

definition semaphore_of :: "('c, 'x, 'h, 'v) async_system \<Rightarrow> 'h semaphore" where
  "semaphore_of \<sigma> = \<lparr>sm_permits = async_free (a_pool \<sigma>), sm_limit = rq_capacity (ap_queue (a_pool \<sigma>)),
     sm_off = ap_disabled (a_pool \<sigma>), sm_pushing = map snd (pushing \<sigma>),
     sm_waiters = map waiter_of (waiting (a_pool \<sigma>)),
     sm_flight = map completion_of (in_flight \<sigma>), sm_called = map (\<lambda>(h, ec, it). (h, ec)) (called \<sigma>)\<rparr>"

lemma map_remove_nth: "map f (remove_nth k xs) = remove_nth k (map f xs)"
  by (simp add: remove_nth_def take_map drop_map)

lemma insort_key_map: "insort_key f (g x) (map g xs) = map g (insort_key (f \<circ> g) x xs)"
  by (induction xs) auto

lemma sort_key_map: "sort_key f (map g xs) = map g (sort_key (f \<circ> g) xs)"
  by (induction xs) (simp_all add: insort_key_map [unfolded comp_def] comp_def)

lemma fst_waiter_of: "fst (waiter_of x) = fst x" "fst \<circ> waiter_of = fst"
  by (auto simp: waiter_of_def fun_eq_iff split: prod.splits)

lemma waiters_due:
  "sort_key fst (filter (\<lambda>x. fst x \<le> t) (map waiter_of xs)) = map waiter_of (due t xs)"
  "filter (\<lambda>x. \<not> fst x \<le> t) (map waiter_of xs) = map waiter_of (filter (\<lambda>x. \<not> fst x \<le> t) xs)"
  by (simp_all add: filter_map comp_def sort_key_map fst_waiter_of due_def)

lemma completions [simp]:
  "map completion_of (map refuse xs) = map (\<lambda>(d, h). (h, make_error_code Disabled)) (map waiter_of xs)"
  "map completion_of (map expire xs)
     = map (\<lambda>(d, h). (h, make_error_code Get_Resource_Timeout)) (map waiter_of xs)"
  "completion_of (serve it x) = (snd (waiter_of x), no_error)"
  by (auto simp: completion_of_def waiter_of_def refuse_def expire_def serve_def split: prod.splits)

lemmas sem_simps = semaphore_of_def sem_complete_def sem_release_def map_remove_nth

subsection \<open>Each event\<close>

lemma async_free_lease:
  assumes "async_inv assoc p" "async_inv assoc p'" "ap_capacity p' = ap_capacity p"
    and "async_lent p' = insert c (async_lent p)" "c \<notin> async_lent p"
  shows "async_free p = Suc (async_free p')"
proof -
  have "finite (async_lent p)"
    by (simp add: async_lent_def)
  with assms show ?thesis
    using async_free_lent [OF assms(1)] async_free_lent [OF assms(2)] by simp
qed

lemma async_free_give:
  assumes "async_inv assoc p" "async_inv assoc p'" "ap_capacity p' = ap_capacity p"
    and "async_lent p' = async_lent p - {c}" "c \<in> async_lent p"
  shows "async_free p' = Suc (async_free p)"
  using async_free_lease [OF assms(2,1), of c] assms(3-5) by auto

lemma semaphore_get_begin:
  assumes inv: "system_inv assoc \<sigma>"
  shows "map_sum id semaphore_of (async_step assoc (Get_Begin c h w now) \<sigma>)
    = Inr (sem_step (Get_Begin c h w now) (semaphore_of \<sigma>))"
proof -
  have a: "async_inv assoc (a_pool \<sigma>)"
    using inv by (simp add: system_inv_def)
  then show ?thesis
  proof (cases rule: async_get_locked_cases [where c = c and h = h and w = w and now = now])
    case (leased s cell)
    have "async_free (a_pool \<sigma>) = Suc (async_free (a_pool \<sigma>\<lparr>ap_storage := s\<rparr>))"
      by (rule async_free_lease [OF a leased(4) _ leased(6,5)]) simp
    with leased(1,3) show ?thesis
      by (simp add: sem_simps completion_of_def)
  qed (simp_all add: sem_simps completion_of_def)
qed

lemma semaphore_get_push:
  assumes inv: "system_inv assoc \<sigma>"
  shows "map_sum id semaphore_of (async_step assoc (Get_Push k now) \<sigma>)
    = Inr (sem_step (Get_Push k now) (semaphore_of \<sigma>))"
proof (cases "k < length (pushing \<sigma>)")
  case True
  obtain c h w where k: "pushing \<sigma> ! k = (c, h, w)" by (cases "pushing \<sigma> ! k")
  have a: "async_inv assoc (a_pool \<sigma>)"
    using inv by (simp add: system_inv_def)
  obtain p calls where push: "async_get_push assoc c h w now (a_pool \<sigma>) = Inr (p, calls)"
    "ap_storage p = ap_storage (a_pool \<sigma>)" "ap_disabled p = ap_disabled (a_pool \<sigma>)"
    "rq_capacity (ap_queue p) = rq_capacity (ap_queue (a_pool \<sigma>))"
    "length (waiting (a_pool \<sigma>)) < rq_capacity (ap_queue (a_pool \<sigma>)) \<Longrightarrow>
       posted calls = [] \<and> waiting p = waiting (a_pool \<sigma>) @ [(add now w, c, list_iterator_handler_of assoc h)]"
    "\<not> length (waiting (a_pool \<sigma>)) < rq_capacity (ap_queue (a_pool \<sigma>)) \<Longrightarrow>
       posted calls = [(c, Error_Task (On_Error_Handler (make_error_code Request_Queue_Overflow)
         (list_iterator_handler_of assoc h)))] \<and> waiting p = waiting (a_pool \<sigma>)"
    by (rule async_get_push_ok [OF a, of c h w now]) metis
  have "async_free p = async_free (a_pool \<sigma>)"
    by (simp add: async_free_def push(2))
  then show ?thesis
    using True k push
    by (cases "length (waiting (a_pool \<sigma>)) < rq_capacity (ap_queue (a_pool \<sigma>))")
      (simp_all add: sem_simps emit_def completion_of_def waiter_of_def Let_def)
next
  case False
  then show ?thesis by (simp add: sem_simps)
qed

lemma semaphore_run_task:
  assumes inv: "system_inv assoc \<sigma>"
  shows "map_sum id semaphore_of (async_step assoc (Run_Task k) \<sigma>)
    = Inr (sem_step (Run_Task k) (semaphore_of \<sigma>))"
proof (cases "k < length (in_flight \<sigma>)")
  case True
  obtain c t where k: "in_flight \<sigma> ! k = (c, t)" by (cases "in_flight \<sigma> ! k")
  have "task_sound assoc t"
    using inv True k nth_mem [OF True] by (auto simp: system_inv_def)
  from True k run_task_sound [OF this] show ?thesis
    by (simp add: sem_simps completion_of_def)
next
  case False
  then show ?thesis by (simp add: sem_simps)
qed

lemma semaphore_give:
  assumes inv: "system_inv assoc \<sigma>" and c: "c \<in> set (holding \<sigma>)"
    and op: "\<exists>p calls. r = Inr (p, calls) \<and> async_inv assoc p \<and> given_back c (a_pool \<sigma>) p calls"
  shows "map_sum id semaphore_of (emit (\<sigma>\<lparr>holding := hs\<rparr>) r) = Inr (sem_release (semaphore_of \<sigma>))"
proof -
  have a: "async_inv assoc (a_pool \<sigma>)" and l: "c \<in> async_lent (a_pool \<sigma>)"
    by (rule holder_lent [OF inv c])+
  obtain p calls where r: "r = Inr (p, calls)" "async_inv assoc p" and out: "given_back c (a_pool \<sigma>) p calls"
    using op by blast
  note same = given_back_same [OF out]
  from out show ?thesis
  proof (cases rule: given_back_cases)
    case kept
    have "async_free p = Suc (async_free (a_pool \<sigma>))"
      using same by (intro async_free_give [OF a r(2) _ kept(4) l]) simp
    with kept r same show ?thesis
      by (simp add: sem_simps emit_def)
  next
    case (served x)
    have "async_free p = async_free (a_pool \<sigma>)"
      using same by (intro async_free_same [OF a r(2) served(3)]) simp
    with served r same show ?thesis
      by (cases "waiter_of x") (simp add: sem_simps emit_def)
  qed
qed

lemma semaphore_gives:
  assumes "system_inv assoc \<sigma>" and "c \<in> set (holding \<sigma>)"
  shows "map_sum id semaphore_of (async_step assoc (Give_Recycle now c) \<sigma>)
      = Inr (sem_release (semaphore_of \<sigma>))"
    and "map_sum id semaphore_of (async_step assoc (Give_Waste c) \<sigma>)
      = Inr (sem_release (semaphore_of \<sigma>))"
  by (simp_all add: semaphore_give [OF assms holder_gives(1) [OF assms assms]]
      semaphore_give [OF assms holder_gives(2) [OF assms assms]])

lemma semaphore_wait_done:
  assumes inv: "system_inv assoc \<sigma>"
  shows "map_sum id semaphore_of (async_step assoc (Wait_Done ec t) \<sigma>)
    = Inr (sem_step (Wait_Done ec t) (semaphore_of \<sigma>))"
proof -
  have a: "async_inv assoc (a_pool \<sigma>)"
    using inv by (simp add: system_inv_def)
  obtain p calls where op: "async_wait_done ec t (a_pool \<sigma>) = Inr (p, calls)"
    "posted calls = (if failed ec then [] else map expire (due t (waiting (a_pool \<sigma>))))"
    "waiting p = (if failed ec then waiting (a_pool \<sigma>)
       else filter (\<lambda>x. \<not> fst x \<le> t) (waiting (a_pool \<sigma>)))"
    "ap_storage p = ap_storage (a_pool \<sigma>)" "ap_disabled p = ap_disabled (a_pool \<sigma>)"
    "same_bounds (a_pool \<sigma>) p"
    by (rule async_wait_done_ok [OF a, of ec t]) simp
  have "async_free p = async_free (a_pool \<sigma>)"
    by (simp add: async_free_def op(4))
  with op show ?thesis
    by (simp add: sem_simps emit_def waiters_due del: map_map)
qed

lemma semaphore_disable:
  assumes inv: "system_inv assoc \<sigma>"
  shows "map_sum id semaphore_of (async_step assoc Disable_Pool \<sigma>)
    = Inr (sem_step Disable_Pool (semaphore_of \<sigma>))"
proof -
  have a: "async_inv assoc (a_pool \<sigma>)"
    using inv by (simp add: system_inv_def)
  obtain p calls where op: "async_disable (a_pool \<sigma>) = Inr (p, calls)"
    "posted calls = map refuse (waiting (a_pool \<sigma>))" "waiting p = []" "ap_disabled p"
    "ap_storage p = ap_storage (a_pool \<sigma>)" "same_bounds (a_pool \<sigma>) p"
    by (rule async_disable_ok [OF a]) simp
  have "async_free p = async_free (a_pool \<sigma>)"
    by (simp add: async_free_def op(5))
  with op show ?thesis
    by (simp add: sem_simps emit_def del: map_map)
qed

lemma semaphore_invalidate:
  assumes inv: "system_inv assoc \<sigma>"
  shows "map_sum id semaphore_of (async_step assoc Invalidate_Pool \<sigma>) = Inr (semaphore_of \<sigma>)"
  using inv async_invalidate_ok [of assoc "a_pool \<sigma>"] by (simp add: system_inv_def sem_simps)

lemma semaphore_step:
  assumes "system_inv assoc \<sigma>" and "gives_held \<sigma> e"
  shows "map_sum id semaphore_of (async_step assoc e \<sigma>) = Inr (sem_step e (semaphore_of \<sigma>))"
  using assms
  by (cases e)
    (simp_all only: semaphore_get_begin semaphore_get_push semaphore_run_task semaphore_gives
      semaphore_wait_done semaphore_disable semaphore_invalidate gives_held.simps
      sem_step.simps(4,5,8))

subsection \<open>\<open>disable\<close> in pieces\<close>

text \<open>
  Every event of \<open>Async_Runs\<close> but one locks the mutex of the queue once. \<open>disable\<close> is the exception: it
  keeps the mutex of the pool, but each of its calls of \<open>pop\<close> locks that of the queue, and between two
  of them a request may be pushed, a wait on a timer may end and tasks may be executed. So here it is
  also a sequence of events: \<open>Disable_Begin\<close> locks the mutex of the pool and sets the flag, each
  \<open>Disable_Next\<close> pops one request and refuses it, and the one that finds the queue empty unlocks.
\<close>

datatype ('c, 'h) split_event =
    Atomic "('c, 'h) async_event"
  | Disable_Begin
  | Disable_Next

record ('c, 'x, 'h, 'v) split_system =
  sy_system :: "('c, 'x, 'h, 'v) async_system"
  sy_disabling :: bool

definition async_disable_begin :: "('c, 'x, 'h, 'v) async_pool \<Rightarrow> ('c, 'x, 'h, 'v) async_pool" where
  "async_disable_begin p = p\<lparr>ap_disabled := True\<rparr>"

definition async_disable_next ::
  "('c, 'x, 'h, 'v) async_pool \<Rightarrow>
   (bool \<times> ('c, 'x, 'h, 'v) async_pool \<times> ('c, 'x, 'h) pool_calls) result"
where
  "async_disable_next p =
     and_then (rq_pop (ap_queue p)) (\<lambda>(queued, q, calls).
       Inr (case queued of
              None \<Rightarrow> (False, p\<lparr>ap_queue := q\<rparr>, queue_calls calls)
            | Some (request, c) \<Rightarrow> (True, p\<lparr>ap_queue := q\<rparr>, queue_calls calls
                @ [Dispatch c (Error_Task (On_Error_Handler (make_error_code Disabled) request))])))"

fun split_step ::
  "('h \<Rightarrow> 'x) \<Rightarrow> ('c, 'h) split_event \<Rightarrow> ('c, 'x, 'h, 'v) split_system \<Rightarrow>
   ('c, 'x, 'h, 'v) split_system result"
where
  "split_step assoc (Atomic e) s =
     and_then (async_step assoc e (sy_system s)) (\<lambda>\<sigma>. Inr (s\<lparr>sy_system := \<sigma>\<rparr>))"
| "split_step assoc Disable_Begin s =
     Inr \<lparr>sy_system = (sy_system s)\<lparr>a_pool := async_disable_begin (a_pool (sy_system s))\<rparr>,
          sy_disabling = True\<rparr>"
| "split_step assoc Disable_Next s =
     and_then (async_disable_next (a_pool (sy_system s))) (\<lambda>(more, p, calls).
     and_then (emit (sy_system s) (Inr (p, calls))) (\<lambda>\<sigma>.
       Inr \<lparr>sy_system = \<sigma>, sy_disabling = more\<rparr>))"

fun split_run ::
  "('h \<Rightarrow> 'x) \<Rightarrow> ('c, 'h) split_event list \<Rightarrow> ('c, 'x, 'h, 'v) split_system \<Rightarrow>
   ('c, 'x, 'h, 'v) split_system result"
where
  "split_run assoc [] s = Inr s"
| "split_run assoc (e # es) s = and_then (split_step assoc e s) (split_run assoc es)"

definition split_start :: "('c, 'x, 'h, 'v) async_pool \<Rightarrow> ('c, 'x, 'h, 'v) split_system" where
  "split_start p = \<lparr>sy_system = async_start p, sy_disabling = False\<rparr>"

text \<open>
  What can happen: cells are given back by their holders, and while \<open>disable\<close> owns the mutex of the pool
  nobody else locks it.
\<close>

fun locks_pool :: "('c, 'h) async_event \<Rightarrow> bool" where
  "locks_pool (Get_Push k now) \<longleftrightarrow> False"
| "locks_pool (Run_Task k) \<longleftrightarrow> False"
| "locks_pool (Wait_Done ec t) \<longleftrightarrow> False"
| "locks_pool _ \<longleftrightarrow> True"

fun may_happen :: "('c, 'x, 'h, 'v) split_system \<Rightarrow> ('c, 'h) split_event \<Rightarrow> bool" where
  "may_happen s (Atomic e) \<longleftrightarrow> gives_held (sy_system s) e \<and> \<not> (sy_disabling s \<and> locks_pool e)"
| "may_happen s Disable_Begin \<longleftrightarrow> \<not> sy_disabling s"
| "may_happen s Disable_Next \<longleftrightarrow> sy_disabling s"

fun all_may_happen ::
  "('h \<Rightarrow> 'x) \<Rightarrow> ('c, 'h) split_event list \<Rightarrow> ('c, 'x, 'h, 'v) split_system \<Rightarrow> bool" where
  "all_may_happen assoc [] s \<longleftrightarrow> True"
| "all_may_happen assoc (e # es) s \<longleftrightarrow>
     may_happen s e \<and> (case split_step assoc e s of Inl _ \<Rightarrow> True | Inr s' \<Rightarrow> all_may_happen assoc es s')"

fun sem_split_step :: "('c, 'h) split_event \<Rightarrow> 'h semaphore \<Rightarrow> 'h semaphore" where
  "sem_split_step (Atomic e) s = sem_step e s"
| "sem_split_step Disable_Begin s = s\<lparr>sm_off := True\<rparr>"
| "sem_split_step Disable_Next s =
     (case sm_waiters s of
        [] \<Rightarrow> s
      | (d, h) # ws \<Rightarrow> sem_complete [(h, make_error_code Disabled)] (s\<lparr>sm_waiters := ws\<rparr>))"

declare async_disable_begin_def [exec] async_disable_next_def [exec] split_start_def [exec]

lemma async_disable_next_ok:
  assumes inv: "async_inv assoc p"
  obtains p' calls where "async_disable_next p = Inr (waiting p \<noteq> [], p', calls)" "async_inv assoc p'"
    "posted calls = map refuse (take 1 (waiting p))" "waiting p' = tl (waiting p)"
    "ap_storage p' = ap_storage p" "ap_disabled p' = ap_disabled p" "same_bounds p p'"
proof (cases "waiting p")
  case Nil
  then obtain q calls where "rq_pop (ap_queue p) = Inr (None, q, calls)" "rq_sound q"
    "rq_capacity q = rq_capacity (ap_queue p)" "posted calls = []" "rq_contents q = []"
    using requests.pop_empty [OF async_inv_parts(2) [OF inv]] by auto
  then show thesis
    using Nil inv by (intro that [of "p\<lparr>ap_queue := q\<rparr>" "queue_calls calls"])
      (simp_all add: async_disable_next_def async_inv_queue)
next
  case (Cons x xs)
  obtain d c w where x: "x = (d, c, w)" by (cases x)
  obtain q calls where "rq_pop (ap_queue p) = Inr (Some (w, c), q, calls)" "rq_sound q"
    "rq_capacity q = rq_capacity (ap_queue p)" "posted calls = []" "rq_contents q = xs"
    using requests.pop_oldest [OF async_inv_parts(2) [OF inv] Cons [unfolded x]] by blast
  moreover have "\<forall>(d, c, w) \<in> set xs. wraps assoc w"
    using async_inv_parts(3) [OF inv] Cons by auto
  ultimately show thesis
    using Cons inv by (intro that [of "p\<lparr>ap_queue := q\<rparr>" "queue_calls calls
        @ [Dispatch c (Error_Task (On_Error_Handler (make_error_code Disabled) w))]"])
      (simp_all add: async_disable_next_def async_inv_queue refuse_def x)
qed

text \<open>Undisturbed, the pieces are the operation.\<close>

lemma refuse_queued_pieces:
  "rq_sound (ap_queue (a_pool \<sigma>)) \<Longrightarrow>
   \<exists>q calls. refuse_queued (ap_queue (a_pool \<sigma>)) = Inr (q, calls)
     \<and> split_run assoc (replicate (Suc (length (waiting (a_pool \<sigma>)))) Disable_Next)
         \<lparr>sy_system = \<sigma>, sy_disabling = True\<rparr>
       = Inr \<lparr>sy_system = \<sigma>\<lparr>a_pool := (a_pool \<sigma>)\<lparr>ap_queue := q\<rparr>, in_flight := in_flight \<sigma> @ posted calls\<rparr>,
              sy_disabling = False\<rparr>"
proof (induction "waiting (a_pool \<sigma>)" arbitrary: \<sigma>)
  case Nil
  then obtain q calls where "rq_pop (ap_queue (a_pool \<sigma>)) = Inr (None, q, calls)"
    using requests.pop_empty [of "ap_queue (a_pool \<sigma>)"] by auto
  with Nil.hyps show ?case
    by (simp add: refuse_queued.simps [of "ap_queue (a_pool \<sigma>)"] async_disable_next_def emit_def)
next
  case (Cons x xs)
  obtain d c w where x: "x = (d, c, w)" by (cases x)
  obtain q calls where pop: "rq_pop (ap_queue (a_pool \<sigma>)) = Inr (Some (w, c), q, calls)" "rq_sound q"
    "rq_contents q = xs"
    using requests.pop_oldest [OF Cons.prems Cons.hyps(2) [symmetric, unfolded x]] by blast
  define \<tau> where "\<tau> = \<sigma>\<lparr>a_pool := (a_pool \<sigma>)\<lparr>ap_queue := q\<rparr>, in_flight := in_flight \<sigma> @ posted (queue_calls calls
    @ [Dispatch c (Error_Task (On_Error_Handler (make_error_code Disabled) w))])\<rparr>"
  have \<tau>: "ap_queue (a_pool \<tau>) = q"
    by (simp add: \<tau>_def)
  obtain q' calls' where rest: "refuse_queued q = Inr (q', calls')"
    "split_run assoc (replicate (Suc (length xs)) Disable_Next) \<lparr>sy_system = \<tau>, sy_disabling = True\<rparr>
       = Inr \<lparr>sy_system = \<tau>\<lparr>a_pool := (a_pool \<tau>)\<lparr>ap_queue := q'\<rparr>, in_flight := in_flight \<tau> @ posted calls'\<rparr>,
              sy_disabling = False\<rparr>"
    using Cons.hyps(1) [of \<tau>] pop(2,3) by (auto simp: \<tau>)
  have "split_step assoc Disable_Next \<lparr>sy_system = \<sigma>, sy_disabling = True\<rparr>
      = Inr \<lparr>sy_system = \<tau>, sy_disabling = True\<rparr>"
    by (simp add: async_disable_next_def pop(1) emit_def \<tau>_def)
  then have run: "split_run assoc (replicate (Suc (length (waiting (a_pool \<sigma>)))) Disable_Next)
      \<lparr>sy_system = \<sigma>, sy_disabling = True\<rparr>
    = split_run assoc (replicate (Suc (length xs)) Disable_Next) \<lparr>sy_system = \<tau>, sy_disabling = True\<rparr>"
    using Cons.hyps(2) [symmetric] by simp
  have "refuse_queued (ap_queue (a_pool \<sigma>)) = Inr (q', queue_calls calls
      @ Dispatch c (Error_Task (On_Error_Handler (make_error_code Disabled) w)) # calls')"
    by (simp add: refuse_queued.simps [of "ap_queue (a_pool \<sigma>)"] pop(1) rest(1))
  then show ?case
    unfolding run rest(2) by (simp add: \<tau>_def posted_append)
qed

lemma disable_undisturbed:
  assumes "async_inv assoc (a_pool \<sigma>)"
  shows "\<exists>\<tau>. async_step assoc Disable_Pool \<sigma> = Inr \<tau>
    \<and> split_run assoc (Disable_Begin # replicate (Suc (length (waiting (a_pool \<sigma>)))) Disable_Next)
        \<lparr>sy_system = \<sigma>, sy_disabling = b\<rparr> = Inr \<lparr>sy_system = \<tau>, sy_disabling = False\<rparr>"
proof -
  let ?\<rho> = "\<sigma>\<lparr>a_pool := (a_pool \<sigma>)\<lparr>ap_disabled := True\<rparr>\<rparr>"
  obtain q calls where "refuse_queued (ap_queue (a_pool ?\<rho>)) = Inr (q, calls)"
    "split_run assoc (replicate (Suc (length (waiting (a_pool ?\<rho>)))) Disable_Next)
       \<lparr>sy_system = ?\<rho>, sy_disabling = True\<rparr>
     = Inr \<lparr>sy_system = ?\<rho>\<lparr>a_pool := (a_pool ?\<rho>)\<lparr>ap_queue := q\<rparr>, in_flight := in_flight ?\<rho> @ posted calls\<rparr>,
            sy_disabling = False\<rparr>"
    using refuse_queued_pieces [of ?\<rho> assoc] async_inv_parts(2) [OF assms] by (simp del: replicate.simps) blast
  then show ?thesis
    by (simp add: async_disable_begin_def async_disable_def emit_def del: replicate.simps)
qed

lemma split_step_ok:
  assumes inv: "system_inv assoc (sy_system s)" and may: "may_happen s e"
  shows "\<exists>s'. split_step assoc e s = Inr s' \<and> system_inv assoc (sy_system s')
    \<and> semaphore_of (sy_system s') = sem_split_step e (semaphore_of (sy_system s))"
proof -
  have a: "async_inv assoc (a_pool (sy_system s))"
    using inv by (simp add: system_inv_def)
  show ?thesis
  proof (cases e)
    case (Atomic e')
    then have held: "gives_held (sy_system s) e'"
      using may by simp
    obtain \<tau> where "async_step assoc e' (sy_system s) = Inr \<tau>" "system_inv assoc \<tau>"
      using async_step_ok [OF inv held] by (auto simp: step_ok_def)
    with semaphore_step [OF inv held] Atomic show ?thesis
      by (simp del: async_step.simps sem_step.simps)
  next
    case Disable_Begin
    with inv show ?thesis
      by (simp add: sem_simps system_inv_def async_inv_def async_disable_begin_def async_lent_def async_free_def)
  next
    case Disable_Next
    obtain p calls where popped: "async_disable_next (a_pool (sy_system s)) = Inr (waiting (a_pool (sy_system s)) \<noteq> [], p, calls)"
      "async_inv assoc p" "posted calls = map refuse (take 1 (waiting (a_pool (sy_system s))))"
      "waiting p = tl (waiting (a_pool (sy_system s)))" "ap_storage p = ap_storage (a_pool (sy_system s))"
      "ap_disabled p = ap_disabled (a_pool (sy_system s))" "same_bounds (a_pool (sy_system s)) p"
      by (rule async_disable_next_ok [OF a])
    have same: "async_free p = async_free (a_pool (sy_system s))" "async_lent p = async_lent (a_pool (sy_system s))"
      by (simp_all add: async_free_def async_lent_def popped(5))
    have "\<forall>(d, c, w) \<in> set (take 1 (waiting (a_pool (sy_system s)))). wraps assoc w"
      using async_inv_parts(3) [OF a] by (auto dest: in_set_takeD)
    note sound = quiet_tasks_sound [OF this]
    let ?\<tau> = "(sy_system s)\<lparr>a_pool := p, in_flight := in_flight (sy_system s) @ posted calls\<rparr>"
    have "split_step assoc Disable_Next s
        = Inr \<lparr>sy_system = ?\<tau>, sy_disabling = waiting (a_pool (sy_system s)) \<noteq> []\<rparr>"
      by (simp add: popped(1) emit_def)
    moreover have "system_inv assoc ?\<tau>"
      using inv popped(2) sound same(2) unfolding popped(3) by (auto simp: system_inv_def)
    moreover have "semaphore_of ?\<tau> = sem_split_step Disable_Next (semaphore_of (sy_system s))"
      using popped same
      by (cases "waiting (a_pool (sy_system s))")
        (simp_all add: sem_simps refuse_def waiter_of_def completion_of_def split: prod.splits)
    ultimately show ?thesis
      using Disable_Next by simp
  qed
qed

lemma semaphore_run:
  "system_inv assoc (sy_system s) \<Longrightarrow> all_may_happen assoc es s \<Longrightarrow>
   \<exists>s'. split_run assoc es s = Inr s'
     \<and> semaphore_of (sy_system s') = fold sem_split_step es (semaphore_of (sy_system s))"
proof (induction es arbitrary: s)
  case (Cons e es)
  obtain s' where s': "split_step assoc e s = Inr s'" "system_inv assoc (sy_system s')"
    "semaphore_of (sy_system s') = sem_split_step e (semaphore_of (sy_system s))"
    using split_step_ok [OF Cons.prems(1), of e] Cons.prems(2) by auto
  moreover have "all_may_happen assoc es s'"
    using Cons.prems(2) s'(1) by simp
  ultimately show ?case
    using Cons.IH [OF s'(2)] by simp
qed simp

subsection \<open>The pool is a semaphore\<close>

text \<open>
  C2. The asynchronous pool is a counting semaphore with a bounded queue of waiters. For every
  interleaving in which cells are given back by their holders only, the pool, its queue and the tasks
  on their way are at each moment, up to the abstraction, what the same events make of a semaphore of
  \<open>n\<close> permits: which calls of \<open>get\<close> succeed, wait, overflow or are refused, whom a returned cell goes
  to, who expires and in which order, and which handlers are called with which codes. Between any two
  pops of \<open>disable\<close> requests may be pushed, waits on timers may end and tasks may be executed: a request
  that is pushed while the pool is being disabled is refused by the same call, in its turn.
\<close>

theorem async_refines_semaphore:
  assumes "async_pool_create n k timeout life = Inr p"
    and "all_may_happen assoc es (split_start p)"
  shows "\<exists>s. split_run assoc es (split_start p) = Inr s
    \<and> semaphore_of (sy_system s) = fold sem_split_step es (semaphore_new n k)"
proof -
  note inv = async_start_inv(1) [OF assms(1), of assoc]
  have "async_free p = n"
    using async_free_lent [OF async_create_inv(1) [OF assms(1), of assoc]] async_create_inv(2,5) [OF assms(1)]
    by simp
  then have "semaphore_of (async_start p) = semaphore_new n k"
    using async_create_inv(3,4,6) [OF assms(1)]
    by (simp add: semaphore_of_def semaphore_new_def async_start_def)
  then show ?thesis
    using semaphore_run [of assoc "split_start p"] inv assms(2) by (simp add: split_start_def)
qed

text \<open>
  One cell and room for one waiting request: \<open>disable\<close> pops the request of handler 2, that of handler 3
  is pushed in between, and the same call of \<open>disable\<close> refuses both.
\<close>

definition demo_split :: "(string, nat) split_event list" where
  "demo_split =
     map Atomic [Get_Begin ''a'' 1 (Duration 9) (Time_Point 1), Run_Task 0,
       Get_Begin ''b'' 2 (Duration 9) (Time_Point 2), Get_Push 0 (Time_Point 2),
       Get_Begin ''a'' 3 (Duration 9) (Time_Point 3)]
     @ [Disable_Begin, Disable_Next, Atomic (Get_Push 0 (Time_Point 4)), Disable_Next, Disable_Next,
        Atomic (Run_Task 0), Atomic (Run_Task 0), Atomic (Give_Waste 0)]"

theorem async_refines_semaphore_witness:
  "\<exists>s. split_run demo_assoc demo_split (split_start demo_async) = Inr s
    \<and> map (\<lambda>(h, ec, it). (h, ec)) (called (sy_system s))
      = [(1, no_error), (2, make_error_code Disabled), (3, make_error_code Disabled)]"
proof -
  have legal: "all_may_happen demo_assoc demo_split (split_start demo_async)"
    by code_simp
  have "sm_called (fold sem_split_step demo_split (semaphore_new 1 1))
      = [(1, no_error), (2, make_error_code Disabled), (3, make_error_code Disabled)]"
    by code_simp
  moreover have "map (\<lambda>(h, ec, it). (h, ec)) (called \<sigma>) = sm_called (semaphore_of \<sigma>)"
    for \<sigma> :: "(string, nat, nat, nat) async_system"
    by (simp add: semaphore_of_def)
  ultimately show ?thesis
    using async_refines_semaphore [OF demo_async_create legal] by metis
qed

end
