(* ===== verification/Async_Shutdown.thy ===== *)
theory Async_Shutdown
  imports Async_Guarantees
begin

text \<open>
  Shutting an asynchronous pool down: \<open>disable\<close> completes the requests that wait, and the I/O contexts
  that still run execute what they were handed.
\<close>

definition run_all :: "nat \<Rightarrow> ('c, 'h) async_event list" where
  "run_all n = replicate n (Run_Task 0)"

declare run_all_def [exec]

lemma run_all_ok:
  "system_inv assoc \<sigma> \<Longrightarrow>
   \<exists>\<tau>. async_run assoc (run_all (length (in_flight \<sigma>))) \<sigma> = Inr \<tau> \<and> system_inv assoc \<tau>
     \<and> in_flight \<tau> = [] \<and> a_pool \<tau> = a_pool \<sigma> \<and> pushing \<tau> = pushing \<sigma> \<and> accounted \<tau> = accounted \<sigma>"
proof (induction "in_flight \<sigma>" arbitrary: \<sigma>)
  case Nil
  then show ?case by (auto simp: run_all_def)
next
  case (Cons x xs)
  obtain \<tau> where \<tau>: "async_step assoc (Run_Task 0) \<sigma> = Inr \<tau>" "system_inv assoc \<tau>"
    "accounted \<tau> = accounted \<sigma>"
    using step_ok_run_task [OF Cons.prems, of 0] by (auto simp: step_ok_def)
  have same: "in_flight \<tau> = xs" "a_pool \<tau> = a_pool \<sigma>" "pushing \<tau> = pushing \<sigma>"
    using \<tau>(1) by (auto simp: Cons.hyps(2) [symmetric] remove_nth_def and_then_Inr_iff)
  have "async_run assoc (run_all (length (in_flight \<sigma>))) \<sigma>
      = async_run assoc (Run_Task 0 # run_all (length xs)) \<sigma>"
    by (simp only: run_all_def Cons.hyps(2) [symmetric] length_Cons replicate_Suc)
  then have "async_run assoc (run_all (length (in_flight \<sigma>))) \<sigma>
      = async_run assoc (run_all (length xs)) \<tau>"
    by (simp only: async_run.simps \<tau>(1) and_then_simps)
  with Cons.hyps(1) [OF same(1) [symmetric] \<tau>(2)] \<tau>(3) same show ?case
    by simp
qed

text \<open>
  C14. Disabling a pool strands nobody. From any state that an interleaving reaches, if no call of \<open>get\<close>
  is between its two halves, \<open>disable\<close> followed by the execution of the tasks on their way calls every
  handler that was ever given to \<open>get\<close>, each exactly once, and leaves the queue empty.
\<close>

theorem async_disable_strands_nobody:
  assumes "async_pool_create n k timeout life = Inr p"
    and "all_give_held assoc es (async_start p)"
    and "async_run assoc es (async_start p) = Inr \<sigma>" and "pushing \<sigma> = []"
  shows "\<exists>\<tau>. async_run assoc
        (Disable_Pool # run_all (length (in_flight \<sigma>) + rq_size (ap_queue (a_pool \<sigma>)))) \<sigma> = Inr \<tau>
    \<and> mset (map fst (called \<tau>)) = mset (submitted es)
    \<and> in_flight \<tau> = [] \<and> rq_empty (ap_queue (a_pool \<tau>)) \<and> ap_disabled (a_pool \<tau>)"
proof -
  have inv: "system_inv assoc \<sigma>" and acc: "accounted \<sigma> = mset (submitted es)"
    using async_run_ok [OF async_start_inv(1) [OF assms(1)] assms(2)] async_start_inv(2) [OF assms(1)] assms(3)
    by (auto simp: step_ok_def)
  have a: "async_inv assoc (a_pool \<sigma>)"
    using inv by (simp add: system_inv_def)
  obtain q calls where dis: "async_disable (a_pool \<sigma>) = Inr (q, calls)" "async_inv assoc q"
    "posted calls = map refuse (waiting (a_pool \<sigma>))" "waiting q = []" "ap_disabled q"
    by (rule async_disable_ok [OF a])
  let ?\<rho> = "\<sigma>\<lparr>a_pool := q, in_flight := in_flight \<sigma> @ posted calls\<rparr>"
  have step: "async_step assoc Disable_Pool \<sigma> = Inr ?\<rho>"
    by (simp add: emit_def dis(1))
  then have \<rho>: "system_inv assoc ?\<rho>" "accounted ?\<rho> = mset (submitted es)"
    using step_ok_disable [OF inv] acc by (auto simp: step_ok_def)
  have len: "length (in_flight ?\<rho>) = length (in_flight \<sigma>) + rq_size (ap_queue (a_pool \<sigma>))"
    using rq_size_contents [of "ap_queue (a_pool \<sigma>)"] async_inv_parts(2) [OF a]
    by (simp add: dis(3) rq_sound_def)
  obtain \<tau> where \<tau>: "async_run assoc (run_all (length (in_flight ?\<rho>))) ?\<rho> = Inr \<tau>"
    "in_flight \<tau> = []" "a_pool \<tau> = q" "pushing \<tau> = []" "accounted \<tau> = mset (submitted es)"
    using run_all_ok [OF \<rho>(1)] \<rho>(2) assms(4) by auto
  have "mset (map fst (called \<tau>)) = mset (submitted es)"
    using \<tau>(2-5) dis(4) by (simp add: accounted_def)
  moreover have "rq_empty (ap_queue q)"
    using rq_empty_contents [of "ap_queue q"] async_inv_parts(2) [OF dis(2)] dis(4)
    by (simp add: rq_sound_def)
  ultimately show ?thesis
    using \<tau>(1-3) [unfolded len] dis(5) step by (auto simp del: async_step.simps)
qed

definition demo_before_shutdown :: "(string, nat) async_event list" where
  "demo_before_shutdown =
     [Get_Begin ''a'' 1 (Duration 9) (Time_Point 1),
      Get_Begin ''b'' 2 (Duration 9) (Time_Point 2), Get_Push 0 (Time_Point 2)]"

declare demo_before_shutdown_def [exec]

theorem async_disable_strands_nobody_witness:
  "\<exists>\<sigma> \<tau>. async_run demo_assoc demo_before_shutdown (async_start demo_async) = Inr \<sigma>
    \<and> async_run demo_assoc
        (Disable_Pool # run_all (length (in_flight \<sigma>) + rq_size (ap_queue (a_pool \<sigma>)))) \<sigma> = Inr \<tau>
    \<and> mset (map fst (called \<tau>)) = {#1, 2#}"
proof -
  have legal: "all_give_held demo_assoc demo_before_shutdown (async_start demo_async)"
    by code_simp
  obtain \<sigma> where run: "async_run demo_assoc demo_before_shutdown (async_start demo_async) = Inr \<sigma>"
    using async_run_ok [OF async_start_inv(1) [OF demo_async_create] legal] by (auto simp: step_ok_def)
  have "map_sum id (\<lambda>\<sigma>. length (pushing \<sigma>))
      (async_run demo_assoc demo_before_shutdown (async_start demo_async)) = Inr 0"
    by code_simp
  then have idle: "pushing \<sigma> = []"
    by (simp add: run)
  show ?thesis
    using async_disable_strands_nobody [OF demo_async_create legal run idle] run
    by (auto simp: demo_before_shutdown_def)
qed

end
