(* ===== verification/Async_Pool.thy ===== *)
theory Async_Pool
  imports Async_Runs Pool_Returns
begin

text \<open>
  \<open>async/pool.hpp\<close>: the public asynchronous pool and the handles it delivers.

  \<open>get\<close> wraps the caller's handler in an \<open>on_get_handler\<close>, which builds the handle the caller gets:
  an unusable one when an error came, else one that owns the cell. Pools live at addresses \<open>'r\<close>; the
  world maps an address to a pool and the tasks it has handed to I/O contexts and that have not been
  executed. The cells that are lent to handles are the used ones that are not on their way.
\<close>

subsection \<open>The handler of \<open>get\<close>\<close>

record ('r, 'u) on_get_handler =
  ogh_impl :: 'r
  ogh_strategy :: strategy
  ogh_handler :: 'u

text \<open>What the caller's handler is called with.\<close>

definition on_get_call ::
  "('r, 'u) on_get_handler \<Rightarrow> error_code \<Rightarrow> cell_iterator \<Rightarrow> 'u \<times> error_code \<times> 'r handle" where
  "on_get_call h ec res =
     (if failed ec then (ogh_handler h, ec, handle_default)
      else (ogh_handler h, ec, handle_new (ogh_impl h) (ogh_strategy h) res))"

definition on_get_executor :: "('u \<Rightarrow> 'x) \<Rightarrow> ('r, 'u) on_get_handler \<Rightarrow> 'x" where
  "on_get_executor assoc h = assoc (ogh_handler h)"

definition make_on_get_handler :: "'r \<Rightarrow> strategy \<Rightarrow> 'u \<Rightarrow> ('r, 'u) on_get_handler" where
  "make_on_get_handler impl st u = \<lparr>ogh_impl = impl, ogh_strategy = st, ogh_handler = u\<rparr>"

subsection \<open>Operations\<close>

type_synonym ('c, 'x, 'r, 'u, 'v) async_site =
  "('c, 'x, ('r, 'u) on_get_handler, 'v) async_pool
   \<times> ('c \<times> ('x, ('r, 'u) on_get_handler) task) list"

type_synonym ('c, 'x, 'r, 'u, 'v) async_world = "'r \<Rightarrow> ('c, 'x, 'r, 'u, 'v) async_site"

type_synonym ('c, 'x, 'r, 'u) async_output = "'r \<times> ('c, ('x, ('r, 'u) on_get_handler) task) asio_call"

text \<open>Replacing a pool in the world by the outcome of one of its operations.\<close>

definition at_site ::
  "'r \<Rightarrow> ('c, 'x, 'r, 'u, 'v) async_world \<Rightarrow>
   (('c, 'x, ('r, 'u) on_get_handler, 'v) async_pool \<times> ('c, 'x, ('r, 'u) on_get_handler) pool_calls) result \<Rightarrow>
   (('c, 'x, 'r, 'u, 'v) async_world \<times> ('c, 'x, 'r, 'u) async_output list) result"
where
  "at_site r w res = and_then res (\<lambda>(p, calls).
     Inr (w(r := (p, snd (w r) @ posted calls)), map (Pair r) calls))"

text \<open>The constructors allocate an implementation at a new address \<open>r\<close>.\<close>

definition async_pool_construct ::
  "'r \<Rightarrow> nat \<Rightarrow> nat \<Rightarrow> duration \<Rightarrow> duration \<Rightarrow> ('c, 'x, 'r, 'u, 'v) async_world \<Rightarrow>
   ('c, 'x, 'r, 'u, 'v) async_world result"
where
  "async_pool_construct r capacity queue_capacity timeout life w =
     and_then (async_pool_create capacity queue_capacity timeout life) (\<lambda>p. Inr (w(r := (p, []))))"

definition async_pool_construct_with ::
  "('g \<Rightarrow> 'v \<times> 'g) \<Rightarrow> 'g \<Rightarrow> 'r \<Rightarrow> nat \<Rightarrow> nat \<Rightarrow> duration \<Rightarrow> duration \<Rightarrow> time_point \<Rightarrow>
   ('c, 'x, 'r, 'u, 'v) async_world \<Rightarrow> (('c, 'x, 'r, 'u, 'v) async_world \<times> 'g) result"
where
  "async_pool_construct_with gen g r capacity queue_capacity timeout life now w =
     and_then (async_pool_generate gen g capacity queue_capacity timeout life now)
       (\<lambda>(p, g'). Inr (w(r := (p, [])), g'))"

definition async_pool_construct_range ::
  "'v list \<Rightarrow> 'r \<Rightarrow> nat \<Rightarrow> duration \<Rightarrow> duration \<Rightarrow> time_point \<Rightarrow>
   ('c, 'x, 'r, 'u, 'v) async_world \<Rightarrow> ('c, 'x, 'r, 'u, 'v) async_world result"
where
  "async_pool_construct_range vs r queue_capacity timeout life now w =
     and_then (async_pool_of_range vs queue_capacity timeout life now) (\<lambda>p. Inr (w(r := (p, []))))"

definition async_pool_capacity :: "'r \<Rightarrow> ('c, 'x, 'r, 'u, 'v) async_world \<Rightarrow> nat" where
  "async_pool_capacity r w = ap_capacity (fst (w r))"

definition async_pool_size :: "'r \<Rightarrow> ('c, 'x, 'r, 'u, 'v) async_world \<Rightarrow> nat" where
  "async_pool_size r w = async_size (fst (w r))"

definition async_pool_available :: "'r \<Rightarrow> ('c, 'x, 'r, 'u, 'v) async_world \<Rightarrow> nat" where
  "async_pool_available r w = async_available (fst (w r))"

definition async_pool_used :: "'r \<Rightarrow> ('c, 'x, 'r, 'u, 'v) async_world \<Rightarrow> nat" where
  "async_pool_used r w = async_used (fst (w r))"

definition async_pool_stats :: "'r \<Rightarrow> ('c, 'x, 'r, 'u, 'v) async_world \<Rightarrow> async_stats" where
  "async_pool_stats r w = async_stats_of (fst (w r))"

definition async_pool_get ::
  "('u \<Rightarrow> 'x) \<Rightarrow> 'r \<Rightarrow> 'c \<Rightarrow> 'u \<Rightarrow> strategy \<Rightarrow> duration \<Rightarrow> time_point \<Rightarrow> time_point \<Rightarrow>
   ('c, 'x, 'r, 'u, 'v) async_world \<Rightarrow>
   (('c, 'x, 'r, 'u, 'v) async_world \<times> ('c, 'x, 'r, 'u) async_output list) result"
where
  "async_pool_get assoc r c u st wait_duration now now' w =
     at_site r w (async_get (on_get_executor assoc) c (make_on_get_handler r st u) wait_duration now now'
       (fst (w r)))"

definition async_get_auto_waste ::
  "('u \<Rightarrow> 'x) \<Rightarrow> 'r \<Rightarrow> 'c \<Rightarrow> 'u \<Rightarrow> duration \<Rightarrow> time_point \<Rightarrow> time_point \<Rightarrow>
   ('c, 'x, 'r, 'u, 'v) async_world \<Rightarrow>
   (('c, 'x, 'r, 'u, 'v) async_world \<times> ('c, 'x, 'r, 'u) async_output list) result"
where
  "async_get_auto_waste assoc r c u = async_pool_get assoc r c u Strategy_Waste"

definition async_get_auto_recycle ::
  "('u \<Rightarrow> 'x) \<Rightarrow> 'r \<Rightarrow> 'c \<Rightarrow> 'u \<Rightarrow> duration \<Rightarrow> time_point \<Rightarrow> time_point \<Rightarrow>
   ('c, 'x, 'r, 'u, 'v) async_world \<Rightarrow>
   (('c, 'x, 'r, 'u, 'v) async_world \<times> ('c, 'x, 'r, 'u) async_output list) result"
where
  "async_get_auto_recycle assoc r c u = async_pool_get assoc r c u Strategy_Recycle"

text \<open>The destructor, for a pool that may have been moved from, and \<open>invalidate\<close>.\<close>

definition async_pool_destroy ::
  "'r option \<Rightarrow> ('c, 'x, 'r, 'u, 'v) async_world \<Rightarrow>
   (('c, 'x, 'r, 'u, 'v) async_world \<times> ('c, 'x, 'r, 'u) async_output list) result"
where
  "async_pool_destroy impl w =
     (case impl of
        None \<Rightarrow> Inr (w, [])
      | Some r \<Rightarrow> at_site r w (async_disable (fst (w r))))"

definition async_pool_invalidate ::
  "'r \<Rightarrow> ('c, 'x, 'r, 'u, 'v) async_world \<Rightarrow> ('c, 'x, 'r, 'u, 'v) async_world" where
  "async_pool_invalidate r w = w(r := (async_invalidate (fst (w r)), snd (w r)))"

text \<open>The pool as the provider of handles.\<close>

definition async_api ::
  "('r, ('c, 'x, 'r, 'u, 'v) async_world, ('c, 'x, 'r, 'u) async_output, 'v) pool_api" where
  "async_api =
     \<lparr>api_waste = (\<lambda>r it w. at_site r w (async_waste it (fst (w r)))),
      api_recycle = (\<lambda>now r it w. at_site r w (async_recycle now it (fst (w r)))),
      api_read = (\<lambda>r it w. read_cell it (ap_storage (fst (w r)))),
      api_write = (\<lambda>r it f w. and_then (update_cell it f (ap_storage (fst (w r)))) (\<lambda>s.
        Inr (w(r := ((fst (w r))\<lparr>ap_storage := s\<rparr>, snd (w r))))))\<rparr>"

lemmas async_site_defs =
  on_get_call_def on_get_executor_def make_on_get_handler_def at_site_def async_pool_get_def
  async_get_auto_waste_def async_get_auto_recycle_def async_pool_destroy_def
  async_pool_invalidate_def async_api_def async_pool_construct_def async_pool_construct_with_def
  async_pool_construct_range_def async_pool_capacity_def async_pool_size_def
  async_pool_available_def async_pool_used_def async_pool_stats_def

declare async_site_defs [exec]

subsection \<open>Sites in order\<close>

definition site_ok ::
  "('u \<Rightarrow> 'x) \<Rightarrow> 'r \<Rightarrow> ('c, 'x, 'r, 'u, 'v) async_site \<Rightarrow> bool" where
  "site_ok assoc r = (\<lambda>(p, ts).
     async_inv (on_get_executor assoc) p
     \<and> (\<forall>(d, c, w) \<in> set (waiting p). ogh_impl (lih_handler w) = r)
     \<and> (\<forall>(c, t) \<in> set ts. task_sound (on_get_executor assoc) t \<and> ogh_impl (task_handler t) = r)
     \<and> distinct (flight_cells ts) \<and> set (flight_cells ts) \<subseteq> async_lent p)"

declare site_ok_def [inv_simps]

lemma site_ok_parts:
  assumes "site_ok assoc r (p, ts)"
  shows "async_inv (on_get_executor assoc) p"
    "\<forall>(d, c, w) \<in> set (waiting p). ogh_impl (lih_handler w) = r"
    "\<forall>(c, t) \<in> set ts. task_sound (on_get_executor assoc) t \<and> ogh_impl (task_handler t) = r"
    "distinct (flight_cells ts)" "set (flight_cells ts) \<subseteq> async_lent p"
  using assms by (simp_all add: site_ok_def)

lemma site_okI:
  assumes "async_inv (on_get_executor assoc) p"
    and "\<forall>(d, c, w) \<in> set (waiting p). ogh_impl (lih_handler w) = r"
    and "\<forall>(c, t) \<in> set ts. task_sound (on_get_executor assoc) t \<and> ogh_impl (task_handler t) = r"
    and "distinct (flight_cells ts)" and "set (flight_cells ts) \<subseteq> async_lent p"
  shows "site_ok assoc r (p, ts)"
  using assms by (simp add: site_ok_def)

definition site_lent :: "('c, 'x, 'r, 'u, 'v) async_site \<Rightarrow> nat set" where
  "site_lent = (\<lambda>(p, ts). async_lent p - set (flight_cells ts))"

definition async_world_lent :: "'r \<Rightarrow> ('c, 'x, 'r, 'u, 'v) async_world \<Rightarrow> nat set" where
  "async_world_lent r w = site_lent (w r)"

definition async_world_ok :: "('u \<Rightarrow> 'x) \<Rightarrow> ('c, 'x, 'r, 'u, 'v) async_world \<Rightarrow> bool" where
  "async_world_ok assoc w \<longleftrightarrow> (\<forall>r. site_ok assoc r (w r))"

lemma async_world_ok_upd:
  "async_world_ok assoc w \<Longrightarrow> site_ok assoc r x \<Longrightarrow> async_world_ok assoc (w(r := x))"
  by (simp add: async_world_ok_def)

lemma async_loan_ended:
  "site_lent x = site_lent (w r) - {c} \<Longrightarrow> loan_ended async_world_lent r c w (w(r := x))"
  by (auto simp: loan_ended_def async_world_lent_def)

lemma site_give_back:
  assumes ok: "site_ok assoc r (p, ts)" and c: "c \<in> site_lent (p, ts)"
    and p': "async_inv (on_get_executor assoc) p'" and out: "given_back c p p' calls"
  shows "site_ok assoc r (p', ts @ posted calls)
    \<and> site_lent (p', ts @ posted calls) = site_lent (p, ts) - {c}"
proof -
  have c: "c \<in> async_lent p" "c \<notin> set (flight_cells ts)"
    using c by (auto simp: site_lent_def)
  note parts = site_ok_parts [OF ok]
  from out show ?thesis
  proof (cases rule: given_back_cases)
    case kept
    have "site_ok assoc r (p', ts @ posted calls)"
      using parts(3,4,5) c(2) kept by (intro site_okI p') (auto simp: subset_iff)
    with kept show ?thesis by (auto simp: site_lent_def)
  next
    case (served x)
    obtain d ctx w where xd: "x = (d, ctx, w)" by (cases x)
    have w: "wraps (on_get_executor assoc) w" "ogh_impl (lih_handler w) = r"
      using async_inv_parts(3) [OF parts(1)] parts(2) served(1) by (auto simp: xd)
    have waiting: "\<forall>(d, c, w) \<in> set (waiting p'). ogh_impl (lih_handler w) = r"
      using parts(2) served(1) by simp
    have tasks: "\<forall>(c', t) \<in> set (ts @ posted calls).
        task_sound (on_get_executor assoc) t \<and> ogh_impl (task_handler t) = r"
      using parts(3) w by (auto simp: served(2) serve_def xd)
    have "site_ok assoc r (p', ts @ posted calls)"
      using parts(4,5) c by (intro site_okI p' waiting tasks) (simp_all add: served(2,3))
    with served(2,3) show ?thesis by (auto simp: site_lent_def)
  qed
qed

lemma site_gives_back:
  assumes ok: "site_ok assoc r x" and c: "c \<in> site_lent x"
  shows "\<exists>p' calls. async_recycle now (Cell c) (fst x) = Inr (p', calls)
      \<and> site_ok assoc r (p', snd x @ posted calls)
      \<and> site_lent (p', snd x @ posted calls) = site_lent x - {c}"
    and "\<exists>p' calls. async_waste (Cell c) (fst x) = Inr (p', calls)
      \<and> site_ok assoc r (p', snd x @ posted calls)
      \<and> site_lent (p', snd x @ posted calls) = site_lent x - {c}"
proof -
  obtain p ts where x: "x = (p, ts)" by (cases x)
  have inv: "async_inv (on_get_executor assoc) p" and l: "c \<in> async_lent p"
    using ok c by (auto simp: site_ok_def site_lent_def x)
  note give = site_give_back [OF ok [unfolded x] c [unfolded x]]
  show "\<exists>p' calls. async_recycle now (Cell c) (fst x) = Inr (p', calls)
      \<and> site_ok assoc r (p', snd x @ posted calls)
      \<and> site_lent (p', snd x @ posted calls) = site_lent x - {c}"
    and "\<exists>p' calls. async_waste (Cell c) (fst x) = Inr (p', calls)
      \<and> site_ok assoc r (p', snd x @ posted calls)
      \<and> site_lent (p', snd x @ posted calls) = site_lent x - {c}"
    using async_give_back [OF inv l] give unfolding x by (metis fst_conv snd_conv)+
qed

lemma site_update:
  assumes ok: "site_ok assoc r x" and c: "c \<in> site_lent x"
  shows "\<exists>s. update_cell (Cell c) f (ap_storage (fst x)) = Inr s
    \<and> site_ok assoc r ((fst x)\<lparr>ap_storage := s\<rparr>, snd x)
    \<and> site_lent ((fst x)\<lparr>ap_storage := s\<rparr>, snd x) = site_lent x"
proof -
  obtain p ts where x: "x = (p, ts)" by (cases x)
  have inv: "async_inv (on_get_executor assoc) p" and l: "c \<in> set (used_cells (ap_storage p))"
    using ok c by (auto simp: site_ok_def site_lent_def async_lent_def x)
  obtain s where s: "update_cell (Cell c) f (ap_storage p) = Inr s"
    using used_cells_alive [OF l] by (simp add: update_cell_def)
  then have "used_cells s = used_cells (ap_storage p)"
    by (auto simp: update_cell_Inr_iff)
  then show ?thesis
    using s ok update_cell_inv [OF async_inv_parts(1) [OF inv] l s]
    by (auto simp: x site_ok_def site_lent_def async_inv_def async_lent_def)
qed

interpretation async_returns: pool_returns async_api async_world_lent "async_world_ok assoc"
  for assoc :: "'u \<Rightarrow> 'x"
proof unfold_locales
  fix w and r c now f
  assume ok: "async_world_ok assoc w" and c: "c \<in> async_world_lent r w"
  have site: "site_ok assoc r (w r)" and l: "c \<in> site_lent (w r)"
    using ok c by (simp_all add: async_world_ok_def async_world_lent_def)
  show "\<exists>w' out. api_recycle async_api now r (Cell c) w = Inr (w', out) \<and> async_world_ok assoc w'
      \<and> loan_ended async_world_lent r c w w'"
    using site_gives_back(1) [OF site l, of now]
    by (fastforce simp: async_api_def at_site_def intro: async_world_ok_upd [OF ok] async_loan_ended)
  show "\<exists>w' out. api_waste async_api r (Cell c) w = Inr (w', out) \<and> async_world_ok assoc w'
      \<and> loan_ended async_world_lent r c w w'"
    using site_gives_back(2) [OF site l]
    by (fastforce simp: async_api_def at_site_def intro: async_world_ok_upd [OF ok] async_loan_ended)
  show "\<exists>cell. api_read async_api r (Cell c) w = Inr cell"
    using l used_cells_alive [of c "ap_storage (fst (w r))"]
    by (auto simp: async_api_def read_cell_def site_lent_def async_lent_def split: prod.splits)
  show "\<exists>w'. api_write async_api r (Cell c) f w = Inr w' \<and> async_world_ok assoc w'
      \<and> (\<forall>r'. async_world_lent r' w' = async_world_lent r' w)"
    using site_update [OF site l, of f] async_world_ok_upd [OF ok]
    by (auto simp: async_api_def async_world_lent_def)
qed

subsection \<open>Each operation keeps a site in order\<close>

lemma site_same_lent:
  assumes ok: "site_ok assoc r (p, ts)" and p': "async_inv (on_get_executor assoc) p'"
    and lent: "async_lent p' = async_lent p"
    and waiting: "\<forall>(d, c, w) \<in> set (waiting p'). ogh_impl (lih_handler w) = r"
    and tasks: "\<forall>(c, t) \<in> set us. task_sound (on_get_executor assoc) t \<and> ogh_impl (task_handler t) = r"
    and quiet: "flight_cells us = []"
  shows "site_ok assoc r (p', ts @ us)" "site_lent (p', ts @ us) = site_lent (p, ts)"
proof -
  note parts = site_ok_parts [OF ok]
  have "\<forall>(c, t) \<in> set (ts @ us). task_sound (on_get_executor assoc) t \<and> ogh_impl (task_handler t) = r"
    using parts(3) tasks by auto
  then show "site_ok assoc r (p', ts @ us)"
    using parts(4,5) by (intro site_okI p' waiting) (simp_all add: lent quiet)
  show "site_lent (p', ts @ us) = site_lent (p, ts)"
    by (simp add: site_lent_def lent quiet)
qed

lemma site_get_locked:
  assumes ok: "site_ok assoc r (p, ts)" and h: "ogh_impl h = r"
  obtains
    (answered) p' calls where "async_get_locked c h d now p = (p', Some calls)"
      "site_ok assoc r (p', ts @ posted calls)" "site_lent (p', ts @ posted calls) = site_lent (p, ts)"
      "waiting p' = waiting p" "async_free p = 0 \<Longrightarrow> p' = p"
  | (queued) "async_get_locked c h d now p = (p, None)" "async_free p = 0" "\<not> ap_disabled p"
proof -
  note parts = site_ok_parts [OF ok]
  let ?assoc = "on_get_executor assoc"
  note same = site_same_lent [OF ok _ _ _ _ _]
  from parts(1) show thesis
  proof (cases rule: async_get_locked_cases [where c = c and h = h and w = d and now = now])
    case disabled
    then show thesis
      using same [of p "[(c, Get_Task (On_List_Iterator_Handler (make_error_code Disabled) Singular h))]"]
        parts(1,2) h by (intro answered) auto
  next
    case (leased s cell)
    let ?us = "[(c, Get_Task (On_List_Iterator_Handler no_error (Cell cell) h))]"
    have "site_ok assoc r (p\<lparr>ap_storage := s\<rparr>, ts @ ?us)"
      using parts(2,3,4,5) leased(5) h
      by (intro site_okI leased(4)) (auto simp: leased(6))
    moreover have "site_lent (p\<lparr>ap_storage := s\<rparr>, ts @ ?us) = site_lent (p, ts)"
      using leased(5) by (auto simp: site_lent_def leased(6))
    moreover have "async_free p \<noteq> 0"
      using leased(2) lease_None_iff [of now "ap_storage p"] by (auto simp: async_free_def)
    ultimately show thesis
      by (intro answered [OF leased(3)]) simp_all
  next
    case refused
    then show thesis
      using same [of p "[(c, Get_Task (On_List_Iterator_Handler (make_error_code Get_Resource_Timeout) Singular h))]"]
        parts(1,2) h by (intro answered) auto
  next
    case waits
    then show thesis by (intro queued)
  qed
qed

lemma site_get_push:
  assumes ok: "site_ok assoc r (p, ts)" and h: "ogh_impl h = r"
  shows "\<exists>p' calls. async_get_push (on_get_executor assoc) c h d now p = Inr (p', calls)
    \<and> site_ok assoc r (p', ts @ posted calls) \<and> site_lent (p', ts @ posted calls) = site_lent (p, ts)
    \<and> ap_storage p' = ap_storage p \<and> ap_disabled p' = ap_disabled p"
proof -
  note parts = site_ok_parts [OF ok]
  let ?assoc = "on_get_executor assoc"
  obtain p' calls where push: "async_get_push ?assoc c h d now p = Inr (p', calls)"
    "async_inv ?assoc p'" "ap_storage p' = ap_storage p" "ap_disabled p' = ap_disabled p"
    "posted calls = [] \<and> waiting p' = waiting p @ [(add now d, c, list_iterator_handler_of ?assoc h)]
     \<or> posted calls = [(c, Error_Task (On_Error_Handler (make_error_code Request_Queue_Overflow)
         (list_iterator_handler_of ?assoc h)))] \<and> waiting p' = waiting p"
    by (rule async_get_push_ok [OF parts(1), of c h d now]) metis
  have lent: "async_lent p' = async_lent p"
    by (simp add: async_lent_def push(3))
  have waiting: "\<forall>(d, c, w) \<in> set (waiting p'). ogh_impl (lih_handler w) = r"
    using push(5) parts(2) h by auto
  have tasks: "\<forall>(c, t) \<in> set (posted calls). task_sound ?assoc t \<and> ogh_impl (task_handler t) = r"
    and quiet: "flight_cells (posted calls) = []"
    using push(5) h by auto
  show ?thesis
    using site_same_lent [OF ok push(2) lent waiting tasks quiet] push(1,3,4) by simp
qed

lemma site_get:
  assumes ok: "site_ok assoc r (p, ts)"
  shows "\<exists>p' calls. async_get (on_get_executor assoc) c (make_on_get_handler r st u) d now now' p = Inr (p', calls)
    \<and> site_ok assoc r (p', ts @ posted calls) \<and> site_lent (p', ts @ posted calls) = site_lent (p, ts)"
proof -
  have r: "ogh_impl (make_on_get_handler r st u) = r"
    by (simp add: make_on_get_handler_def)
  from ok r show ?thesis
  proof (cases rule: site_get_locked [where c = c and d = d and now = now])
    case answered
    then show ?thesis by (simp add: async_get_def)
  next
    case queued
    then show ?thesis
      using site_get_push [OF ok r, of c d now'] by (auto simp: async_get_def)
  qed
qed

lemma site_disable:
  assumes ok: "site_ok assoc r (p, ts)"
  shows "\<exists>p' calls. async_disable p = Inr (p', calls)
    \<and> site_ok assoc r (p', ts @ posted calls) \<and> site_lent (p', ts @ posted calls) = site_lent (p, ts)"
proof -
  note parts = site_ok_parts [OF ok]
  obtain p' calls where d: "async_disable p = Inr (p', calls)"
    "async_inv (on_get_executor assoc) p'" "posted calls = map refuse (waiting p)" "waiting p' = []"
    "ap_storage p' = ap_storage p"
    by (rule async_disable_ok [OF parts(1)])
  have lent: "async_lent p' = async_lent p"
    by (simp add: async_lent_def d(5))
  have tasks: "\<forall>(c, t) \<in> set (posted calls).
      task_sound (on_get_executor assoc) t \<and> ogh_impl (task_handler t) = r"
    using async_inv_parts(3) [OF parts(1)] parts(2) by (auto simp: d(3) refuse_def)
  show ?thesis
    using site_same_lent [OF ok d(2) lent _ tasks] d(1,3,4) by simp
qed

lemma site_wait_done:
  assumes ok: "site_ok assoc r (p, ts)"
  shows "\<exists>p' calls. async_wait_done ec t p = Inr (p', calls)
    \<and> site_ok assoc r (p', ts @ posted calls) \<and> site_lent (p', ts @ posted calls) = site_lent (p, ts)"
proof -
  note parts = site_ok_parts [OF ok]
  obtain p' calls where d: "async_wait_done ec t p = Inr (p', calls)"
    "async_inv (on_get_executor assoc) p'"
    "posted calls = (if failed ec then [] else map expire (due t (waiting p)))"
    "waiting p' = (if failed ec then waiting p else filter (\<lambda>x. \<not> fst x \<le> t) (waiting p))"
    "ap_storage p' = ap_storage p"
    by (rule async_wait_done_ok [OF parts(1), of ec t])
  have lent: "async_lent p' = async_lent p"
    by (simp add: async_lent_def d(5))
  have waiting: "\<forall>(d, c, w) \<in> set (waiting p'). ogh_impl (lih_handler w) = r"
    using parts(2) by (auto simp: d(4))
  have tasks: "\<forall>(c, t) \<in> set (posted calls).
      task_sound (on_get_executor assoc) t \<and> ogh_impl (task_handler t) = r"
    using async_inv_parts(3) [OF parts(1)] parts(2) by (auto simp: d(3) due_def expire_def)
  show ?thesis
    using site_same_lent [OF ok d(2) lent waiting tasks] d(1,3) by simp
qed

lemma site_invalidate:
  assumes "site_ok assoc r (p, ts)"
  shows "site_ok assoc r (async_invalidate p, ts)" "site_lent (async_invalidate p, ts) = site_lent (p, ts)"
  using site_ok_parts [OF assms] async_invalidate_ok [OF site_ok_parts(1) [OF assms]]
  by (auto simp: site_ok_def site_lent_def)

text \<open>Executing a task: the cell it carries is lent to the handler's parameter.\<close>

lemma site_run_task:
  assumes ok: "site_ok assoc r (p, ts)" and k: "k < length ts"
  obtains h ec it where "run_task (snd (ts ! k)) = Inr (h, ec, it)" "ogh_impl h = r"
    "failed ec \<longleftrightarrow> it = Singular" "site_ok assoc r (p, remove_nth k ts)"
    "site_lent (p, remove_nth k ts) = site_lent (p, ts) \<union> set (cell_of it)"
    "site_lent (p, ts) \<inter> set (cell_of it) = {}"
proof -
  note parts = site_ok_parts [OF ok]
  obtain c t where t: "ts ! k = (c, t)" by (cases "ts ! k")
  have sound: "task_sound (on_get_executor assoc) t" "ogh_impl (task_handler t) = r"
    using parts(3) nth_mem [OF k] by (auto simp: t)
  have "mset (cell_of (task_iterator t) @ flight_cells (remove_nth k ts)) = mset (flight_cells ts)"
    using flight_cells_remove_nth [OF k] by (simp add: t)
  note cells = distinct_set_mset [OF this]
  have tasks: "\<forall>(c, t) \<in> set (remove_nth k ts).
      task_sound (on_get_executor assoc) t \<and> ogh_impl (task_handler t) = r"
    using parts(3) set_remove_nth [of k ts] by blast
  have "site_ok assoc r (p, remove_nth k ts)"
    using parts(4,5) cells by (intro site_okI parts(1,2) tasks) auto
  moreover have "site_lent (p, remove_nth k ts) = site_lent (p, ts) \<union> set (cell_of (task_iterator t))"
    "site_lent (p, ts) \<inter> set (cell_of (task_iterator t)) = {}"
    using parts(4,5) cells by (auto simp: site_lent_def)
  ultimately show thesis
    using that run_task_sound [OF sound(1)] sound(2) task_code_sound [OF sound(1)] by (simp add: t)
qed

end
