(* ===== verification/Async_Clients.thy ===== *)
theory Async_Clients
  imports Async_Pool
begin

text \<open>
  A client of asynchronous pools: a thread that gets handles, executes the tasks of its I/O contexts
  in any order, and works on the handles its handlers are called with.

  The client keeps handles in variables, as in the synchronous case. When a task is executed the
  handle it delivers is the parameter of the caller's handler, which lives in a variable of its own:
  \<open>A_Run r k i now\<close> ends the life of variable \<open>i\<close>, executes the \<open>k\<close>th task of pool \<open>r\<close> and binds
  the handle to \<open>i\<close>. What the body of the handler does, and when its parameter is destroyed, is up to
  the operations that follow.
\<close>

subsection \<open>Operations of a client\<close>

datatype ('c, 'r, 'u, 'v) async_client_op =
    A_Get 'r 'c 'u strategy duration time_point time_point
  | A_Run 'r nat nat time_point
  | A_Handle "'v handle_op"
  | A_Wait_Done 'r error_code time_point
  | A_Invalidate 'r
  | A_Destroy 'r

type_synonym ('r, 'u) delivery = "'u \<times> error_code \<times> 'r handle"

type_synonym ('c, 'x, 'r, 'u, 'v) async_client_state =
  "('r, 'u) delivery list \<times> 'r handles \<times> ('c, 'x, 'r, 'u, 'v) async_world"

text \<open>An I/O context takes a task and calls it; the handle is what \<open>on_get_handler\<close> makes of the cell.\<close>

definition deliver ::
  "'r \<Rightarrow> nat \<Rightarrow> ('c, 'x, 'r, 'u, 'v) async_world \<Rightarrow>
   (('r, 'u) delivery \<times> ('c, 'x, 'r, 'u, 'v) async_world) result"
where
  "deliver r k w =
     and_then (run_task (snd (snd (w r) ! k))) (\<lambda>(h, ec, it).
       Inr (on_get_call h ec it, w(r := (fst (w r), remove_nth k (snd (w r))))))"

fun async_client_step ::
  "('u \<Rightarrow> 'x) \<Rightarrow> ('c, 'r, 'u, 'v) async_client_op \<Rightarrow> 'r handles \<Rightarrow> ('c, 'x, 'r, 'u, 'v) async_world \<Rightarrow>
   ('c, 'x, 'r, 'u, 'v) async_client_state result"
where
  "async_client_step assoc (A_Get r c u st d now now') hs w =
     and_then (async_pool_get assoc r c u st d now now' w) (\<lambda>(w', out). Inr ([], hs, w'))"
| "async_client_step assoc (A_Run r k i now) hs w =
     (if k < length (snd (w r)) then
        and_then (handle_destroy async_api now (hs i) w) (\<lambda>(w', out).
        and_then (deliver r k w') (\<lambda>((u, ec, h), w''). Inr ([(u, ec, h)], hs(i := h), w'')))
      else Inr ([], hs, w))"
| "async_client_step assoc (A_Handle x) hs w =
     and_then (catch_exceptions (handle_step async_api x hs w) (hs, w, []))
       (\<lambda>(hs', w', out). Inr ([], hs', w'))"
| "async_client_step assoc (A_Wait_Done r ec t) hs w =
     and_then (at_site r w (async_wait_done ec t (fst (w r)))) (\<lambda>(w', out). Inr ([], hs, w'))"
| "async_client_step assoc (A_Invalidate r) hs w = Inr ([], hs, async_pool_invalidate r w)"
| "async_client_step assoc (A_Destroy r) hs w =
     and_then (async_pool_destroy (Some r) w) (\<lambda>(w', out). Inr ([], hs, w'))"

text \<open>The run collects what the handlers were called with.\<close>

fun async_client_run ::
  "('u \<Rightarrow> 'x) \<Rightarrow> ('c, 'r, 'u, 'v) async_client_op list \<Rightarrow> 'r handles \<Rightarrow>
   ('c, 'x, 'r, 'u, 'v) async_world \<Rightarrow> ('c, 'x, 'r, 'u, 'v) async_client_state result"
where
  "async_client_run assoc [] hs w = Inr ([], hs, w)"
| "async_client_run assoc (x # xs) hs w =
     and_then (async_client_step assoc x hs w) (\<lambda>(ds, hs', w').
     and_then (async_client_run assoc xs hs' w') (\<lambda>(ds', hs'', w''). Inr (ds @ ds', hs'', w'')))"

declare deliver_def [exec]

subsection \<open>Each operation is defined and keeps the handles apart\<close>

definition delivers_well :: "('r, 'u) delivery list \<Rightarrow> bool" where
  "delivers_well ds \<longleftrightarrow> (\<forall>(u, ec, h) \<in> set ds. unusable h \<longleftrightarrow> failed ec)"

definition client_step_ok ::
  "('u \<Rightarrow> 'x) \<Rightarrow> ('c, 'x, 'r, 'u, 'v) async_client_state result \<Rightarrow> bool" where
  "client_step_ok assoc res \<longleftrightarrow>
     (\<exists>ds hs w. res = Inr (ds, hs, w) \<and> delivers_well ds \<and> async_world_ok assoc w
        \<and> owns async_world_lent hs w)"

lemma client_step_okI:
  "res = Inr (ds, hs, w) \<Longrightarrow> delivers_well ds \<Longrightarrow> async_world_ok assoc w \<Longrightarrow>
   owns async_world_lent hs w \<Longrightarrow> client_step_ok assoc res"
  by (auto simp: client_step_ok_def)

lemma delivers_well_simps [simp]:
  "delivers_well []"
  "delivers_well (ds @ es) \<longleftrightarrow> delivers_well ds \<and> delivers_well es"
  by (simp_all add: delivers_well_def ball_Un)

lemma same_world_lent:
  assumes "owns async_world_lent hs w" and "site_lent x = site_lent (w r)"
  shows "owns async_world_lent hs (w(r := x))"
  using assms by (intro owns_same_lent [OF assms(1)]) (simp add: async_world_lent_def)

text \<open>An operation of one pool that lends nothing and takes nothing back.\<close>

lemma at_site_ok:
  assumes "async_world_ok assoc w" "owns async_world_lent hs w"
    and "\<exists>p' calls. res = Inr (p', calls) \<and> site_ok assoc r (p', snd (w r) @ posted calls)
      \<and> site_lent (p', snd (w r) @ posted calls) = site_lent (w r)"
  shows "client_step_ok assoc (and_then (at_site r w res) (\<lambda>(w', out). Inr ([], hs, w')))"
proof -
  obtain p' calls where res: "res = Inr (p', calls)"
    "site_ok assoc r (p', snd (w r) @ posted calls)"
    "site_lent (p', snd (w r) @ posted calls) = site_lent (w r)"
    using assms(3) by blast
  show ?thesis
    by (rule client_step_okI [where ds = "[]", OF _ _ async_world_ok_upd [OF assms(1) res(2)]
          same_world_lent [OF assms(2) res(3)]])
      (simp_all add: at_site_def res(1))
qed

lemma site_of_world: "async_world_ok assoc w \<Longrightarrow> site_ok assoc r (fst (w r), snd (w r))"
  by (simp add: async_world_ok_def)

lemma handle_destroy_keeps_tasks:
  assumes "handle_destroy async_api now h w = Inr (w', out)" and "k < length (snd (w r))"
  shows "k < length (snd (w' r))"
  using assms
  by (auto simp: handle_destroy_def handle_release_def call_strategy_def handle_waste_def
      handle_recycle_def async_api_def at_site_def and_then_Inr_iff
      split: if_splits option.splits strategy.splits)

lemma client_run_task_ok:
  assumes ok: "async_world_ok assoc w" and own: "owns async_world_lent hs w"
    and k: "k < length (snd (w r))"
  shows "client_step_ok assoc (async_client_step assoc (A_Run r k i now) hs w)"
proof -
  obtain w' out where d: "handle_destroy async_api now (hs i) w = Inr (w', out)"
    "async_world_ok assoc w'" "owns async_world_lent (hs(i := handle_default)) w'"
    using async_returns.destroy_ok [OF ok own, of now i] by blast
  let ?p = "fst (w' r)" and ?ts = "snd (w' r)"
  note site = site_of_world [OF d(2), of r]
  obtain h ec it where run: "run_task (snd (?ts ! k)) = Inr (h, ec, it)" "ogh_impl h = r"
    "failed ec \<longleftrightarrow> it = Singular" "site_ok assoc r (?p, remove_nth k ?ts)"
    "site_lent (?p, remove_nth k ?ts) = site_lent (?p, ?ts) \<union> set (cell_of it)"
    "site_lent (?p, ?ts) \<inter> set (cell_of it) = {}"
    by (rule site_run_task [OF site handle_destroy_keeps_tasks [OF d(1) k]])
  let ?w = "w'(r := (?p, remove_nth k ?ts))"
  have w: "async_world_ok assoc ?w"
    by (rule async_world_ok_upd [OF d(2) run(4)])
  have lent: "async_world_lent r' ?w
      = (if r' = r then set (cell_of it) \<union> async_world_lent r' w' else async_world_lent r' w')" for r'
    using run(5) by (auto simp: async_world_lent_def)
  obtain u ec' h' where call: "on_get_call h ec it = (u, ec', h')" by (cases "on_get_call h ec it")
  have step: "async_client_step assoc (A_Run r k i now) hs w = Inr ([(u, ec', h')], hs(i := h'), ?w)"
    by (simp add: k d(1) deliver_def run(1) call)
  have good: "delivers_well [(u, ec', h')]"
    using call by (auto simp: delivers_well_def on_get_call_def split: if_splits)
  have "owns async_world_lent ((hs(i := handle_default))(i := h')) ?w"
  proof (cases it)
    case Singular
    then have "unusable h'"
      using call run(3) by (auto simp: on_get_call_def)
    then show ?thesis
      using Singular lent by (intro owns_unusable owns_same_lent [OF d(3)]) auto
  next
    case (Cell c)
    then have h': "h' = handle_new r (ogh_strategy h) (Cell c)"
      using call run(2,3) by (auto simp: on_get_call_def)
    have "c \<notin> async_world_lent r w'"
      using run(6) Cell by (simp add: async_world_lent_def)
    then show ?thesis
      unfolding h' using lent Cell by (intro owns_new [OF d(3)]) simp_all
  qed
  then show ?thesis
    by (intro client_step_okI [OF step good w]) simp
qed

lemma client_step_ok:
  assumes ok: "async_world_ok assoc w" and own: "owns async_world_lent hs w"
  shows "client_step_ok assoc (async_client_step assoc x hs w)"
proof (cases x)
  case (A_Get r c u st d now now')
  show ?thesis
    unfolding A_Get async_client_step.simps async_pool_get_def
    by (rule at_site_ok [OF ok own]) (use site_get [OF site_of_world [OF ok]] in simp)
next
  case (A_Run r k i now)
  show ?thesis
  proof (cases "k < length (snd (w r))")
    case True
    then show ?thesis
      unfolding A_Run by (rule client_run_task_ok [OF ok own])
  next
    case False
    then show ?thesis
      by (intro client_step_okI [where ds = "[]", OF _ _ ok own]) (simp_all add: A_Run)
  qed
next
  case (A_Handle y)
  obtain hs' w' out where "catch_exceptions (handle_step async_api y hs w) (hs, w, []) = Inr (hs', w', out)"
    "async_world_ok assoc w'" "owns async_world_lent hs' w'"
    using async_returns.step_safe [OF ok own, of y] by blast
  then show ?thesis
    by (intro client_step_okI [of _ "[]" hs' w']) (simp_all add: A_Handle)
next
  case (A_Wait_Done r ec t)
  show ?thesis
    unfolding A_Wait_Done async_client_step.simps
    by (rule at_site_ok [OF ok own]) (use site_wait_done [OF site_of_world [OF ok]] in simp)
next
  case (A_Invalidate r)
  note site = site_invalidate [OF site_of_world [OF ok, of r]]
  show ?thesis
    using site(2)
    by (intro client_step_okI [where ds = "[]", OF _ _ async_world_ok_upd [OF ok site(1)] same_world_lent [OF own]])
      (simp_all add: A_Invalidate async_pool_invalidate_def)
next
  case (A_Destroy r)
  show ?thesis
    unfolding A_Destroy async_client_step.simps async_pool_destroy_def option.case
    by (rule at_site_ok [OF ok own]) (use site_disable [OF site_of_world [OF ok]] in simp)
qed

lemma client_run_ok:
  "async_world_ok assoc w \<Longrightarrow> owns async_world_lent hs w \<Longrightarrow>
   client_step_ok assoc (async_client_run assoc xs hs w)"
proof (induction xs arbitrary: hs w)
  case Nil
  then show ?case by (intro client_step_okI [where ds = "[]"]) simp_all
next
  case (Cons x xs)
  obtain ds hs' w' where step: "async_client_step assoc x hs w = Inr (ds, hs', w')"
    "delivers_well ds" "async_world_ok assoc w'" "owns async_world_lent hs' w'"
    using client_step_ok [OF Cons.prems, of x] by (auto simp: client_step_ok_def)
  obtain ds' hs'' w'' where "async_client_run assoc xs hs' w' = Inr (ds', hs'', w'')"
    "delivers_well ds'" "async_world_ok assoc w''" "owns async_world_lent hs'' w''"
    using Cons.IH [OF step(3,4)] by (auto simp: client_step_ok_def)
  then show ?case
    using step(1,2) by (intro client_step_okI [of _ "ds @ ds'" hs'' w'']) simp_all
qed

lemma created_site_ok:
  assumes "async_pool_create n k timeout life = Inr p"
  shows "site_ok assoc r (p, [])" "site_lent (p, []) = {}"
  using async_create_inv [OF assms] by (simp_all add: site_ok_def site_lent_def)

text \<open>Two pools of one cell, and a program: a cell is got, given back to a waiting request (and given
  back once more, which is refused), and a request is refused because the queue is full.\<close>

definition demo_site :: "(string, nat, bool, nat, nat) async_site" where
  "demo_site = (\<lparr>ap_storage = storage_of_capacity 1 duration_max duration_max, ap_capacity = 1,
     ap_queue = rq_new 1, ap_disabled = False\<rparr>, [])"

definition demo_client :: "(string, bool, nat, nat) async_client_op list" where
  "demo_client =
     (let t = Time_Point 5; d = Duration 9 in
      [A_Get True ''io'' 7 Strategy_Recycle d t t, A_Run True 0 0 t,
       A_Get True ''io'' 8 Strategy_Waste d t t, A_Get True ''io'' 9 Strategy_Recycle d t t,
       A_Handle (H_Recycle t 0), A_Handle (H_Recycle t 0), A_Run True 1 1 t, A_Run True 0 2 t])"

definition demo_executor :: "nat \<Rightarrow> nat" where "demo_executor u = u + 100"

declare demo_site_def [exec] demo_client_def [exec] demo_executor_def [exec]

lemma demo_sites_fresh:
  "\<forall>r::bool. \<exists>n k timeout life p. async_pool_create n k timeout life = Inr p
     \<and> (\<lambda>_. demo_site) r = (p, [])"
  by (auto simp: demo_site_def async_pool_create_def async_assert_capacity_def
      intro!: exI [of _ 1] exI [of _ duration_max])

subsection \<open>What clients can rely on\<close>

text \<open>
  C1. A client of freshly created asynchronous pools has no undefined behaviour and leaks nothing,
  errors included, whatever it does: any calls of \<open>get\<close>, tasks executed in any order, timers that end
  at any moment, pools invalidated and destroyed, and any operations on handles, with exceptions
  caught. Each handler is called with a usable handle exactly when there is no error. In the end every
  usable handle owns a cell, no two own the same one, and the cells a pool counts as used are exactly
  those that a handle owns or that a task on its way carries.
\<close>

theorem async_clients_safe:
  assumes "\<forall>r. \<exists>n k timeout life p. async_pool_create n k timeout life = Inr p \<and> w r = (p, [])"
  shows "\<exists>ds hs' w'. async_client_run assoc xs (\<lambda>_. handle_default) w = Inr (ds, hs', w')
    \<and> (\<forall>(u, ec, h) \<in> set ds. unusable h \<longleftrightarrow> failed ec)
    \<and> (\<forall>i. \<not> unusable (hs' i) \<longrightarrow>
         (\<exists>r c. pool_impl (hs' i) = Some r \<and> resource_it (hs' i) = Some (Cell c)))
    \<and> (\<forall>i j. i \<noteq> j \<and> \<not> unusable (hs' i) \<and> pool_impl (hs' i) = pool_impl (hs' j) \<longrightarrow>
         resource_it (hs' i) \<noteq> resource_it (hs' j))
    \<and> (\<forall>r. set (used_cells (ap_storage (fst (w' r)))) = held hs' r \<union> set (flight_cells (snd (w' r)))
         \<and> held hs' r \<inter> set (flight_cells (snd (w' r))) = {})"
proof -
  have fresh: "site_ok assoc r (w r)" "site_lent (w r) = {}" for r
    using assms created_site_ok by metis+
  then have "async_world_ok assoc w" "owns async_world_lent (\<lambda>_. handle_default) w"
    by (simp_all add: async_world_ok_def async_world_lent_def owns_nothing)
  then obtain ds hs' w' where run: "async_client_run assoc xs (\<lambda>_. handle_default) w = Inr (ds, hs', w')"
    "delivers_well ds" "async_world_ok assoc w'" and own: "owns async_world_lent hs' w'"
    using client_run_ok by (metis client_step_ok_def)
  have cells: "set (used_cells (ap_storage (fst (w' r)))) = held hs' r \<union> set (flight_cells (snd (w' r)))
      \<and> held hs' r \<inter> set (flight_cells (snd (w' r))) = {}" for r
    using site_ok_parts(5) [OF site_of_world [OF run(3), of r]] owns_held [OF own, of r]
    by (auto simp: async_world_lent_def site_lent_def async_lent_def case_prod_unfold)
  show ?thesis
    using run(1,2) owns_usable [OF own] owns_apart [OF own] cells
    by (intro exI [of _ ds] exI [of _ hs'] exI [of _ w'] conjI)
      (blast, simp add: delivers_well_def, metis, blast, blast)
qed

theorem async_clients_safe_witness:
  "\<exists>ds hs' w'. async_client_run demo_executor demo_client (\<lambda>_. handle_default) (\<lambda>_. demo_site)
        = Inr (ds, hs', w')
    \<and> map (\<lambda>(u, ec, h). (u, ec)) ds
        = [(7, no_error), (8, no_error), (9, make_error_code Request_Queue_Overflow)]
    \<and> \<not> unusable (hs' 1)
    \<and> (\<forall>r. set (used_cells (ap_storage (fst (w' r)))) = held hs' r \<union> set (flight_cells (snd (w' r))))"
proof -
  have "case async_client_run demo_executor demo_client (\<lambda>_. handle_default) (\<lambda>_. demo_site) of
      Inr (ds, hs', w') \<Rightarrow> map (\<lambda>(u, ec, h). (u, ec)) ds
        = [(7, no_error), (8, no_error), (9, make_error_code Request_Queue_Overflow)]
        \<and> \<not> unusable (hs' 1)
    | Inl f \<Rightarrow> False"
    by code_simp
  then show ?thesis
    using async_clients_safe [OF demo_sites_fresh, of demo_executor demo_client] by fastforce
qed

end
