(* ===== verification/Async_Discards.thy ===== *)
theory Async_Discards
  imports Async_Guarantees
begin

text \<open>
  An I/O context that is destroyed before it has executed all its tasks. Boost.Asio destroys the tasks
  without calling them. A task that carries a cell to a handler has no destructor that would give the
  cell back: only the handle that it would have made does that.
\<close>

definition discard_tasks :: "'c \<Rightarrow> ('c, 'x, 'h, 'v) async_system \<Rightarrow> ('c, 'x, 'h, 'v) async_system" where
  "discard_tasks c \<sigma> = \<sigma>\<lparr>in_flight := filter (\<lambda>(c', t). c' \<noteq> c) (in_flight \<sigma>)\<rparr>"

definition discarded_cells :: "'c \<Rightarrow> ('c, 'x, 'h, 'v) async_system \<Rightarrow> nat list" where
  "discarded_cells c \<sigma> = flight_cells (filter (\<lambda>(c', t). c' = c) (in_flight \<sigma>))"

declare discard_tasks_def [exec] discarded_cells_def [exec]

text \<open>The pool cannot tell such a cell from one that is held by a handle for ever.\<close>

definition with_ghost :: "nat list \<Rightarrow> ('c, 'x, 'h, 'v) async_system \<Rightarrow> ('c, 'x, 'h, 'v) async_system" where
  "with_ghost ls \<sigma> = \<sigma>\<lparr>holding := holding \<sigma> @ ls\<rparr>"

lemma ghost_emit: "emit (with_ghost ls \<sigma>) r = map_sum id (with_ghost ls) (emit \<sigma> r)"
  by (cases r) (auto simp: emit_def with_ghost_def)

lemma ghost_give:
  "c \<in> set (holding \<sigma>) \<Longrightarrow>
   (with_ghost ls \<sigma>)\<lparr>holding := remove1 c (holding (with_ghost ls \<sigma>))\<rparr>
     = with_ghost ls (\<sigma>\<lparr>holding := remove1 c (holding \<sigma>)\<rparr>)"
  by (simp add: with_ghost_def remove1_append)

lemma ghost_fields [simp]:
  "a_pool (with_ghost ls \<sigma>) = a_pool \<sigma>" "pushing (with_ghost ls \<sigma>) = pushing \<sigma>"
  "in_flight (with_ghost ls \<sigma>) = in_flight \<sigma>" "called (with_ghost ls \<sigma>) = called \<sigma>"
  "holding (with_ghost ls \<sigma>) = holding \<sigma> @ ls"
  "with_ghost ls (\<sigma>\<lparr>a_pool := p\<rparr>) = (with_ghost ls \<sigma>)\<lparr>a_pool := p\<rparr>"
  "with_ghost ls (\<sigma>\<lparr>pushing := ps\<rparr>) = (with_ghost ls \<sigma>)\<lparr>pushing := ps\<rparr>"
  "with_ghost ls (\<sigma>\<lparr>in_flight := ts\<rparr>) = (with_ghost ls \<sigma>)\<lparr>in_flight := ts\<rparr>"
  by (simp_all add: with_ghost_def)

lemma ghost_step:
  "gives_held \<sigma> e \<Longrightarrow> async_step assoc e (with_ghost ls \<sigma>) = map_sum id (with_ghost ls) (async_step assoc e \<sigma>)"
proof (cases e)
  case (Get_Begin c h w now)
  then show ?thesis
    by (auto simp: with_ghost_def split: prod.splits option.splits)
next
  case (Get_Push k now)
  then show ?thesis
    by (auto simp: ghost_emit [of ls "\<sigma>\<lparr>pushing := _\<rparr>", simplified] split: prod.splits)
next
  case (Run_Task k)
  then show ?thesis
    by (cases "run_task (snd (in_flight \<sigma> ! k))") (auto simp: with_ghost_def)
qed (auto simp: ghost_emit ghost_give simp del: ghost_fields(5))

lemma ghost_run:
  "all_give_held assoc es \<sigma> \<Longrightarrow> async_run assoc es \<sigma> = Inr \<tau> \<Longrightarrow>
   async_run assoc es (with_ghost ls \<sigma>) = Inr (with_ghost ls \<tau>) \<and> all_give_held assoc es (with_ghost ls \<sigma>)"
proof (induction es arbitrary: \<sigma>)
  case (Cons e es)
  then obtain \<rho> where \<rho>: "gives_held \<sigma> e" "async_step assoc e \<sigma> = Inr \<rho>" "all_give_held assoc es \<rho>"
    "async_run assoc es \<rho> = Inr \<tau>"
    by (auto simp: and_then_Inr_iff)
  have "gives_held (with_ghost ls \<sigma>) e"
    using \<rho>(1) by (cases e) simp_all
  with \<rho>(2) Cons.IH [OF \<rho>(3,4)] ghost_step [OF \<rho>(1), of assoc ls] show ?case
    by simp
qed simp

lemma flight_cells_partition:
  "mset (flight_cells (filter P ts)) + mset (flight_cells (filter (\<lambda>x. \<not> P x) ts)) = mset (flight_cells ts)"
  by (induction ts) (auto simp: flight_cells_def)

lemma discard_inv:
  assumes "system_inv assoc \<sigma>"
  shows "system_inv assoc (with_ghost (discarded_cells c \<sigma>) (discard_tasks c \<sigma>))"
proof -
  let ?kept = "filter (\<lambda>(c', t). c' \<noteq> c) (in_flight \<sigma>)"
  have "mset (discarded_cells c \<sigma>) + mset (flight_cells ?kept) = mset (flight_cells (in_flight \<sigma>))"
    using flight_cells_partition [of "\<lambda>(c', t). c' = c" "in_flight \<sigma>"]
    by (simp add: discarded_cells_def case_prod_unfold)
  then have "mset ((holding \<sigma> @ discarded_cells c \<sigma>) @ flight_cells ?kept)
      = mset (holding \<sigma> @ flight_cells (in_flight \<sigma>))"
    by (simp add: ac_simps)
  from distinct_set_mset [OF this] assms show ?thesis
    by (auto simp: system_inv_def discard_tasks_def)
qed

text \<open>
  C24. A cell that was on its way to a handler when its I/O context was destroyed is lost: at every later
  moment, whatever happens, the pool counts it as used, nobody holds it and no task carries it, so each
  loss takes one cell from the capacity for ever.
\<close>

theorem discarded_delivery_loses_cell:
  assumes "async_pool_create n k timeout life = Inr p"
    and "all_give_held assoc es (async_start p)" and "async_run assoc es (async_start p) = Inr \<sigma>"
    and "all_give_held assoc fs (discard_tasks c \<sigma>)" and "async_run assoc fs (discard_tasks c \<sigma>) = Inr \<tau>"
  shows "set (discarded_cells c \<sigma>) \<subseteq> set (used_cells (ap_storage (a_pool \<tau>)))
    \<and> set (discarded_cells c \<sigma>) \<inter> set (holding \<tau> @ flight_cells (in_flight \<tau>)) = {}
    \<and> async_free (a_pool \<tau>) + length (discarded_cells c \<sigma>) \<le> n"
proof -
  let ?ls = "discarded_cells c \<sigma>"
  note start = async_start_inv [OF assms(1)]
  have \<sigma>: "system_inv assoc \<sigma>" "ap_capacity (a_pool \<sigma>) = n"
    using async_run_ok [OF start(1) assms(2)] start(3) by (simp_all add: assms(3) step_ok_def)
  note ghost = ghost_run [OF assms(4,5), of ?ls]
  have "step_ok assoc (submitted fs) (with_ghost ?ls (discard_tasks c \<sigma>))
      (async_run assoc fs (with_ghost ?ls (discard_tasks c \<sigma>)))"
    using ghost by (intro async_run_ok [OF discard_inv [OF \<sigma>(1)]]) simp
  then have \<tau>: "system_inv assoc (with_ghost ?ls \<tau>)" "ap_capacity (a_pool \<tau>) = n"
    using ghost \<sigma>(2) by (simp_all add: step_ok_def discard_tasks_def)
  then have parts: "distinct ((holding \<tau> @ ?ls) @ flight_cells (in_flight \<tau>))"
    "set ((holding \<tau> @ ?ls) @ flight_cells (in_flight \<tau>)) = async_lent (a_pool \<tau>)"
    "async_inv assoc (a_pool \<tau>)"
    by (simp_all add: system_inv_def)
  have "card (set ?ls) = length ?ls"
    using parts(1) by (simp add: distinct_card)
  moreover have "set ?ls \<subseteq> async_lent (a_pool \<tau>)"
    using parts(2) by auto
  moreover have "finite (async_lent (a_pool \<tau>))"
    by (simp add: async_lent_def)
  ultimately have "length ?ls \<le> card (async_lent (a_pool \<tau>))"
    by (metis card_mono)
  then have "async_free (a_pool \<tau>) + length ?ls \<le> n"
    using async_free_lent [OF parts(3)] \<tau>(2) by simp
  then show ?thesis
    using parts(1,2) by (auto simp: async_lent_def)
qed

text \<open>A pool of one cell whose delivery is discarded: every later request is refused or waits in vain.\<close>

definition demo_before :: "(string, nat) async_event list" where
  "demo_before = [Get_Begin ''first'' 1 zero_duration epoch]"

definition demo_after :: "(string, nat) async_event list" where
  "demo_after = [Get_Begin ''second'' 2 (Duration 7) epoch, Get_Push 0 epoch, Wait_Done no_error (Time_Point 7),
     Run_Task 0, Get_Begin ''second'' 3 zero_duration epoch]"

theorem discarded_delivery_loses_cell_witness:
  "\<exists>\<sigma> \<tau>. async_run demo_assoc demo_before (async_start demo_async) = Inr \<sigma>
    \<and> discarded_cells ''first'' \<sigma> = [0]
    \<and> async_run demo_assoc demo_after (discard_tasks ''first'' \<sigma>) = Inr \<tau>
    \<and> map (\<lambda>(h, ec, it). (h, ec)) (called \<tau>) = [(2, make_error_code Get_Resource_Timeout)]
    \<and> async_free (a_pool \<tau>) = 0"
proof -
  have run: "case async_run demo_assoc demo_before (async_start demo_async) of
      Inr \<sigma> \<Rightarrow> discarded_cells ''first'' \<sigma> = [0]
        \<and> all_give_held demo_assoc demo_after (discard_tasks ''first'' \<sigma>)
        \<and> (case async_run demo_assoc demo_after (discard_tasks ''first'' \<sigma>) of
             Inr \<tau> \<Rightarrow> map (\<lambda>(h, ec, it). (h, ec)) (called \<tau>) = [(2, make_error_code Get_Resource_Timeout)]
           | Inl f \<Rightarrow> False)
    | Inl f \<Rightarrow> False"
    by code_simp
  obtain \<sigma> where \<sigma>: "async_run demo_assoc demo_before (async_start demo_async) = Inr \<sigma>"
    using run by (cases "async_run demo_assoc demo_before (async_start demo_async)") simp_all
  obtain \<tau> where \<tau>: "async_run demo_assoc demo_after (discard_tasks ''first'' \<sigma>) = Inr \<tau>"
    using run \<sigma> by (cases "async_run demo_assoc demo_after (discard_tasks ''first'' \<sigma>)") simp_all
  have "all_give_held demo_assoc demo_before (async_start demo_async)"
    by code_simp
  from discarded_delivery_loses_cell [OF demo_async_create this \<sigma> _ \<tau>] run \<sigma> \<tau> show ?thesis
    by auto
qed

end
