(* ===== verification/Pool_Lifetimes.thy ===== *)
theory Pool_Lifetimes
  imports Sync_Pool Async_Clients
begin

text \<open>
  The life of the public pool objects. What the constructors of both pools establish: a pool of capacity
  zero is refused, a pool built from a capacity starts with empty cells, and one built from a generator
  or a range starts with a value in each cell. What moving a pool does to the implementation it shares.
\<close>

subsection \<open>Construction\<close>

lemma emplace_all:
  "length (available_cells (fold (\<lambda>v. emplace_available (f v)) vs s))
     = length (available_cells s) + length vs"
  "used_cells (fold (\<lambda>v. emplace_available (f v)) vs s) = used_cells s"
  "wasted_cells (fold (\<lambda>v. emplace_available (f v)) vs s) = wasted_cells s"
  by (induction vs arbitrary: s) (auto simp: emplace_available_def Let_def)

lemma storage_of_range_stats:
  "storage_stats_of (storage_of_range vs timeout life now)
     = \<lparr>stat_available = length vs, stat_used = 0, stat_wasted = 0\<rparr>"
  by (simp add: storage_stats_of_def storage_of_range_def storage_of_capacity_def emplace_all)

lemma storage_of_generator_stats:
  "storage_stats_of (fst (storage_of_generator gen g n timeout life now))
     = \<lparr>stat_available = n, stat_used = 0, stat_wasted = 0\<rparr>"
  by (simp add: storage_of_generator_eq storage_of_range_stats length_generated)

text \<open>
  A pool without cells cannot be built: every constructor throws \<open>zero_pool_capacity\<close> exactly when
  the capacity, or the length of the range, is zero, and otherwise returns.
\<close>

theorem zero_capacity_refused:
  "pool_construct r n timeout life w =
      (if n = 0 then Inl (Throws Zero_Pool_Capacity)
       else Inr (w(r := \<lparr>sp_storage = storage_of_capacity n timeout life, sp_capacity = n,
                       sp_disabled = False\<rparr>)))
   \<and> (sync_pool_generate gen g n timeout life now = Inl (Throws Zero_Pool_Capacity) \<longleftrightarrow> n = 0)
   \<and> (async_pool_construct r' n k timeout life w' = Inl (Throws Zero_Pool_Capacity) \<longleftrightarrow> n = 0)
   \<and> (async_pool_construct_with gen g r' n k timeout life now w'
        = Inl (Throws Zero_Pool_Capacity) \<longleftrightarrow> n = 0)
   \<and> (async_pool_construct_range vs r' k timeout life now w'
        = Inl (Throws Zero_Pool_Capacity) \<longleftrightarrow> vs = [])
   \<and> safe (sync_pool_generate gen g n timeout life now)
   \<and> safe (async_pool_construct r' n k timeout life w')
   \<and> safe (async_pool_construct_with gen g r' n k timeout life now w')
   \<and> safe (async_pool_construct_range vs r' k timeout life now w')"
  by (simp add: pool_construct_def sync_pool_create_def sync_pool_generate_def
      sync_assert_capacity_def async_pool_construct_def async_pool_construct_with_def
      async_pool_construct_range_def async_pool_create_def async_pool_generate_def
      async_pool_of_range_def async_assert_capacity_def split: prod.splits)

text \<open>
  A new pool reports its capacity and holds nothing in use; without values it has no available
  cell, and built from a generator or a range it has one available cell for each value, its queue
  being empty.
\<close>

theorem new_pool_statistics:
  assumes "0 < n" and "vs \<noteq> []"
  shows "(\<exists>w1. pool_construct r n timeout life w = Inr w1 \<and> pool_capacity r w1 = n
        \<and> pool_stats r w1 = \<lparr>ss_size = 0, ss_available = 0, ss_used = 0\<rparr>)
    \<and> (\<exists>w2. async_pool_construct r' n k timeout life w' = Inr w2 \<and> async_pool_capacity r' w2 = n
        \<and> async_pool_stats r' w2 = \<lparr>as_size = 0, as_available = 0, as_used = 0, as_queue_size = 0\<rparr>)
    \<and> (\<exists>w3 g'. async_pool_construct_with gen g r' n k timeout life now w' = Inr (w3, g')
        \<and> async_pool_capacity r' w3 = n
        \<and> async_pool_stats r' w3 = \<lparr>as_size = n, as_available = n, as_used = 0, as_queue_size = 0\<rparr>)
    \<and> (\<exists>w4. async_pool_construct_range vs r' k timeout life now w' = Inr w4
        \<and> async_pool_capacity r' w4 = length vs
        \<and> async_pool_stats r' w4
            = \<lparr>as_size = length vs, as_available = length vs, as_used = 0, as_queue_size = 0\<rparr>)"
proof (intro conjI)
  show "\<exists>w1. pool_construct r n timeout life w = Inr w1 \<and> pool_capacity r w1 = n
      \<and> pool_stats r w1 = \<lparr>ss_size = 0, ss_available = 0, ss_used = 0\<rparr>"
    using assms(1)
    by (simp add: pool_construct_def sync_pool_create_def sync_assert_capacity_def pool_capacity_def
        pool_stats_def sync_stats_of_def storage_stats_of_def storage_of_capacity_def)
  show "\<exists>w2. async_pool_construct r' n k timeout life w' = Inr w2 \<and> async_pool_capacity r' w2 = n
      \<and> async_pool_stats r' w2 = \<lparr>as_size = 0, as_available = 0, as_used = 0, as_queue_size = 0\<rparr>"
    using assms(1)
    by (simp add: async_pool_construct_def async_pool_create_def async_assert_capacity_def
        async_pool_capacity_def async_pool_stats_def async_stats_of_def storage_stats_of_def
        storage_of_capacity_def rq_size_def rq_new_def)
  obtain s g' where "storage_of_generator gen g n timeout life now = (s, g')"
    by (cases "storage_of_generator gen g n timeout life now")
  with assms(1) storage_of_generator_stats [of gen g n timeout life now]
  show "\<exists>w3 g'. async_pool_construct_with gen g r' n k timeout life now w' = Inr (w3, g')
      \<and> async_pool_capacity r' w3 = n
      \<and> async_pool_stats r' w3 = \<lparr>as_size = n, as_available = n, as_used = 0, as_queue_size = 0\<rparr>"
    by (simp add: async_pool_construct_with_def async_pool_generate_def async_assert_capacity_def
        async_pool_capacity_def async_pool_stats_def async_stats_of_def rq_size_def rq_new_def)
  obtain s vs' where "storage_of_generator next_of_range vs (length vs) timeout life now = (s, vs')"
    by (cases "storage_of_generator next_of_range vs (length vs) timeout life now")
  with assms(2) storage_of_generator_stats [of next_of_range vs "length vs" timeout life now]
  show "\<exists>w4. async_pool_construct_range vs r' k timeout life now w' = Inr w4
      \<and> async_pool_capacity r' w4 = length vs
      \<and> async_pool_stats r' w4
          = \<lparr>as_size = length vs, as_available = length vs, as_used = 0, as_queue_size = 0\<rparr>"
    by (simp add: async_pool_construct_range_def async_pool_of_range_def async_pool_generate_def
        async_assert_capacity_def async_pool_capacity_def async_pool_stats_def async_stats_of_def
        rq_size_def rq_new_def)
qed

definition demo_values :: "nat list" where "demo_values = [10, 20, 30]"

theorem new_pool_statistics_witness:
  "\<exists>w4. async_pool_construct_range demo_values True 5 duration_max duration_max epoch (\<lambda>_. demo_site)
      = Inr w4
    \<and> async_pool_stats True w4 = \<lparr>as_size = 3, as_available = 3, as_used = 0, as_queue_size = 0\<rparr>"
proof -
  have some: "demo_values \<noteq> []" and three: "length demo_values = 3"
    by (simp_all add: demo_values_def)
  obtain w4 where "async_pool_construct_range demo_values True 5 duration_max duration_max epoch
      (\<lambda>_. demo_site) = Inr w4"
    "async_pool_stats True w4 = \<lparr>as_size = length demo_values, as_available = length demo_values,
      as_used = 0, as_queue_size = 0\<rparr>"
    using new_pool_statistics [OF zero_less_one some, of True duration_max duration_max
        "\<lambda>_. demo_pool 1" True 5 "\<lambda>_. demo_site" "\<lambda>g::nat. (g, g)" 0 epoch]
    by blast
  with three show ?thesis by simp
qed

subsection \<open>Moving\<close>

text \<open>
  Pools in variables. Both move operations are defaulted, so they move the shared pointer, and the
  assignment lets go of the old one. Assigning a variable to itself changes nothing.
\<close>

definition pool_move_construct :: "'r option \<Rightarrow> 'r option \<times> 'r option" where
  "pool_move_construct other = (other, None)"

definition pool_move_assign :: "nat \<Rightarrow> nat \<Rightarrow> (nat \<Rightarrow> 'r option) \<Rightarrow> nat \<Rightarrow> 'r option" where
  "pool_move_assign this other ps =
     (if this = other then ps else ps(this := ps other, other := None))"

declare pool_move_construct_def [exec] pool_move_assign_def [exec]

text \<open>
  A pool that is replaced by move assignment is never disabled: if no other variable shares its
  implementation, then after the assignment no destructor of any pool variable touches it, so its
  waiting requests are not refused, while the destructor of the variable would have refused them all.
\<close>

theorem replaced_pool_is_never_disabled:
  assumes "i \<noteq> j" and "ps i = Some r" and "\<forall>k. k \<noteq> i \<longrightarrow> ps k \<noteq> Some r"
    and "async_world_ok assoc w"
  shows "(\<exists>w' out. async_pool_destroy (ps i) w = Inr (w', out) \<and> ap_disabled (fst (w' r))
        \<and> posted (map snd out) = map refuse (rq_contents (ap_queue (fst (w r)))))
    \<and> (\<forall>k w' out. async_pool_destroy (pool_move_assign i j ps k) w = Inr (w', out) \<longrightarrow> w' r = w r)"
proof (intro conjI allI impI)
  obtain p calls where "async_disable (fst (w r)) = Inr (p, calls)" "ap_disabled p"
    "posted calls = map refuse (rq_contents (ap_queue (fst (w r))))"
    by (rule async_disable_ok [OF site_ok_parts(1) [OF site_of_world [OF assms(4), of r]]])
  then show "\<exists>w' out. async_pool_destroy (ps i) w = Inr (w', out) \<and> ap_disabled (fst (w' r))
      \<and> posted (map snd out) = map refuse (rq_contents (ap_queue (fst (w r))))"
    by (simp add: async_pool_destroy_def assms(2) at_site_def comp_def)
next
  fix k w' out
  assume "async_pool_destroy (pool_move_assign i j ps k) w = Inr (w', out)"
  moreover have "pool_move_assign i j ps k \<noteq> Some r"
    using assms(1,3) by (auto simp: pool_move_assign_def)
  ultimately show "w' r = w r"
    by (auto simp: async_pool_destroy_def at_site_def and_then_Inr_iff split: option.splits)
qed

definition demo_pools :: "nat \<Rightarrow> bool option" where
  "demo_pools = (\<lambda>k. if k = 0 then Some True else if k = 1 then Some False else None)"

theorem replaced_pool_is_never_disabled_witness:
  "\<exists>w' out. async_pool_destroy (pool_move_assign 0 1 demo_pools 0) (\<lambda>_. demo_site) = Inr (w', out)
    \<and> w' True = demo_site \<and> ap_disabled (fst (w' False))"
proof -
  have ps: "(0::nat) \<noteq> 1" "demo_pools 0 = Some True" "\<forall>k. k \<noteq> 0 \<longrightarrow> demo_pools k \<noteq> Some True"
    by (simp_all add: demo_pools_def)
  have ok: "async_world_ok demo_executor (\<lambda>_. demo_site)"
    using demo_sites_fresh created_site_ok(1) by (metis async_world_ok_def)
  have now: "pool_move_assign 0 1 demo_pools 0 = Some False"
    by (simp add: pool_move_assign_def demo_pools_def)
  obtain p calls where "async_disable (fst demo_site) = Inr (p, calls)" "ap_disabled p"
    by (rule async_disable_ok [OF site_ok_parts(1) [OF site_of_world [OF ok, of False]]])
  then have destroyed: "\<exists>w' out. async_pool_destroy (pool_move_assign 0 1 demo_pools 0) (\<lambda>_. demo_site)
      = Inr (w', out) \<and> ap_disabled (fst (w' False))"
    unfolding now by (simp add: async_pool_destroy_def at_site_def)
  then show ?thesis
    using replaced_pool_is_never_disabled [OF ps ok] by blast
qed

end
