(* ===== verification/Shared_Pools.thy ===== *)
theory Shared_Pools
  imports Pool_Lifetimes
begin

text \<open>
  The lifetime of the objects that the asynchronous pools share.

  A pool, a handle, a handler that waits in a queue and a task on its way each hold a shared pointer to an
  implementation, which is destroyed with the last of them; the completion of a timer holds a weak
  pointer. In the other theories an implementation, once built, stays at its address. Here the memory
  is a partial map: an address without an implementation cannot be used, and after each operation the
  implementations that nobody refers to are destroyed.

  A program has variables for pools, for shared pointers of its own and for handles, numbered below
  \<open>sh_vars\<close>; a pool variable is \<open>None\<close> when there is no pool in it or when it was moved from. A call of
  \<open>get\<close> that has released the mutex and has not pushed its request yet is in \<open>sh_calls\<close>.
\<close>

subsection \<open>Memory\<close>

type_synonym ('c, 'x, 'r, 'u, 'v) memory = "('r \<times> ('c, 'x, 'r, 'u, 'v) async_site) list"

record ('c, 'x, 'r, 'u, 'v) shared =
  sh_vars :: nat
  sh_pools :: "nat \<Rightarrow> 'r option"
  sh_pointers :: "nat \<Rightarrow> 'r option"
  sh_handles :: "'r handles"
  sh_calls :: "('c \<times> ('r, 'u) on_get_handler \<times> duration) list"
  sh_memory :: "('c, 'x, 'r, 'u, 'v) memory"

text \<open>
  The operations of the other theories work on a world in which every address has a pool. Where the
  memory has none the world has an arbitrary one; the operations below never get at it.
\<close>

definition nobody :: "('c, 'x, 'r, 'u, 'v) async_site" where
  "nobody = (\<lparr>ap_storage = storage_of_capacity 1 duration_max duration_max, ap_capacity = 1,
     ap_queue = rq_new 0, ap_disabled = False\<rparr>, [])"

definition world_of :: "('c, 'x, 'r, 'u, 'v) memory \<Rightarrow> ('c, 'x, 'r, 'u, 'v) async_world" where
  "world_of m = (\<lambda>r. case map_of m r of None \<Rightarrow> nobody | Some x \<Rightarrow> x)"

definition store_world ::
  "('c, 'x, 'r, 'u, 'v) async_world \<Rightarrow> ('c, 'x, 'r, 'u, 'v) memory \<Rightarrow> ('c, 'x, 'r, 'u, 'v) memory" where
  "store_world w m = map (\<lambda>(r, x). (r, w r)) m"

definition alive :: "('c, 'x, 'r, 'u, 'v) memory \<Rightarrow> 'r \<Rightarrow> bool" where
  "alive m r \<longleftrightarrow> map_of m r \<noteq> None"

text \<open>The handlers that the requests and the tasks of a pool own.\<close>

definition site_handlers :: "('c, 'x, 'r, 'u, 'v) async_site \<Rightarrow> ('r, 'u) on_get_handler list" where
  "site_handlers = (\<lambda>(p, ts). waiting_handlers (waiting p) @ task_handlers ts)"

text \<open>
  The shared pointers to an implementation: those of pools, of handles and of handlers, and those of the
  program. (A handler only ever refers to the pool that it waits in or comes from, see \<open>site_refers\<close>.)
\<close>

definition pools_own :: "('c, 'x, 'r, 'u, 'v) shared \<Rightarrow> 'r \<Rightarrow> bool" where
  "pools_own s r \<longleftrightarrow> list_ex (\<lambda>i. sh_pools s i = Some r) [0..<sh_vars s]"

definition handles_own :: "('c, 'x, 'r, 'u, 'v) shared \<Rightarrow> 'r \<Rightarrow> bool" where
  "handles_own s r \<longleftrightarrow> list_ex (\<lambda>i. pool_impl (sh_handles s i) = Some r) [0..<sh_vars s]"

definition handlers_own :: "('r, 'u) on_get_handler list \<Rightarrow> 'r \<Rightarrow> bool" where
  "handlers_own hs r \<longleftrightarrow> list_ex (\<lambda>h. ogh_impl h = r) hs"

definition held_outside :: "('c, 'x, 'r, 'u, 'v) shared \<Rightarrow> 'r \<Rightarrow> bool" where
  "held_outside s r \<longleftrightarrow>
     pools_own s r \<or> handles_own s r \<or> list_ex (\<lambda>i. sh_pointers s i = Some r) [0..<sh_vars s]
     \<or> handlers_own (map (fst \<circ> snd) (sh_calls s)) r"

definition referenced :: "('c, 'x, 'r, 'u, 'v) shared \<Rightarrow> 'r \<Rightarrow> bool" where
  "referenced s r \<longleftrightarrow>
     held_outside s r
     \<or> (case map_of (sh_memory s) r of None \<Rightarrow> False | Some x \<Rightarrow> handlers_own (site_handlers x) r)"

definition reclaim :: "('c, 'x, 'r, 'u, 'v) shared \<Rightarrow> ('c, 'x, 'r, 'u, 'v) shared" where
  "reclaim s = s\<lparr>sh_memory := filter (\<lambda>(r, x). referenced s r) (sh_memory s)\<rparr>"

subsection \<open>Operations\<close>

text \<open>Through a handle: the virtual functions of the pool it points to, if that is still there.\<close>

definition live_api ::
  "('r \<Rightarrow> bool) \<Rightarrow>
   ('r, ('c, 'x, 'r, 'u, 'v) async_world, ('c, 'x, 'r, 'u) async_output, 'v) pool_api"
where
  "live_api live =
     \<lparr>api_waste = (\<lambda>r it w. if live r then api_waste async_api r it w else Inl Undefined_Behaviour),
      api_recycle = (\<lambda>now r it w. if live r then api_recycle async_api now r it w
        else Inl Undefined_Behaviour),
      api_read = (\<lambda>r it w. if live r then api_read async_api r it w else Inl Undefined_Behaviour),
      api_write = (\<lambda>r it f w. if live r then api_write async_api r it f w
        else Inl Undefined_Behaviour)\<rparr>"

text \<open>Through a shared pointer: \<open>_impl->\<close> of a pool, empty or not.\<close>

definition deref :: "'r option \<Rightarrow> ('c, 'x, 'r, 'u, 'v) shared \<Rightarrow> 'r result" where
  "deref impl s =
     (case impl of
        None \<Rightarrow> Inl Undefined_Behaviour
      | Some r \<Rightarrow> if alive (sh_memory s) r then Inr r else Inl Undefined_Behaviour)"

definition in_world ::
  "('c, 'x, 'r, 'u, 'v) shared \<Rightarrow> ('c, 'x, 'r, 'u, 'v) async_world \<Rightarrow> ('c, 'x, 'r, 'u, 'v) shared" where
  "in_world s w = s\<lparr>sh_memory := store_world w (sh_memory s)\<rparr>"

text \<open>
  \<open>S_Construct i r\<close> declares pool variable \<open>i\<close> with an implementation at the free address \<open>r\<close>.
  \<open>S_Make_Shared i r\<close> makes an implementation for pointer variable \<open>i\<close>, and \<open>S_Adopt i j\<close> declares pool
  variable \<open>i\<close> from a copy of pointer \<open>j\<close>, the constructor that takes a shared pointer. \<open>S_Read i\<close>
  stands for the accessors. A program calls \<open>get\<close> as a whole (\<open>S_Get\<close>), or its two halves
  (\<open>S_Get_Begin\<close>, \<open>S_Get_Push\<close>) with operations of other threads in between.
\<close>

datatype ('c, 'r, 'u, 'v) shared_op =
    S_Construct nat 'r nat nat duration duration
  | S_Make_Shared nat 'r nat nat duration duration
  | S_Adopt nat nat
  | S_Drop_Pointer nat
  | S_Move_Construct nat nat
  | S_Move_Assign nat nat
  | S_Destroy nat
  | S_Read nat
  | S_Invalidate nat
  | S_Get nat 'c 'u strategy duration time_point time_point
  | S_Get_Begin nat 'c 'u strategy duration time_point
  | S_Get_Push nat time_point
  | S_Run 'r nat nat time_point
  | S_Handle "'v handle_op"
  | S_Wait_Done 'r error_code time_point

text \<open>The constructor of a pool from a shared pointer, and the allocation of an implementation.\<close>

definition pool_adopt :: "'r option \<Rightarrow> 'r option" where
  "pool_adopt impl = impl"

definition allocate ::
  "'r \<Rightarrow> nat \<Rightarrow> nat \<Rightarrow> duration \<Rightarrow> duration \<Rightarrow> ('c, 'x, 'r, 'u, 'v) shared \<Rightarrow>
   ('c, 'x, 'r, 'u, 'v) shared result"
where
  "allocate r n k timeout life s =
     and_then (async_pool_construct r n k timeout life (world_of (sh_memory s))) (\<lambda>w.
       Inr (s\<lparr>sh_memory := (r, w r) # sh_memory s\<rparr>))"

fun shared_effect ::
  "('u \<Rightarrow> 'x) \<Rightarrow> ('c, 'r, 'u, 'v) shared_op \<Rightarrow> ('c, 'x, 'r, 'u, 'v) shared \<Rightarrow>
   ('c, 'x, 'r, 'u, 'v) shared result"
where
  "shared_effect assoc (S_Construct i r n k timeout life) s =
     and_then (allocate r n k timeout life s) (\<lambda>s'. Inr (s'\<lparr>sh_pools := (sh_pools s)(i := Some r)\<rparr>))"
| "shared_effect assoc (S_Make_Shared i r n k timeout life) s =
     and_then (allocate r n k timeout life s)
       (\<lambda>s'. Inr (s'\<lparr>sh_pointers := (sh_pointers s)(i := Some r)\<rparr>))"
| "shared_effect assoc (S_Adopt i j) s =
     Inr (s\<lparr>sh_pools := (sh_pools s)(i := pool_adopt (sh_pointers s j))\<rparr>)"
| "shared_effect assoc (S_Drop_Pointer i) s = Inr (s\<lparr>sh_pointers := (sh_pointers s)(i := None)\<rparr>)"
| "shared_effect assoc (S_Move_Construct i j) s =
     (case pool_move_construct (sh_pools s j) of
        (new, old) \<Rightarrow> Inr (s\<lparr>sh_pools := (sh_pools s)(j := old, i := new)\<rparr>))"
| "shared_effect assoc (S_Move_Assign i j) s = Inr (s\<lparr>sh_pools := pool_move_assign i j (sh_pools s)\<rparr>)"
| "shared_effect assoc (S_Destroy i) s =
     (if sh_pools s i = None then Inr s
      else
        and_then (deref (sh_pools s i) s) (\<lambda>r.
        and_then (async_pool_destroy (Some r) (world_of (sh_memory s))) (\<lambda>(w, out).
          Inr ((in_world s w)\<lparr>sh_pools := (sh_pools s)(i := None)\<rparr>))))"
| "shared_effect assoc (S_Read i) s = and_then (deref (sh_pools s i) s) (\<lambda>r. Inr s)"
| "shared_effect assoc (S_Invalidate i) s =
     and_then (deref (sh_pools s i) s) (\<lambda>r.
       Inr (in_world s (async_pool_invalidate r (world_of (sh_memory s)))))"
| "shared_effect assoc (S_Get i c u st d now now') s =
     and_then (deref (sh_pools s i) s) (\<lambda>r.
     and_then (async_pool_get assoc r c u st d now now' (world_of (sh_memory s))) (\<lambda>(w, out).
       Inr (in_world s w)))"
| "shared_effect assoc (S_Get_Begin i c u st d now) s =
     and_then (deref (sh_pools s i) s) (\<lambda>r.
       let w = world_of (sh_memory s); h = make_on_get_handler r st u
       in case async_get_locked c h d now (fst (w r)) of
            (p, Some calls) \<Rightarrow> Inr (in_world s (w(r := (p, snd (w r) @ posted calls))))
          | (p, None) \<Rightarrow>
              Inr ((in_world s (w(r := (p, snd (w r)))))\<lparr>sh_calls := sh_calls s @ [(c, h, d)]\<rparr>))"
| "shared_effect assoc (S_Get_Push k now) s =
     (case sh_calls s ! k of
        (c, h, d) \<Rightarrow>
          and_then (deref (Some (ogh_impl h)) s) (\<lambda>r.
          and_then (at_site r (world_of (sh_memory s))
              (async_get_push (on_get_executor assoc) c h d now (fst (world_of (sh_memory s) r))))
            (\<lambda>(w, out). Inr ((in_world s w)\<lparr>sh_calls := remove_nth k (sh_calls s)\<rparr>))))"
| "shared_effect assoc (S_Run r k i now) s =
     and_then (handle_destroy (live_api (alive (sh_memory s))) now (sh_handles s i) (world_of (sh_memory s)))
       (\<lambda>(w, out).
     and_then (deliver r k w) (\<lambda>((u, ec, h), w').
       Inr ((in_world s w')\<lparr>sh_handles := (sh_handles s)(i := h)\<rparr>)))"
| "shared_effect assoc (S_Handle x) s =
     and_then (handle_step (live_api (alive (sh_memory s))) x (sh_handles s) (world_of (sh_memory s)))
       (\<lambda>(hs, w, out). Inr ((in_world s w)\<lparr>sh_handles := hs\<rparr>))"
| "shared_effect assoc (S_Wait_Done r ec t) s =
     (if alive (sh_memory s) r then
        and_then (at_site r (world_of (sh_memory s)) (async_wait_done ec t (fst (world_of (sh_memory s) r))))
          (\<lambda>(w, out). Inr (in_world s w))
      else Inr s)"

text \<open>
  What can happen: variables exist, memory is allocated where there is none in use, a pool is declared
  where there is none, a call or a task that is completed is under way.
\<close>

fun handle_op_vars :: "'v handle_op \<Rightarrow> nat list" where
  "handle_op_vars (H_Get i) = [i]"
| "handle_op_vars (H_Recycle now i) = [i]"
| "handle_op_vars (H_Waste i) = [i]"
| "handle_op_vars (H_Reset v now i) = [i]"
| "handle_op_vars (H_Move_Assign now i j) = [i, j]"
| "handle_op_vars (H_Declare now i j) = [i, j]"
| "handle_op_vars (H_Destroy now i) = [i]"

fun shared_op_vars :: "('c, 'r, 'u, 'v) shared_op \<Rightarrow> nat list" where
  "shared_op_vars (S_Construct i r n k timeout life) = [i]"
| "shared_op_vars (S_Make_Shared i r n k timeout life) = [i]"
| "shared_op_vars (S_Adopt i j) = [i, j]"
| "shared_op_vars (S_Drop_Pointer i) = [i]"
| "shared_op_vars (S_Move_Construct i j) = [i, j]"
| "shared_op_vars (S_Move_Assign i j) = [i, j]"
| "shared_op_vars (S_Destroy i) = [i]"
| "shared_op_vars (S_Read i) = [i]"
| "shared_op_vars (S_Invalidate i) = [i]"
| "shared_op_vars (S_Get i c u st d now now') = [i]"
| "shared_op_vars (S_Get_Begin i c u st d now) = [i]"
| "shared_op_vars (S_Get_Push k now) = []"
| "shared_op_vars (S_Run r k i now) = [i]"
| "shared_op_vars (S_Handle x) = handle_op_vars x"
| "shared_op_vars (S_Wait_Done r ec t) = []"

fun can_happen :: "('c, 'r, 'u, 'v) shared_op \<Rightarrow> ('c, 'x, 'r, 'u, 'v) shared \<Rightarrow> bool" where
  "can_happen (S_Construct i r n k timeout life) s \<longleftrightarrow> \<not> alive (sh_memory s) r \<and> sh_pools s i = None"
| "can_happen (S_Make_Shared i r n k timeout life) s \<longleftrightarrow>
     \<not> alive (sh_memory s) r \<and> sh_pointers s i = None"
| "can_happen (S_Adopt i j) s \<longleftrightarrow> sh_pools s i = None"
| "can_happen (S_Move_Construct i j) s \<longleftrightarrow> sh_pools s i = None"
| "can_happen (S_Get_Push k now) s \<longleftrightarrow> k < length (sh_calls s)"
| "can_happen (S_Run r k i now) s \<longleftrightarrow> k < length (snd (world_of (sh_memory s) r))"
| "can_happen _ s \<longleftrightarrow> True"

text \<open>An operation that cannot happen is \<open>None\<close>. The program catches exceptions.\<close>

definition shared_step ::
  "('u \<Rightarrow> 'x) \<Rightarrow> ('c, 'r, 'u, 'v) shared_op \<Rightarrow> ('c, 'x, 'r, 'u, 'v) shared \<Rightarrow>
   ('c, 'x, 'r, 'u, 'v) shared result option"
where
  "shared_step assoc x s =
     (if list_all (\<lambda>i. i < sh_vars s) (shared_op_vars x) \<and> can_happen x s
      then Some (and_then (catch_exceptions (shared_effect assoc x s) s) (\<lambda>s'. Inr (reclaim s')))
      else None)"

fun shared_run ::
  "('u \<Rightarrow> 'x) \<Rightarrow> ('c, 'r, 'u, 'v) shared_op list \<Rightarrow> ('c, 'x, 'r, 'u, 'v) shared \<Rightarrow>
   ('c, 'x, 'r, 'u, 'v) shared result option"
where
  "shared_run assoc [] s = Some (Inr s)"
| "shared_run assoc (x # xs) s =
     (case shared_step assoc x s of
        None \<Rightarrow> None
      | Some (Inl f) \<Rightarrow> Some (Inl f)
      | Some (Inr s') \<Rightarrow> shared_run assoc xs s')"

definition shared_start :: "nat \<Rightarrow> ('c, 'x, 'r, 'u, 'v) shared" where
  "shared_start n =
     \<lparr>sh_vars = n, sh_pools = (\<lambda>_. None), sh_pointers = (\<lambda>_. None), sh_handles = (\<lambda>_. handle_default),
      sh_calls = [], sh_memory = []\<rparr>"

lemmas shared_defs =
  nobody_def world_of_def store_world_def alive_def site_handlers_def pools_own_def handles_own_def
  handlers_own_def held_outside_def referenced_def reclaim_def live_api_def deref_def in_world_def
  pool_adopt_def allocate_def shared_step_def shared_start_def

lemmas own_defs = pools_own_def handles_own_def handlers_own_def held_outside_def

declare shared_defs [exec]

end
