(* ===== verification/Shared_Safety.thy ===== *)
theory Shared_Safety
  imports Shared_Pools
begin

text \<open>
  No operation uses an implementation that is gone, and what is destroyed was at rest.
\<close>

subsection \<open>The memory as a world\<close>

lemma map_of_filter_key: "map_of (filter (\<lambda>(r, x). P r) m) r = (if P r then map_of m r else None)"
  by (induction m) auto

lemma map_of_memory [simp]:
  "map_of (store_world w m) r = map_option (\<lambda>x. w r) (map_of m r)"
  "map_of (sh_memory (reclaim s)) r = (if referenced s r then map_of (sh_memory s) r else None)"
proof -
  show "map_of (store_world w m) r = map_option (\<lambda>x. w r) (map_of m r)"
    by (induction m) (auto simp: store_world_def)
qed (simp add: reclaim_def map_of_filter_key)

lemma alive_simps [simp]:
  "alive (store_world w m) r \<longleftrightarrow> alive m r"
  "alive ((r', x) # m) r \<longleftrightarrow> r = r' \<or> alive m r"
  by (auto simp: alive_def)

lemma world_of_known: "map_of m r = Some x \<Longrightarrow> world_of m r = x"
  by (simp add: world_of_def)

lemma world_of_dead: "\<not> alive m r \<Longrightarrow> world_of m r = nobody"
  by (cases "map_of m r") (simp_all add: alive_def world_of_def)

lemma world_of_store: "(\<And>r. \<not> alive m r \<Longrightarrow> w r = nobody) \<Longrightarrow> world_of (store_world w m) = w"
  by (auto simp: alive_def world_of_def fun_eq_iff split: option.splits)

lemma world_of_update: "alive m r \<Longrightarrow> world_of (store_world ((world_of m)(r := x)) m) = (world_of m)(r := x)"
  by (rule world_of_store) (auto simp: world_of_dead)

lemma world_of_allocated: "world_of ((r, x) # m) = (world_of m)(r := x)"
  by (auto simp: world_of_def fun_eq_iff)

lemma nobody_ok: "site_ok assoc r nobody" "site_lent nobody = {}"
  using created_site_ok [of 1 0 duration_max duration_max "fst nobody"]
  by (simp_all add: nobody_def async_pool_create_def async_assert_capacity_def)

lemma in_world_simps [simp]:
  "sh_vars (in_world s w) = sh_vars s" "sh_pools (in_world s w) = sh_pools s"
  "sh_pointers (in_world s w) = sh_pointers s" "sh_handles (in_world s w) = sh_handles s"
  "sh_calls (in_world s w) = sh_calls s" "sh_memory (in_world s w) = store_world w (sh_memory s)"
  by (simp_all add: in_world_def)

subsection \<open>Handles and the memory\<close>

lemma live_api_simps [simp]:
  "live r \<Longrightarrow> api_waste (live_api live) r it w = api_waste async_api r it w"
  "live r \<Longrightarrow> api_recycle (live_api live) now r it w = api_recycle async_api now r it w"
  "live r \<Longrightarrow> api_read (live_api live) r it w = api_read async_api r it w"
  "live r \<Longrightarrow> api_write (live_api live) r it f w = api_write async_api r it f w"
  by (simp_all add: live_api_def)

lemma live_release:
  assumes "\<And>r. pool_impl h = Some r \<Longrightarrow> live r"
  shows "handle_recycle (live_api live) now h w = handle_recycle async_api now h w"
    "handle_waste (live_api live) h w = handle_waste async_api h w"
    "call_strategy (live_api live) now h w = call_strategy async_api now h w"
    "handle_release (live_api live) now h w = handle_release async_api now h w"
    "handle_destroy (live_api live) now h w = handle_destroy async_api now h w"
    "handle_get (live_api live) h w = handle_get async_api h w"
    "handle_reset (live_api live) v now h w = handle_reset async_api v now h w"
proof -
  show r: "handle_recycle (live_api live) now h w = handle_recycle async_api now h w"
    and w: "handle_waste (live_api live) h w = handle_waste async_api h w"
    using assms by (auto simp: handle_recycle_def handle_waste_def split: option.splits)
  show c: "call_strategy (live_api live) now h w = call_strategy async_api now h w"
    by (simp add: call_strategy_def r w split: option.splits strategy.splits)
  show "handle_release (live_api live) now h w = handle_release async_api now h w"
    "handle_destroy (live_api live) now h w = handle_destroy async_api now h w"
    by (simp_all add: handle_destroy_def handle_release_def c)
  have "handle_cell (live_api live) h w = handle_cell async_api h w"
    using assms by (auto simp: handle_cell_def split: option.splits)
  then show "handle_get (live_api live) h w = handle_get async_api h w"
    by (simp add: handle_get_def assert_not_empty_def handle_empty_def)
  show "handle_reset (live_api live) v now h w = handle_reset async_api v now h w"
    using assms by (auto simp: handle_reset_def split: option.splits)
qed

lemma live_step:
  assumes "\<And>i r. pool_impl (hs i) = Some r \<Longrightarrow> live r"
  shows "handle_step (live_api live) x hs w = handle_step async_api x hs w"
proof -
  have l: "\<And>r. pool_impl (hs i) = Some r \<Longrightarrow> live r" for i
    using assms by blast
  show ?thesis
    by (cases x) (simp_all add: live_release [OF l] handle_move_assign_def)
qed

text \<open>An operation on handles changes the pools that handles refer to, and makes no new reference.\<close>

lemma release_frame:
  assumes "handle_release async_api now h w = Inr (h', w', out)"
  shows "pool_impl h' = pool_impl h" "pool_impl h \<noteq> Some r \<Longrightarrow> w' r = w r"
  using assms
  by (auto simp: handle_release_def call_strategy_def handle_recycle_def handle_waste_def async_api_def
      at_site_def and_then_Inr_iff split: if_splits option.splits strategy.splits)

lemma give_back_frame:
  assumes "handle_recycle async_api now h w = Inr (h', w', out) \<or> handle_waste async_api h w = Inr (h', w', out)"
  shows "pool_impl h' = pool_impl h" "pool_impl h \<noteq> Some r \<Longrightarrow> w' r = w r"
  using assms
  by (auto simp: handle_recycle_def handle_waste_def async_api_def at_site_def and_then_Inr_iff
      split: option.splits)

lemma destroy_frame:
  assumes "handle_destroy async_api now h w = Inr (w', out)" and "pool_impl h \<noteq> Some r"
  shows "w' r = w r"
  using assms release_frame(2) by (fastforce simp: handle_destroy_def and_then_Inr_iff)

lemma reset_frame:
  assumes "handle_reset async_api v now h w = Inr w'" and "pool_impl h \<noteq> Some r"
  shows "w' r = w r"
  using assms
  by (auto simp: handle_reset_def async_api_def and_then_Inr_iff split: option.splits)

lemma step_world_frame:
  assumes "handle_step async_api x hs w = Inr (hs', w', out)" and out: "\<And>i. pool_impl (hs i) \<noteq> Some r"
  shows "w' r = w r"
proof (cases x)
  case (H_Reset v now i)
  with assms(1) have "handle_reset async_api v now (hs i) w = Inr w'"
    by (auto simp: and_then_Inr_iff)
  then show ?thesis
    by (rule reset_frame [OF _ out])
qed (use assms(1) in \<open>auto simp: and_then_Inr_iff handle_move_assign_def handle_move_construct_def Let_def
      dest: release_frame(2) [OF _ out] give_back_frame(2) [OF disjI1 out]
        give_back_frame(2) [OF disjI2 out] destroy_frame [OF _ out]\<close>)

lemma step_handles_frame:
  assumes "handle_step async_api x hs w = Inr (hs', w', out)" and "pool_impl (hs' i) = Some r"
  shows "(\<exists>j. pool_impl (hs j) = Some r) \<and> (i \<in> set (handle_op_vars x) \<or> hs' i = hs i)"
  using assms
  by (cases x)
    (auto simp: and_then_Inr_iff handle_move_assign_def handle_move_construct_def moved_from_def Let_def
        handle_default_def
      dest!: release_frame(1) give_back_frame(1) [OF disjI1] give_back_frame(1) [OF disjI2]
      split: if_splits)

subsection \<open>The invariant\<close>

text \<open>
  Everything that holds a shared pointer holds one to an implementation that is there; the pools are
  in order, and the usable handles own the lent cells.
\<close>

definition shared_ok :: "('u \<Rightarrow> 'x) \<Rightarrow> ('c, 'x, 'r, 'u, 'v) shared \<Rightarrow> bool" where
  "shared_ok assoc s \<longleftrightarrow>
     async_world_ok assoc (world_of (sh_memory s))
     \<and> owns async_world_lent (sh_handles s) (world_of (sh_memory s))
     \<and> (\<forall>i r. sh_pools s i = Some r \<or> sh_pointers s i = Some r \<or> pool_impl (sh_handles s i) = Some r
          \<longrightarrow> i < sh_vars s \<and> alive (sh_memory s) r)
     \<and> (\<forall>(c, h, d) \<in> set (sh_calls s). alive (sh_memory s) (ogh_impl h))"

declare shared_ok_def [inv_simps]

lemma shared_okI:
  assumes "async_world_ok assoc (world_of (sh_memory s))"
    and "owns async_world_lent (sh_handles s) (world_of (sh_memory s))"
    and "\<And>i r. sh_pools s i = Some r \<Longrightarrow> i < sh_vars s \<and> alive (sh_memory s) r"
    and "\<And>i r. sh_pointers s i = Some r \<Longrightarrow> i < sh_vars s \<and> alive (sh_memory s) r"
    and "\<And>i r. pool_impl (sh_handles s i) = Some r \<Longrightarrow> i < sh_vars s \<and> alive (sh_memory s) r"
    and "\<forall>(c, h, d) \<in> set (sh_calls s). alive (sh_memory s) (ogh_impl h)"
  shows "shared_ok assoc s"
  using assms by (auto simp: shared_ok_def)

lemma shared_okD:
  assumes "shared_ok assoc s"
  shows "async_world_ok assoc (world_of (sh_memory s))"
    "owns async_world_lent (sh_handles s) (world_of (sh_memory s))"
    "\<And>i r. sh_pools s i = Some r \<Longrightarrow> i < sh_vars s \<and> alive (sh_memory s) r"
    "\<And>i r. sh_pointers s i = Some r \<Longrightarrow> i < sh_vars s \<and> alive (sh_memory s) r"
    "\<And>i r. pool_impl (sh_handles s i) = Some r \<Longrightarrow> i < sh_vars s \<and> alive (sh_memory s) r"
    "\<forall>(c, h, d) \<in> set (sh_calls s). alive (sh_memory s) (ogh_impl h)"
  using assms by (auto simp: shared_ok_def)

lemma shared_site:
  "shared_ok assoc s \<Longrightarrow> site_ok assoc r (fst (world_of (sh_memory s) r), snd (world_of (sh_memory s) r))"
  by (rule site_of_world [OF shared_okD(1)])

lemma shared_ok_start: "shared_ok assoc (shared_start n)"
proof (rule shared_okI)
  show "async_world_ok assoc (world_of (sh_memory (shared_start n)))"
    "owns async_world_lent (sh_handles (shared_start n)) (world_of (sh_memory (shared_start n)))"
    by (auto simp: shared_start_def world_of_def async_world_ok_def async_world_lent_def nobody_ok
        intro: owns_nothing)
qed (simp_all add: shared_start_def handle_default_def)

text \<open>An operation of one pool that lends nothing and takes nothing back.\<close>

lemma shared_ok_site:
  assumes ok: "shared_ok assoc s" and r: "alive (sh_memory s) r"
    and x: "site_ok assoc r x" "site_lent x = site_lent (world_of (sh_memory s) r)"
  shows "shared_ok assoc (in_world s ((world_of (sh_memory s))(r := x)))"
proof (rule shared_okI)
  show "async_world_ok assoc (world_of (sh_memory (in_world s ((world_of (sh_memory s))(r := x)))))"
    using async_world_ok_upd [OF shared_okD(1) [OF ok] x(1)] by (simp add: world_of_update [OF r])
  show "owns async_world_lent (sh_handles (in_world s ((world_of (sh_memory s))(r := x))))
      (world_of (sh_memory (in_world s ((world_of (sh_memory s))(r := x)))))"
    using same_world_lent [OF shared_okD(2) [OF ok] x(2)] by (simp add: world_of_update [OF r])
qed (use shared_okD(3-6) [OF ok] in simp_all)

lemma shared_ok_at_site:
  assumes ok: "shared_ok assoc s" and r: "alive (sh_memory s) r"
    and res: "\<exists>p calls. res = Inr (p, calls)
      \<and> site_ok assoc r (p, snd (world_of (sh_memory s) r) @ posted calls)
      \<and> site_lent (p, snd (world_of (sh_memory s) r) @ posted calls)
        = site_lent (fst (world_of (sh_memory s) r), snd (world_of (sh_memory s) r))"
  shows "\<exists>w out. at_site r (world_of (sh_memory s)) res = Inr (w, out) \<and> shared_ok assoc (in_world s w)"
  using res shared_ok_site [OF ok r] by (auto simp: at_site_def)

text \<open>Destroying what nobody refers to.\<close>

lemma held_outside_iff:
  assumes "shared_ok assoc s"
  shows "held_outside s r \<longleftrightarrow>
    (\<exists>i. sh_pools s i = Some r \<or> sh_pointers s i = Some r \<or> pool_impl (sh_handles s i) = Some r)
    \<or> (\<exists>(c, h, d) \<in> set (sh_calls s). ogh_impl h = r)"
  using shared_okD(3-5) [OF assms] unfolding own_defs list_ex_iff by fastforce

lemma reclaim_simps [simp]:
  "sh_vars (reclaim s) = sh_vars s" "sh_pools (reclaim s) = sh_pools s"
  "sh_pointers (reclaim s) = sh_pointers s" "sh_handles (reclaim s) = sh_handles s"
  "sh_calls (reclaim s) = sh_calls s"
  "alive (sh_memory (reclaim s)) r \<longleftrightarrow> alive (sh_memory s) r \<and> referenced s r"
  by (simp_all add: reclaim_def alive_def map_of_filter_key)

lemma world_of_reclaim:
  "world_of (sh_memory (reclaim s)) r = (if referenced s r then world_of (sh_memory s) r else nobody)"
  by (simp add: world_of_def)

lemma referenced_held: "held_outside s r \<Longrightarrow> referenced s r"
  by (simp add: referenced_def)

lemma shared_ok_reclaim:
  assumes ok: "shared_ok assoc s"
  shows "shared_ok assoc (reclaim s)"
proof (rule shared_okI)
  note outside = held_outside_iff [OF ok]
  show "async_world_ok assoc (world_of (sh_memory (reclaim s)))"
    using shared_okD(1) [OF ok] by (simp add: async_world_ok_def world_of_reclaim nobody_ok(1))
  have none: "site_lent (world_of (sh_memory s) r) = {}" if "\<not> referenced s r" for r
  proof -
    have "held (sh_handles s) r = {}"
      using that outside [of r] referenced_held [of s r] by (auto simp: held_def)
    then show ?thesis
      using owns_held [OF shared_okD(2) [OF ok], of r] by (simp add: async_world_lent_def)
  qed
  show "owns async_world_lent (sh_handles (reclaim s)) (world_of (sh_memory (reclaim s)))"
    using owns_same_lent [OF shared_okD(2) [OF ok]] none
    by (simp add: async_world_lent_def world_of_reclaim nobody_ok(2))
  show "\<forall>(c, h, d) \<in> set (sh_calls (reclaim s)). alive (sh_memory (reclaim s)) (ogh_impl h)"
    using shared_okD(6) [OF ok] outside by (fastforce intro: referenced_held)
qed (use shared_okD(3-5) [OF ok] held_outside_iff [OF ok] in \<open>auto intro!: referenced_held\<close>)

subsection \<open>Each operation\<close>

text \<open>The only misuse there is: a member function of a pool variable that has no pool.\<close>

fun uses_empty_pool :: "('c, 'r, 'u, 'v) shared_op \<Rightarrow> ('c, 'x, 'r, 'u, 'v) shared \<Rightarrow> bool" where
  "uses_empty_pool (S_Read i) s \<longleftrightarrow> sh_pools s i = None"
| "uses_empty_pool (S_Invalidate i) s \<longleftrightarrow> sh_pools s i = None"
| "uses_empty_pool (S_Get i c u st d now now') s \<longleftrightarrow> sh_pools s i = None"
| "uses_empty_pool (S_Get_Begin i c u st d now) s \<longleftrightarrow> sh_pools s i = None"
| "uses_empty_pool _ s \<longleftrightarrow> False"

lemma deref_simps [simp]:
  "deref None s = Inl Undefined_Behaviour"
  "alive (sh_memory s) r \<Longrightarrow> deref (Some r) s = Inr r"
  by (simp_all add: deref_def)

lemma shared_ok_allocate:
  fixes s :: "('c, 'x, 'r, 'u, 'v) shared"
  assumes ok: "shared_ok assoc s" and r: "\<not> alive (sh_memory s) r"
  shows "allocate r n k timeout life s = Inl (Throws Zero_Pool_Capacity)
    \<or> (\<exists>x. allocate r n k timeout life s = Inr (s\<lparr>sh_memory := (r, x) # sh_memory s\<rparr>)
        \<and> shared_ok assoc (s\<lparr>sh_memory := (r, x) # sh_memory s\<rparr>))"
proof (cases "async_pool_create n k timeout life :: ('c, 'x, ('r, 'u) on_get_handler, 'v) async_pool result")
  case (Inl f)
  then show ?thesis
    by (auto simp: allocate_def async_pool_construct_def async_pool_create_def async_assert_capacity_def
        split: if_splits)
next
  case (Inr p)
  let ?s = "s\<lparr>sh_memory := (r, (p, [])) # sh_memory s\<rparr>"
  note site = created_site_ok [OF Inr]
  have "shared_ok assoc ?s"
  proof (rule shared_okI)
    show "async_world_ok assoc (world_of (sh_memory ?s))"
      using async_world_ok_upd [OF shared_okD(1) [OF ok] site(1)] by (simp add: world_of_allocated)
    show "owns async_world_lent (sh_handles ?s) (world_of (sh_memory ?s))"
      using same_world_lent [OF shared_okD(2) [OF ok], of "(p, [])" r] site(2)
      by (simp add: world_of_allocated world_of_dead [OF r] nobody_ok(2))
  qed (use shared_okD(3-6) [OF ok] in auto)
  then show ?thesis
    using Inr by (auto simp: allocate_def async_pool_construct_def)
qed

lemma shared_ok_handles:
  assumes ok: "shared_ok assoc s" and w: "async_world_ok assoc w" "owns async_world_lent hs w"
    and frame: "\<And>r. \<not> alive (sh_memory s) r \<Longrightarrow> w r = nobody"
    and hs: "\<And>i r. pool_impl (hs i) = Some r \<Longrightarrow> i < sh_vars s \<and> alive (sh_memory s) r"
  shows "shared_ok assoc ((in_world s w)\<lparr>sh_handles := hs\<rparr>)"
  using w shared_okD(3-6) [OF ok] hs by (intro shared_okI) (simp_all add: world_of_store [OF frame])

lemma shared_handle_effect:
  assumes ok: "shared_ok assoc s" and vars: "\<forall>i \<in> set (handle_op_vars x). i < sh_vars s"
  shows "\<exists>s'. catch_exceptions (shared_effect assoc (S_Handle x) s) s = Inr s' \<and> shared_ok assoc s'"
proof -
  let ?w = "world_of (sh_memory s)" and ?hs = "sh_handles s"
  have step: "handle_step (live_api (alive (sh_memory s))) x ?hs ?w = handle_step async_api x ?hs ?w"
    using shared_okD(5) [OF ok] by (intro live_step) blast
  obtain hs' w' out where res: "catch_exceptions (handle_step async_api x ?hs ?w) (?hs, ?w, []) = Inr (hs', w', out)"
    "async_world_ok assoc w'" "owns async_world_lent hs' w'"
    using async_returns.step_safe [OF shared_okD(1,2) [OF ok]] by metis
  show ?thesis
  proof (cases "handle_step async_api x ?hs ?w")
    case (Inl f)
    with res(1) ok show ?thesis
      by (cases f) (auto simp: step catch_exceptions_def)
  next
    case (Inr y)
    with res(1) have run: "handle_step async_api x ?hs ?w = Inr (hs', w', out)"
      by (simp add: catch_exceptions_def)
    have "w' r = nobody" if dead: "\<not> alive (sh_memory s) r" for r
      using step_world_frame [OF run, of r] shared_okD(5) [OF ok, of _ r] dead
      by (auto simp: world_of_dead)
    moreover have "i < sh_vars s \<and> alive (sh_memory s) r" if "pool_impl (hs' i) = Some r" for i r
      using step_handles_frame [OF run that] shared_okD(5) [OF ok] vars that by metis
    ultimately show ?thesis
      using shared_ok_handles [OF ok res(2,3)] by (simp add: step run catch_exceptions_def)
  qed
qed

text \<open>The handle that a task delivers belongs to the pool of the task.\<close>

lemma delivered_handle:
  assumes ok: "shared_ok assoc s" and k: "k < length (snd (world_of (sh_memory s) r))"
    and d: "handle_destroy async_api now (sh_handles s i) (world_of (sh_memory s)) = Inr (w1, out)"
      "deliver r k w1 = Inr ((u, ec, h), w')"
    and h: "pool_impl h = Some r'"
  shows "r' = r"
proof -
  have "async_world_ok assoc w1"
    using async_returns.destroy_ok [OF shared_okD(1,2) [OF ok], of now i] d(1) by auto
  then have "site_ok assoc r (fst (w1 r), snd (w1 r))"
    by (rule site_of_world)
  then show ?thesis
    by (rule site_run_task [OF _ handle_destroy_keeps_tasks [OF d(1) k]])
      (use d(2) h in \<open>auto simp: deliver_def on_get_call_def handle_default_def split: if_splits\<close>)
qed

lemma shared_run_effect:
  assumes ok: "shared_ok assoc s" and k: "k < length (snd (world_of (sh_memory s) r))" and i: "i < sh_vars s"
  shows "\<exists>s'. shared_effect assoc (S_Run r k i now) s = Inr s' \<and> shared_ok assoc s'"
proof -
  let ?w = "world_of (sh_memory s)" and ?hs = "sh_handles s"
  note w_ok = shared_okD(1,2) [OF ok]
  have live: "handle_destroy (live_api (alive (sh_memory s))) now (?hs i) ?w = handle_destroy async_api now (?hs i) ?w"
    using shared_okD(5) [OF ok] by (intro live_release) blast
  have r: "alive (sh_memory s) r"
    using k by (rule contrapos_pp) (simp add: world_of_dead nobody_def)
  obtain ds hs' w' where run: "async_client_step assoc (A_Run r k i now) ?hs ?w = Inr (ds, hs', w')"
    "async_world_ok assoc w'" "owns async_world_lent hs' w'"
    using client_run_task_ok [OF w_ok k, of i now] by (auto simp: client_step_ok_def)
  then obtain w1 out u ec h where d: "handle_destroy async_api now (?hs i) ?w = Inr (w1, out)"
    "deliver r k w1 = Inr ((u, ec, h), w')" "hs' = ?hs(i := h)"
    using k by (auto simp: and_then_Inr_iff)
  have w': "w' r' = w1 r'" if "r' \<noteq> r" for r'
    using d(2) that by (auto simp: deliver_def and_then_Inr_iff)
  have "w' r' = nobody" if dead: "\<not> alive (sh_memory s) r'" for r'
  proof -
    have "r' \<noteq> r" "pool_impl (?hs i) \<noteq> Some r'"
      using r dead shared_okD(5) [OF ok] by blast+
    then show ?thesis
      using destroy_frame [OF d(1)] w' dead by (simp add: world_of_dead)
  qed
  then have "shared_ok assoc ((in_world s w')\<lparr>sh_handles := hs'\<rparr>)"
    using shared_okD(5) [OF ok] r i delivered_handle [OF ok k d(1,2)]
    by (intro shared_ok_handles [OF ok run(2,3)]) (auto simp: d(3) split: if_splits)
  then show ?thesis
    using d by (simp add: live)
qed

text \<open>The operations that work on one implementation and touch no variable but pools and calls.\<close>

definition effect_ok ::
  "('u \<Rightarrow> 'x) \<Rightarrow> ('c, 'x, 'r, 'u, 'v) shared result \<Rightarrow> ('c, 'x, 'r, 'u, 'v) shared \<Rightarrow> bool" where
  "effect_ok assoc res s \<longleftrightarrow> (\<exists>s'. catch_exceptions res s = Inr s' \<and> shared_ok assoc s')"

lemma effect_okI: "res = Inr s' \<Longrightarrow> shared_ok assoc s' \<Longrightarrow> effect_ok assoc res s"
  by (simp add: effect_ok_def catch_exceptions_def)

lemma shared_ok_vars:
  assumes "shared_ok assoc s"
    and "\<And>i r. ps i = Some r \<Longrightarrow> i < sh_vars s \<and> alive (sh_memory s) r"
    and "\<And>i r. qs i = Some r \<Longrightarrow> i < sh_vars s \<and> alive (sh_memory s) r"
  shows "shared_ok assoc (s\<lparr>sh_pools := ps, sh_pointers := qs\<rparr>)"
  using shared_okD [OF assms(1)] assms(2,3) by (intro shared_okI) simp_all

lemma shared_ok_pools:
  "shared_ok assoc s \<Longrightarrow> (\<And>i r. ps i = Some r \<Longrightarrow> i < sh_vars s \<and> alive (sh_memory s) r) \<Longrightarrow>
   shared_ok assoc (s\<lparr>sh_pools := ps\<rparr>)"
  using shared_ok_vars [of assoc s ps "sh_pointers s"] shared_okD(4) [of assoc s] by simp

lemma shared_ok_calls:
  "shared_ok assoc s \<Longrightarrow> \<forall>(c, h, d) \<in> set cs. alive (sh_memory s) (ogh_impl h) \<Longrightarrow>
   shared_ok assoc (s\<lparr>sh_calls := cs\<rparr>)"
  by (simp add: shared_ok_def)

lemma shared_get_begin:
  assumes ok: "shared_ok assoc s" and r: "sh_pools s i = Some r"
  shows "effect_ok assoc (shared_effect assoc (S_Get_Begin i c u st d now) s) s"
proof -
  let ?w = "world_of (sh_memory s)" and ?h = "make_on_get_handler r st u"
  have live: "alive (sh_memory s) r" and impl: "ogh_impl ?h = r"
    using shared_okD(3) [OF ok r] by (simp_all add: make_on_get_handler_def)
  note here = shared_ok_site [OF ok live]
  from shared_site [OF ok, of r] impl show ?thesis
  proof (cases rule: site_get_locked [where c = c and d = d and now = now])
    case (answered p' calls)
    with live here [OF answered(2)] show ?thesis
      by (intro effect_okI) (simp_all add: r Let_def)
  next
    case queued
    have "shared_ok assoc (in_world s (?w(r := (fst (?w r), snd (?w r)))))"
      using shared_site [OF ok, of r] by (intro here) simp_all
    then have "shared_ok assoc ((in_world s (?w(r := (fst (?w r), snd (?w r)))))
        \<lparr>sh_calls := sh_calls s @ [(c, ?h, d)]\<rparr>)"
      using shared_okD(6) [OF ok] live by (intro shared_ok_calls) (auto simp: make_on_get_handler_def)
    with live queued show ?thesis
      by (intro effect_okI) (simp_all add: r Let_def)
  qed
qed

lemma shared_get_push:
  assumes ok: "shared_ok assoc s" and k: "k < length (sh_calls s)"
  shows "effect_ok assoc (shared_effect assoc (S_Get_Push k now) s) s"
proof -
  obtain c h d where call: "sh_calls s ! k = (c, h, d)" by (cases "sh_calls s ! k")
  then have live: "alive (sh_memory s) (ogh_impl h)"
    using shared_okD(6) [OF ok] nth_mem [OF k] by fastforce
  let ?res = "async_get_push (on_get_executor assoc) c h d now (fst (world_of (sh_memory s) (ogh_impl h)))"
  have "\<exists>p calls. ?res = Inr (p, calls)
      \<and> site_ok assoc (ogh_impl h) (p, snd (world_of (sh_memory s) (ogh_impl h)) @ posted calls)
      \<and> site_lent (p, snd (world_of (sh_memory s) (ogh_impl h)) @ posted calls)
        = site_lent (fst (world_of (sh_memory s) (ogh_impl h)), snd (world_of (sh_memory s) (ogh_impl h)))"
    using site_get_push [OF shared_site [OF ok] refl, of c h d now] by auto
  from shared_ok_at_site [OF ok live this] obtain w out where w:
    "at_site (ogh_impl h) (world_of (sh_memory s)) ?res = Inr (w, out)" "shared_ok assoc (in_world s w)"
    by blast
  have "\<forall>(c, h, d) \<in> set (remove_nth k (sh_calls s)). alive (sh_memory (in_world s w)) (ogh_impl h)"
    using shared_okD(6) [OF ok] set_remove_nth [of k "sh_calls s"] by auto
  then show ?thesis
    using w live by (intro effect_okI [OF _ shared_ok_calls [OF w(2)]]) (simp_all add: call)
qed

lemma shared_effect_ok:
  assumes ok: "shared_ok assoc s" and vars: "list_all (\<lambda>i. i < sh_vars s) (shared_op_vars x)"
    and can: "can_happen x s" and used: "\<not> uses_empty_pool x s"
  shows "effect_ok assoc (shared_effect assoc x s) s"
proof (cases x)
  case (S_Construct i r n k timeout life)
  with can vars have r: "\<not> alive (sh_memory s) r" "i < sh_vars s" by simp_all
  from shared_ok_allocate [OF ok r(1), of n k timeout life] show ?thesis
  proof (elim disjE exE conjE)
    fix y
    let ?s = "s\<lparr>sh_memory := (r, y) # sh_memory s\<rparr>"
    assume a: "allocate r n k timeout life s = Inr ?s" "shared_ok assoc ?s"
    have "shared_ok assoc (?s\<lparr>sh_pools := (sh_pools s)(i := Some r)\<rparr>)"
      using shared_okD(3) [OF ok] r(2) by (intro shared_ok_pools [OF a(2)]) (auto split: if_splits)
    then show ?thesis
      using a(1) by (intro effect_okI) (simp_all add: S_Construct)
  qed (use ok in \<open>simp add: S_Construct effect_ok_def catch_exceptions_def\<close>)
next
  case (S_Make_Shared i r n k timeout life)
  with can vars have r: "\<not> alive (sh_memory s) r" "i < sh_vars s" by simp_all
  from shared_ok_allocate [OF ok r(1), of n k timeout life] show ?thesis
  proof (elim disjE exE conjE)
    fix y
    let ?s = "s\<lparr>sh_memory := (r, y) # sh_memory s\<rparr>"
    assume a: "allocate r n k timeout life s = Inr ?s" "shared_ok assoc ?s"
    have "shared_ok assoc (?s\<lparr>sh_pools := sh_pools s, sh_pointers := (sh_pointers s)(i := Some r)\<rparr>)"
      using shared_okD(3,4) [OF ok] r(2) by (intro shared_ok_vars [OF a(2)]) (auto split: if_splits)
    then show ?thesis
      using a(1) by (intro effect_okI) (simp_all add: S_Make_Shared)
  qed (use ok in \<open>simp add: S_Make_Shared effect_ok_def catch_exceptions_def\<close>)
next
  case (S_Adopt i j)
  with vars have "i < sh_vars s" by simp
  then show ?thesis
    using shared_okD(3,4) [OF ok] unfolding S_Adopt shared_effect.simps
    by (intro effect_okI [OF refl] shared_ok_pools [OF ok]) (auto simp: pool_adopt_def split: if_splits)
next
  case (S_Drop_Pointer i)
  have "shared_ok assoc (s\<lparr>sh_pools := sh_pools s, sh_pointers := (sh_pointers s)(i := None)\<rparr>)"
    using shared_okD(3,4) [OF ok] by (intro shared_ok_vars [OF ok]) (auto split: if_splits)
  then show ?thesis
    by (intro effect_okI) (simp_all add: S_Drop_Pointer)
next
  case (S_Move_Construct i j)
  with vars have "i < sh_vars s" by simp
  then show ?thesis
    using shared_okD(3) [OF ok] unfolding S_Move_Construct shared_effect.simps pool_move_construct_def prod.case
    by (intro effect_okI [OF refl] shared_ok_pools [OF ok]) (auto split: if_splits)
next
  case (S_Move_Assign i j)
  with vars have "i < sh_vars s" by simp
  then show ?thesis
    using shared_okD(3) [OF ok] unfolding S_Move_Assign shared_effect.simps
    by (intro effect_okI [OF refl] shared_ok_pools [OF ok]) (auto simp: pool_move_assign_def split: if_splits)
next
  case (S_Destroy i)
  show ?thesis
  proof (cases "sh_pools s i")
    case None
    with ok show ?thesis
      by (intro effect_okI [of _ s]) (simp_all add: S_Destroy)
  next
    case (Some r)
    then have live: "alive (sh_memory s) r"
      using shared_okD(3) [OF ok] by blast
    obtain w out where w: "at_site r (world_of (sh_memory s)) (async_disable (fst (world_of (sh_memory s) r))) = Inr (w, out)"
      "shared_ok assoc (in_world s w)"
      using shared_ok_at_site [OF ok live site_disable [OF shared_site [OF ok]]] by blast
    have "shared_ok assoc ((in_world s w)\<lparr>sh_pools := (sh_pools s)(i := None)\<rparr>)"
      using shared_okD(3) [OF w(2)] by (intro shared_ok_pools [OF w(2)]) (auto split: if_splits)
    then show ?thesis
      using w(1) live by (intro effect_okI) (simp_all add: S_Destroy Some async_pool_destroy_def)
  qed
next
  case (S_Read i)
  with used obtain r where r: "sh_pools s i = Some r" by auto
  then show ?thesis
    using shared_okD(3) [OF ok r] ok by (intro effect_okI [of _ s]) (simp_all add: S_Read)
next
  case (S_Invalidate i)
  with used obtain r where r: "sh_pools s i = Some r" by auto
  then have live: "alive (sh_memory s) r"
    using shared_okD(3) [OF ok] by blast
  show ?thesis
    using shared_ok_site [OF ok live site_invalidate(1) [OF shared_site [OF ok]]]
      site_invalidate(2) [OF shared_site [OF ok, of r]] live
    by (intro effect_okI) (simp_all add: S_Invalidate r async_pool_invalidate_def)
next
  case (S_Get i c u st d now now')
  with used obtain r where r: "sh_pools s i = Some r" by auto
  then have live: "alive (sh_memory s) r"
    using shared_okD(3) [OF ok] by blast
  obtain w out where "async_pool_get assoc r c u st d now now' (world_of (sh_memory s)) = Inr (w, out)"
    "shared_ok assoc (in_world s w)"
    using shared_ok_at_site [OF ok live site_get [OF shared_site [OF ok]]]
    unfolding async_pool_get_def by blast
  then show ?thesis
    using live by (intro effect_okI) (simp_all add: S_Get r)
next
  case (S_Get_Begin i c u st d now)
  with used obtain r where "sh_pools s i = Some r" by auto
  then show ?thesis
    unfolding S_Get_Begin by (rule shared_get_begin [OF ok])
next
  case (S_Get_Push k now)
  with can show ?thesis
    by (simp add: shared_get_push [OF ok] del: shared_effect.simps)
next
  case (S_Run r k i now)
  with can vars have "k < length (snd (world_of (sh_memory s) r))" "i < sh_vars s" by simp_all
  from shared_run_effect [OF ok this, of now] show ?thesis
    unfolding S_Run by (auto intro: effect_okI)
next
  case (S_Handle y)
  with vars have "\<forall>i \<in> set (handle_op_vars y). i < sh_vars s"
    by (simp add: list_all_iff)
  from shared_handle_effect [OF ok this] show ?thesis
    by (simp add: S_Handle effect_ok_def)
next
  case (S_Wait_Done r ec t)
  show ?thesis
  proof (cases "alive (sh_memory s) r")
    case live: True
    obtain w out where "at_site r (world_of (sh_memory s)) (async_wait_done ec t (fst (world_of (sh_memory s) r))) = Inr (w, out)"
      "shared_ok assoc (in_world s w)"
      using shared_ok_at_site [OF ok live site_wait_done [OF shared_site [OF ok]]] by blast
    then show ?thesis
      using live by (intro effect_okI) (simp_all add: S_Wait_Done)
  next
    case False
    with ok show ?thesis
      by (intro effect_okI [of _ s]) (simp_all add: S_Wait_Done)
  qed
qed

lemma empty_pool_undefined:
  "uses_empty_pool x s \<Longrightarrow> shared_effect assoc x s = Inl Undefined_Behaviour"
  by (cases x) simp_all

subsection \<open>Two programs\<close>

text \<open>Two pools of one cell. A cell is given back between the halves of a call of \<open>get\<close>, whose request then
  waits beside the free cell, and the pool is replaced by the other one.\<close>

definition demo_leak :: "(string, bool, nat, nat) shared_op list" where
  "demo_leak =
     (let t = Time_Point 5; d = duration_max in
      [S_Construct 0 True 1 1 d d, S_Construct 1 False 1 1 d d,
       S_Get 0 ''io'' 7 Strategy_Recycle d t t, S_Run True 0 0 t,
       S_Get_Begin 0 ''io'' 8 Strategy_Recycle d t, S_Handle (H_Destroy t 0), S_Get_Push 0 t,
       S_Move_Assign 0 1])"

declare demo_leak_def [exec]

definition demo_end :: "(string, bool, nat, nat) shared_op list" where
  "demo_end = [S_Destroy 0, S_Destroy 1, S_Wait_Done True (make_error_code Get_Resource_Timeout) epoch]"

text \<open>A pool is replaced while a request waits in it, which gets the cell that is given back later.\<close>

definition demo_tidy :: "(string, bool, nat, nat) shared_op list" where
  "demo_tidy =
     (let t = Time_Point 5; d = duration_max in
      [S_Construct 0 True 1 1 d d, S_Construct 1 False 1 1 d d,
       S_Get 0 ''io'' 7 Strategy_Recycle d t t, S_Run True 0 0 t, S_Get 0 ''io'' 8 Strategy_Waste d t t,
       S_Move_Assign 0 1, S_Handle (H_Destroy t 0), S_Run True 0 0 t, S_Handle (H_Destroy t 0),
       S_Destroy 0])"

declare demo_tidy_def [exec]

lemma run_outcome:
  "(case res of Some (Inr s) \<Rightarrow> P s | _ \<Rightarrow> False) \<Longrightarrow> \<exists>s. res = Some (Inr s) \<and> P s"
  by (auto split: option.splits sum.splits)

end
