(* ===== verification/Shared_Lifetimes.thy ===== *)
theory Shared_Lifetimes
  imports Shared_Safety
begin

text \<open>
  What clients can rely on concerning the lifetime of the implementations that pools, handles and
  handlers share, and what a reference cycle does to a pool that was replaced.
\<close>

subsection \<open>Runs\<close>

definition tidy :: "('c, 'x, 'r, 'u, 'v) shared \<Rightarrow> bool" where
  "tidy s \<longleftrightarrow> (\<forall>r. alive (sh_memory s) r \<longrightarrow> referenced s r)"

lemma tidy_reclaim: "tidy (reclaim s)"
  by (auto simp: tidy_def referenced_def own_defs)

lemma shared_step_cases:
  assumes ok: "shared_ok assoc s" and step: "shared_step assoc x s = Some res"
  obtains
    (misused) "uses_empty_pool x s" "res = Inl Undefined_Behaviour"
  | (returns) s' where "\<not> uses_empty_pool x s" "catch_exceptions (shared_effect assoc x s) s = Inr s'"
      "shared_ok assoc s'" "res = Inr (reclaim s')"
proof -
  have can: "list_all (\<lambda>i. i < sh_vars s) (shared_op_vars x)" "can_happen x s"
    and res: "res = and_then (catch_exceptions (shared_effect assoc x s) s) (\<lambda>s'. Inr (reclaim s'))"
    using step by (auto simp: shared_step_def split: if_splits)
  show thesis
  proof (cases "uses_empty_pool x s")
    case True
    then show thesis
      using res by (intro misused) (simp_all add: empty_pool_undefined catch_exceptions_def)
  next
    case False
    then show thesis
      using shared_effect_ok [OF ok can False] res by (auto simp: effect_ok_def intro: returns)
  qed
qed

lemma effect_vars:
  assumes "shared_effect assoc x s = Inr s'"
  shows "sh_vars s' = sh_vars s"
proof (cases x)
  case (S_Get_Begin i c u st d now)
  with assms obtain r where r: "deref (sh_pools s i) s = Inr r"
    by (auto simp: and_then_Inr_iff)
  obtain p a where "async_get_locked c (make_on_get_handler r st u) d now (fst (world_of (sh_memory s) r)) = (p, a)"
    by fastforce
  with assms r show ?thesis
    by (cases a) (auto simp: S_Get_Begin Let_def)
qed (use assms in \<open>auto simp: and_then_Inr_iff allocate_def pool_move_construct_def
    split: if_splits prod.splits option.splits\<close>)

lemma catch_vars: "catch_exceptions (shared_effect assoc x s) s = Inr s' \<Longrightarrow> sh_vars s' = sh_vars s"
  using effect_vars [of assoc x s]
  by (auto simp: catch_exceptions_def split: sum.splits fault.splits)

lemma run_vars: "shared_run assoc xs s = Some (Inr s') \<Longrightarrow> sh_vars s' = sh_vars s"
proof (induction xs arbitrary: s)
  case (Cons x xs)
  then obtain s1 where s1: "shared_step assoc x s = Some (Inr s1)" "sh_vars s' = sh_vars s1"
    by (auto split: option.splits sum.splits)
  from s1(1) obtain s2 where "catch_exceptions (shared_effect assoc x s) s = Inr s2" "s1 = reclaim s2"
    by (auto simp: shared_step_def and_then_Inr_iff split: if_splits)
  with s1(2) catch_vars show ?case by simp
qed simp

lemma shared_run_ok:
  "shared_ok assoc s \<Longrightarrow> tidy s \<Longrightarrow> shared_run assoc xs s = Some (Inr s') \<Longrightarrow> shared_ok assoc s' \<and> tidy s'"
proof (induction xs arbitrary: s)
  case (Cons x xs)
  then obtain s1 where "shared_step assoc x s = Some (Inr s1)" "shared_run assoc xs s1 = Some (Inr s')"
    by (auto split: option.splits sum.splits)
  with Cons show ?case
    using tidy_reclaim shared_ok_reclaim by (metis shared_step_cases sum.distinct(1) sum.inject(2))
qed simp

lemma tidy_start: "tidy (shared_start n)"
  by (simp add: tidy_def shared_start_def alive_def)

lemmas shared_reachable_ok = shared_run_ok [OF shared_ok_start tidy_start]

text \<open>The handlers of a pool refer to that pool.\<close>

lemma site_refers:
  assumes "site_ok assoc r x" and "h \<in> set (site_handlers x)"
  shows "ogh_impl h = r"
  using assms
  by (fastforce simp: site_ok_def site_handlers_def waiting_handlers_def task_handlers_def)

lemma referenced_iff:
  assumes "shared_ok assoc s"
  shows "referenced s r \<longleftrightarrow> held_outside s r \<or> site_handlers (world_of (sh_memory s) r) \<noteq> []"
proof -
  have "handlers_own (site_handlers x) r \<longleftrightarrow> site_handlers x \<noteq> []"
    if "map_of (sh_memory s) r = Some x" for x
    using site_refers [of assoc r x] shared_site [OF assms, of r] that
    by (cases "site_handlers x") (auto simp: handlers_own_def world_of_def)
  moreover have "site_handlers nobody = []"
    by (simp add: site_handlers_def nobody_def waiting_handlers_def task_handlers_def)
  ultimately show ?thesis
    by (auto simp: referenced_def world_of_def split: option.splits)
qed

lemma referenced_alive: "shared_ok assoc s \<Longrightarrow> referenced s r \<Longrightarrow> alive (sh_memory s) r"
  using held_outside_iff [of assoc s r] shared_okD(3-6) [of assoc s]
  by (fastforce simp: referenced_def alive_def split: option.splits)

subsection \<open>Safety\<close>

text \<open>
  C4. Whatever a program does with pools that it constructs, adopts, moves, replaces and destroys, with
  handles, calls of \<open>get\<close>, tasks and timers, in any order: no operation ever uses an implementation that
  was destroyed. The only undefined behaviour is to call a member of a pool variable that has no pool.
  Every exception is caught, and after each operation exactly the implementations that something refers
  to exist.
\<close>

theorem implementations_outlive_uses:
  assumes "shared_run assoc xs (shared_start n) = Some (Inr s)"
    and "shared_step assoc x s = Some res"
  shows "(res = Inl Undefined_Behaviour \<longleftrightarrow> uses_empty_pool x s)
    \<and> (\<not> uses_empty_pool x s \<longrightarrow>
         (\<exists>s'. res = Inr s' \<and> (\<forall>r. alive (sh_memory s') r \<longleftrightarrow> referenced s' r)))"
proof -
  note ok = shared_reachable_ok [OF assms(1)]
  from conjunct1 [OF ok] assms(2) show ?thesis
  proof (cases rule: shared_step_cases)
    case (returns s')
    have "shared_ok assoc (reclaim s')"
      by (rule shared_ok_reclaim [OF returns(3)])
    then have "alive (sh_memory (reclaim s')) r \<longleftrightarrow> referenced (reclaim s') r" for r
      using tidy_reclaim [of s'] referenced_alive [of assoc "reclaim s'" r] by (auto simp: tidy_def simp del: reclaim_simps)
    then show ?thesis
      unfolding returns(4) using returns(1) by simp
  qed simp
qed

theorem implementations_outlive_uses_witness:
  "\<exists>s s'. shared_run demo_executor demo_leak (shared_start 2) = Some (Inr s)
    \<and> shared_step demo_executor (S_Read 1) s = Some (Inl Undefined_Behaviour)
    \<and> shared_step demo_executor (S_Destroy 0) s = Some (Inr s')
    \<and> (\<forall>r. alive (sh_memory s') r \<longleftrightarrow> referenced s' r)"
proof -
  have "case shared_run demo_executor demo_leak (shared_start 2) of
      Some (Inr s) \<Rightarrow> uses_empty_pool (S_Read 1) s
        \<and> (case shared_step demo_executor (S_Read 1) s of None \<Rightarrow> False | Some res \<Rightarrow> True)
        \<and> (case shared_step demo_executor (S_Destroy 0) s of None \<Rightarrow> False | Some res \<Rightarrow> True)
    | _ \<Rightarrow> False"
    by code_simp
  from run_outcome [OF this] obtain s res res' where s: "shared_run demo_executor demo_leak (shared_start 2) = Some (Inr s)"
    "uses_empty_pool (S_Read 1) s" "shared_step demo_executor (S_Read 1) s = Some res"
    "shared_step demo_executor (S_Destroy 0) s = Some res'"
    by (auto split: option.splits)
  have "res = Inl Undefined_Behaviour"
    using implementations_outlive_uses [OF s(1,3)] s(2) by blast
  moreover have "\<exists>s'. res' = Inr s' \<and> (\<forall>r. alive (sh_memory s') r \<longleftrightarrow> referenced s' r)"
    using implementations_outlive_uses [OF s(1,4)] by simp
  ultimately show ?thesis
    using s by blast
qed

lemma unreferenced_at_rest:
  assumes ok: "shared_ok assoc s" and none: "\<not> referenced s r" and r: "map_of (sh_memory s) r = Some (p, ts)"
  shows "ts = [] \<and> waiting p = [] \<and> used_cells (ap_storage p) = []"
proof -
  have site: "world_of (sh_memory s) r = (p, ts)"
    by (simp add: world_of_def r)
  then have rest: "ts = [] \<and> waiting p = []"
    using none referenced_iff [OF ok, of r]
    by (simp add: site_handlers_def waiting_handlers_def task_handlers_def)
  have "held (sh_handles s) r = {}"
    using none held_outside_iff [OF ok, of r] referenced_held [of s r] by (auto simp: held_def)
  then have "set (used_cells (ap_storage p)) = {}"
    using owns_held [OF shared_okD(2) [OF ok], of r] rest site
    by (simp add: async_world_lent_def site_lent_def async_lent_def)
  with rest show ?thesis by simp
qed

text \<open>
  C19. An implementation is destroyed at rest: when the last reference to it goes, no request waits in
  it, no task of it is on its way and no cell of it is in use.
\<close>

theorem implementation_destroyed_at_rest:
  assumes "shared_run assoc xs (shared_start n) = Some (Inr s)"
    and "shared_step assoc x s = Some (Inr s'')"
    and "catch_exceptions (shared_effect assoc x s) s = Inr s'"
    and "map_of (sh_memory s') r = Some (p, ts)" and "\<not> alive (sh_memory s'') r"
  shows "ts = [] \<and> waiting p = [] \<and> used_cells (ap_storage p) = []"
proof -
  from conjunct1 [OF shared_reachable_ok [OF assms(1)]] assms(2) show ?thesis
  proof (cases rule: shared_step_cases)
    case (returns \<tau>)
    then have "s'' = reclaim s'" "shared_ok assoc s'"
      using assms(3) by simp_all
    moreover have "alive (sh_memory s') r"
      by (simp add: alive_def assms(4))
    then have "\<not> referenced s' r"
      using assms(5) \<open>s'' = reclaim s'\<close> by simp
    ultimately show ?thesis
      using assms(4) by (intro unreferenced_at_rest)
  qed simp
qed

theorem implementation_destroyed_at_rest_witness:
  "\<exists>s s' s'' p ts. shared_run demo_executor (take 8 demo_tidy) (shared_start 2) = Some (Inr s)
    \<and> shared_step demo_executor (S_Handle (H_Destroy epoch 0)) s = Some (Inr s'')
    \<and> catch_exceptions (shared_effect demo_executor (S_Handle (H_Destroy epoch 0)) s) s = Inr s'
    \<and> map_of (sh_memory s') True = Some (p, ts) \<and> \<not> alive (sh_memory s'') True
    \<and> ts = [] \<and> waiting p = [] \<and> used_cells (ap_storage p) = []"
proof -
  let ?x = "S_Handle (H_Destroy epoch 0)"
  have "case shared_run demo_executor (take 8 demo_tidy) (shared_start 2) of
      Some (Inr s) \<Rightarrow>
        (case shared_step demo_executor ?x s of
           Some (Inr s'') \<Rightarrow> \<not> alive (sh_memory s'') True
             \<and> (case catch_exceptions (shared_effect demo_executor ?x s) s of
                   Inr s' \<Rightarrow> alive (sh_memory s') True | Inl f \<Rightarrow> False)
         | _ \<Rightarrow> False)
    | _ \<Rightarrow> False"
    by code_simp
  from run_outcome [OF this] obtain s where s: "shared_run demo_executor (take 8 demo_tidy) (shared_start 2) = Some (Inr s)"
    "case shared_step demo_executor ?x s of
       Some (Inr s'') \<Rightarrow> \<not> alive (sh_memory s'') True
         \<and> (case catch_exceptions (shared_effect demo_executor ?x s) s of
               Inr s' \<Rightarrow> alive (sh_memory s') True | Inl f \<Rightarrow> False)
     | _ \<Rightarrow> False"
    by blast
  from run_outcome [OF s(2)] obtain s'' where s'': "shared_step demo_executor ?x s = Some (Inr s'')"
    "\<not> alive (sh_memory s'') True"
    "case catch_exceptions (shared_effect demo_executor ?x s) s of
       Inr s' \<Rightarrow> alive (sh_memory s') True | Inl f \<Rightarrow> False"
    by blast
  obtain s' where s': "catch_exceptions (shared_effect demo_executor ?x s) s = Inr s'" "alive (sh_memory s') True"
    using s''(3) by (cases "catch_exceptions (shared_effect demo_executor ?x s) s") (simp_all del: shared_effect.simps)
  then obtain p ts where p: "map_of (sh_memory s') True = Some (p, ts)"
    by (auto simp: alive_def)
  show ?thesis
    using implementation_destroyed_at_rest [OF s(1) s''(1) s'(1) p s''(2)] s(1) s''(1,2) s'(1) p by blast
qed

subsection \<open>Abandoned pools\<close>

text \<open>
  An implementation that only its own waiting requests refer to: each of them owns its handler, and the
  handler a shared pointer to the implementation that owns the queue.
\<close>

definition abandoned :: "('c, 'x, 'r, 'u, 'v) shared \<Rightarrow> 'r \<Rightarrow> bool" where
  "abandoned s r \<longleftrightarrow>
     alive (sh_memory s) r \<and> \<not> held_outside s r \<and> snd (world_of (sh_memory s) r) = []"

fun expires :: "'r \<Rightarrow> ('c, 'r, 'u, 'v) shared_op \<Rightarrow> bool" where
  "expires r (S_Wait_Done r' ec t) \<longleftrightarrow> r' = r \<and> \<not> failed ec"
| "expires r _ \<longleftrightarrow> False"

text \<open>No reference to \<open>r\<close> outside, in terms of variables.\<close>

definition nowhere :: "('c, 'x, 'r, 'u, 'v) shared \<Rightarrow> 'r \<Rightarrow> bool" where
  "nowhere s r \<longleftrightarrow>
     (\<forall>i. sh_pools s i \<noteq> Some r) \<and> (\<forall>i. sh_pointers s i \<noteq> Some r)
     \<and> (\<forall>i. pool_impl (sh_handles s i) \<noteq> Some r) \<and> (\<forall>x \<in> set (sh_calls s). ogh_impl (fst (snd x)) \<noteq> r)"

lemma held_outside_nowhere: "shared_ok assoc s \<Longrightarrow> \<not> held_outside s r \<longleftrightarrow> nowhere s r"
  by (simp add: held_outside_iff nowhere_def case_prod_unfold) blast

definition untouched :: "'r \<Rightarrow> ('c, 'x, 'r, 'u, 'v) shared \<Rightarrow> ('c, 'x, 'r, 'u, 'v) shared \<Rightarrow> bool" where
  "untouched r s s' \<longleftrightarrow> map_of (sh_memory s') r = map_of (sh_memory s) r \<and> nowhere s' r"

lemma memory_in_world: "w r = world_of m r \<Longrightarrow> map_option (\<lambda>x. w r) (map_of m r) = map_of m r"
  by (cases "map_of m r") (simp_all add: world_of_def)

lemma at_site_frame: "at_site r w res = Inr (w', out) \<Longrightarrow> r' \<noteq> r \<Longrightarrow> w' r' = w r'"
  by (auto simp: at_site_def and_then_Inr_iff)

lemma pool_site_frame:
  "nowhere s r \<Longrightarrow> sh_pools s i = Some r' \<Longrightarrow> at_site r' w res = Inr (w', out) \<Longrightarrow> w' r = w r"
  by (rule at_site_frame) (auto simp: nowhere_def)

lemma wait_failed: "failed ec \<Longrightarrow> async_wait_done ec t p = Inr (p, [])"
  by (simp add: async_wait_done_def rq_cancel_def queue_calls_def)

lemma effect_untouched:
  assumes ok: "shared_ok assoc s" and r: "abandoned s r" and can: "can_happen x s"
    and quiet: "\<not> expires r x" and run: "shared_effect assoc x s = Inr s'"
  shows "untouched r s s'"
proof -
  have live: "alive (sh_memory s) r" and none: "nowhere s r" and ts: "snd (world_of (sh_memory s) r) = []"
    using r held_outside_nowhere [OF ok] by (auto simp: abandoned_def)
  note none' = none [unfolded nowhere_def]
  show ?thesis
  proof (cases x)
    case (S_Construct i r' n k timeout life)
    with can live have "r' \<noteq> r" by auto
    with S_Construct run none' show ?thesis
      by (auto simp: untouched_def nowhere_def allocate_def and_then_Inr_iff split: if_splits)
  next
    case (S_Make_Shared i r' n k timeout life)
    with can live have "r' \<noteq> r" by auto
    with S_Make_Shared run none' show ?thesis
      by (auto simp: untouched_def nowhere_def allocate_def and_then_Inr_iff split: if_splits)
  next
    case (S_Destroy i)
    with run none' show ?thesis
      by (auto simp: untouched_def nowhere_def deref_def async_pool_destroy_def and_then_Inr_iff
          intro!: memory_in_world intro: pool_site_frame [OF none] split: if_splits option.splits)
  next
    case (S_Get i c u st d now now')
    with run none' show ?thesis
      by (auto simp: untouched_def nowhere_def deref_def async_pool_get_def and_then_Inr_iff
          intro!: memory_in_world intro: pool_site_frame [OF none] split: if_splits option.splits)
  next
    case (S_Get_Begin i c u st d now)
    with run obtain r' where r': "sh_pools s i = Some r'"
      by (auto simp: deref_def and_then_Inr_iff split: option.splits)
    with none' have "r' \<noteq> r" by auto
    with S_Get_Begin run none' r' show ?thesis
      by (auto simp: untouched_def nowhere_def deref_def and_then_Inr_iff Let_def make_on_get_handler_def
          intro!: memory_in_world split: if_splits prod.splits option.splits)
  next
    case (S_Get_Push k now)
    obtain c h d where call: "sh_calls s ! k = (c, h, d)" by (cases "sh_calls s ! k")
    have "(c, h, d) \<in> set (sh_calls s)"
      using can call nth_mem [of k "sh_calls s"] by (simp add: S_Get_Push)
    with none' have "ogh_impl h \<noteq> r" by auto
    with S_Get_Push run none' call show ?thesis
      using set_remove_nth [of k "sh_calls s"]
      by (auto simp: untouched_def nowhere_def deref_def and_then_Inr_iff
          intro!: memory_in_world intro: at_site_frame split: if_splits)
  next
    case (S_Run r' k i now)
    let ?w = "world_of (sh_memory s)"
    have k: "k < length (snd (?w r'))" and "r' \<noteq> r"
      using can ts by (auto simp: S_Run)
    have "handle_destroy (live_api (alive (sh_memory s))) now (sh_handles s i) ?w
        = handle_destroy async_api now (sh_handles s i) ?w"
      using shared_okD(5) [OF ok] by (intro live_release) blast
    with run obtain w1 out u ec h w' where d: "handle_destroy async_api now (sh_handles s i) ?w = Inr (w1, out)"
      "deliver r' k w1 = Inr ((u, ec, h), w')" "s' = (in_world s w')\<lparr>sh_handles := (sh_handles s)(i := h)\<rparr>"
      by (auto simp: S_Run and_then_Inr_iff)
    have "w' r = w1 r"
      using d(2) \<open>r' \<noteq> r\<close> by (auto simp: deliver_def and_then_Inr_iff)
    also have "w1 r = ?w r"
      using none' by (intro destroy_frame [OF d(1)]) blast
    finally have "map_of (sh_memory s') r = map_of (sh_memory s) r"
      by (simp add: d(3) memory_in_world)
    moreover have "pool_impl h \<noteq> Some r"
      using delivered_handle [OF ok k d(1,2)] \<open>r' \<noteq> r\<close> by blast
    ultimately show ?thesis
      using none' by (auto simp: untouched_def nowhere_def d(3))
  next
    case (S_Handle y)
    let ?w = "world_of (sh_memory s)"
    have "handle_step (live_api (alive (sh_memory s))) y (sh_handles s) ?w = handle_step async_api y (sh_handles s) ?w"
      using shared_okD(5) [OF ok] by (intro live_step) blast
    with run obtain hs w out where step: "handle_step async_api y (sh_handles s) ?w = Inr (hs, w, out)"
      "s' = (in_world s w)\<lparr>sh_handles := hs\<rparr>"
      by (auto simp: S_Handle and_then_Inr_iff)
    have "w r = ?w r"
      using none' by (intro step_world_frame [OF step(1)]) blast
    moreover have "pool_impl (hs i) \<noteq> Some r" for i
      using step_handles_frame [OF step(1), of i r] none' by blast
    ultimately show ?thesis
      using none' by (simp add: untouched_def nowhere_def step(2) memory_in_world)
  next
    case (S_Wait_Done r' ec t)
    have "r' \<noteq> r \<or> failed ec"
      using quiet by (auto simp: S_Wait_Done)
    with S_Wait_Done run none' show ?thesis
      by (auto simp: untouched_def nowhere_def and_then_Inr_iff wait_failed at_site_def
          intro!: memory_in_world split: if_splits)
  qed (use run none' in \<open>auto simp: untouched_def nowhere_def deref_def and_then_Inr_iff pool_adopt_def
      pool_move_construct_def pool_move_assign_def async_pool_invalidate_def
      intro!: memory_in_world split: if_splits option.splits\<close>)
qed

lemma abandoned_run:
  "shared_ok assoc s \<Longrightarrow> tidy s \<Longrightarrow> abandoned s r \<Longrightarrow> shared_run assoc ys s = Some (Inr s') \<Longrightarrow>
   \<forall>y \<in> set ys. \<not> expires r y \<Longrightarrow> map_of (sh_memory s') r = map_of (sh_memory s) r"
proof (induction ys arbitrary: s)
  case (Cons y ys)
  obtain s2 where step: "shared_step assoc y s = Some (Inr s2)" "shared_run assoc ys s2 = Some (Inr s')"
    using Cons.prems(4) by (auto split: option.splits sum.splits)
  have can: "can_happen y s"
    using step(1) by (auto simp: shared_step_def split: if_splits)
  from Cons.prems(1) step(1) have "\<exists>s1. catch_exceptions (shared_effect assoc y s) s = Inr s1
      \<and> shared_ok assoc s1 \<and> s2 = reclaim s1"
  proof (cases rule: shared_step_cases)
    case (returns s1)
    from returns(4) have "s2 = reclaim s1" by (rule sum.inject(2) [THEN iffD1])
    with returns(2,3) show ?thesis by (intro exI conjI)
  qed simp
  then obtain s1 where s1: "catch_exceptions (shared_effect assoc y s) s = Inr s1" "shared_ok assoc s1"
    "s2 = reclaim s1"
    by (elim exE conjE)
  have "untouched r s s1"
  proof (cases "shared_effect assoc y s")
    case (Inr s1')
    with s1(1) Cons.prems show ?thesis
      by (intro effect_untouched [OF Cons.prems(1,3) can]) (simp_all add: catch_exceptions_def)
  next
    case (Inl f)
    with s1(1) have "s1 = s"
      by (cases f) (simp_all add: catch_exceptions_def)
    with Cons.prems(1,3) show ?thesis
      by (simp add: untouched_def abandoned_def held_outside_nowhere)
  qed
  then have same: "map_of (sh_memory s1) r = map_of (sh_memory s) r" "nowhere s1 r"
    by (simp_all add: untouched_def)
  then have world: "world_of (sh_memory s1) r = world_of (sh_memory s) r"
    by (simp add: world_of_def)
  have "referenced s r"
    using Cons.prems(2,3) by (simp add: tidy_def abandoned_def)
  then have "referenced s1 r"
    using Cons.prems(3) world
    by (simp add: referenced_iff [OF s1(2)] referenced_iff [OF Cons.prems(1)] abandoned_def)
  then have kept: "map_of (sh_memory s2) r = map_of (sh_memory s) r"
    by (simp add: s1(3) same(1))
  have ok: "shared_ok assoc s2"
    unfolding s1(3) by (rule shared_ok_reclaim [OF s1(2)])
  have "nowhere s2 r"
    using same(2) by (simp add: s1(3) nowhere_def)
  with kept Cons.prems(3) have "abandoned s2 r"
    by (simp add: abandoned_def held_outside_nowhere [OF ok] alive_def world_of_def)
  then have "map_of (sh_memory s') r = map_of (sh_memory s2) r"
    using Cons.prems(5) step(2) tidy_reclaim [of s1]
    by (intro Cons.IH [OF ok]) (simp_all add: s1(3))
  with kept show ?case by simp
qed simp

text \<open>
  C37. A replaced pool can outlive every reference of the program: if only its own waiting requests
  refer to an implementation, then some request waits in it, and nothing the program does changes the
  implementation or destroys it until the wait on its timer ends.
\<close>

theorem abandoned_pool_waits_for_timer:
  assumes "shared_run assoc xs (shared_start n) = Some (Inr s)" and "abandoned s r"
    and "shared_run assoc ys s = Some (Inr s')" and "\<forall>y \<in> set ys. \<not> expires r y"
  shows "\<exists>p. map_of (sh_memory s) r = Some (p, []) \<and> waiting p \<noteq> [] \<and> map_of (sh_memory s') r = Some (p, [])"
proof -
  note ok = shared_reachable_ok [OF assms(1)]
  obtain p where p: "map_of (sh_memory s) r = Some (p, [])"
    using assms(2) by (auto simp: abandoned_def alive_def world_of_def)
  have "referenced s r"
    using ok assms(2) by (simp add: tidy_def abandoned_def)
  then have "waiting p \<noteq> []"
    using assms(2) p referenced_iff [OF conjunct1 [OF ok], of r]
    by (auto simp: abandoned_def world_of_def site_handlers_def waiting_handlers_def task_handlers_def)
  with p abandoned_run [OF _ _ assms(2,3,4)] ok show ?thesis by auto
qed

theorem abandoned_pool_waits_for_timer_witness:
  "\<exists>s s' p. shared_run demo_executor demo_leak (shared_start 2) = Some (Inr s)
    \<and> shared_run demo_executor demo_end s = Some (Inr s')
    \<and> map_of (sh_memory s) True = Some (p, []) \<and> waiting p \<noteq> [] \<and> map_of (sh_memory s') True = Some (p, [])"
proof -
  have "case shared_run demo_executor demo_leak (shared_start 2) of
      Some (Inr s) \<Rightarrow> abandoned s True \<and> (case shared_run demo_executor demo_end s of
         Some (Inr s') \<Rightarrow> True | _ \<Rightarrow> False)
    | _ \<Rightarrow> False"
    by code_simp
  from run_outcome [OF this] obtain s where s: "shared_run demo_executor demo_leak (shared_start 2) = Some (Inr s)"
    "abandoned s True" "case shared_run demo_executor demo_end s of Some (Inr s') \<Rightarrow> True | _ \<Rightarrow> False"
    by blast
  from run_outcome [OF s(3)] obtain s' where s': "shared_run demo_executor demo_end s = Some (Inr s')"
    by blast
  have "\<forall>y \<in> set demo_end. \<not> expires True y"
    by code_simp
  then show ?thesis
    using abandoned_pool_waits_for_timer [OF s(1,2) s'] s(1) s' by blast
qed

text \<open>
  The end of the wait releases it: the requests are refused, and with the last refusal executed the
  implementation is destroyed.
\<close>

lemma remove_nth_0 [simp]: "remove_nth 0 (x # xs) = xs"
  by (simp add: remove_nth_def)

lemma drain_abandoned:
  assumes "shared_ok assoc s" and "nowhere s r" and "map_of (sh_memory s) r = Some (p, ts)"
    and "waiting p = []" and "ts \<noteq> []" and "\<forall>(c, t) \<in> set ts. task_iterator t = Singular"
    and "i < sh_vars s" and "unusable (sh_handles s i)"
  shows "\<exists>s'. shared_run assoc (replicate (length ts) (S_Run r 0 i now)) s = Some (Inr s')
    \<and> \<not> alive (sh_memory s') r"
  using assms
proof (induction ts arbitrary: s)
  case (Cons x ts)
  note ok = Cons.prems(1)
  obtain c t where x: "x = (c, t)" by (cases x)
  have world: "world_of (sh_memory s) r = (p, x # ts)"
    by (simp add: world_of_def Cons.prems(3))
  have sound: "task_sound (on_get_executor assoc) t"
    using shared_site [OF ok, of r] by (simp add: world site_ok_def x)
  have failed: "failed (task_code t)"
    using task_code_sound [OF sound] Cons.prems(6) by (simp add: x)
  have alive: "alive (sh_memory s) r"
    by (simp add: alive_def Cons.prems(3))
  let ?s = "(in_world s ((world_of (sh_memory s))(r := (p, ts))))\<lparr>sh_handles := (sh_handles s)(i := handle_default)\<rparr>"
  have effect: "shared_effect assoc (S_Run r 0 i now) s = Inr ?s"
    using Cons.prems(8) failed
    by (simp add: handle_destroy_def handle_release_def deliver_def world x run_task_sound [OF sound]
        on_get_call_def)
  have ok': "shared_ok assoc ?s"
    using shared_run_effect [OF ok, of 0 r i now] effect Cons.prems(7) by (simp add: world)
  have step: "shared_step assoc (S_Run r 0 i now) s = Some (Inr (reclaim ?s))"
    using Cons.prems(7) effect
    by (simp add: shared_step_def world catch_exceptions_def del: shared_effect.simps)
  have nowhere: "nowhere ?s r"
    using Cons.prems(2) by (auto simp: nowhere_def handle_default_def)
  have mem: "map_of (sh_memory ?s) r = Some (p, ts)"
    using Cons.prems(3) by simp
  have world': "world_of (sh_memory ?s) r = (p, ts)"
    by (rule world_of_known [OF mem])
  have ref: "referenced ?s r \<longleftrightarrow> ts \<noteq> []"
    using held_outside_nowhere [OF ok', of r] nowhere Cons.prems(4)
    unfolding referenced_iff [OF ok'] world' by (simp add: site_handlers_def waiting_handlers_def task_handlers_def)
  show ?case
  proof (cases "ts = []")
    case True
    with ref step show ?thesis by simp
  next
    case False
    have "\<exists>s'. shared_run assoc (replicate (length ts) (S_Run r 0 i now)) (reclaim ?s) = Some (Inr s')
        \<and> \<not> alive (sh_memory s') r"
    proof (rule Cons.IH)
      show "shared_ok assoc (reclaim ?s)" by (rule shared_ok_reclaim [OF ok'])
      show "nowhere (reclaim ?s) r" using nowhere by (simp add: nowhere_def)
      show "map_of (sh_memory (reclaim ?s)) r = Some (p, ts)"
        using ref False mem by simp
    qed (use Cons.prems False in simp_all)
    with step show ?thesis by simp
  qed
qed simp

theorem abandoned_pool_dies_with_timer:
  assumes "shared_run assoc xs (shared_start n) = Some (Inr s)" and "abandoned s r"
    and "map_of (sh_memory s) r = Some (p, [])" and "\<forall>x \<in> set (waiting p). fst x \<le> t"
    and "i < n" and "unusable (sh_handles s i)"
  shows "\<exists>s'. shared_run assoc
      (S_Wait_Done r no_error t # replicate (length (waiting p)) (S_Run r 0 i now)) s = Some (Inr s')
    \<and> \<not> alive (sh_memory s') r"
proof -
  have ok: "shared_ok assoc s" and tidy: "tidy s" and vars: "sh_vars s = n"
    using shared_reachable_ok [OF assms(1)] run_vars [OF assms(1)] by (simp_all add: shared_start_def)
  have world: "world_of (sh_memory s) r = (p, [])"
    by (simp add: world_of_def assms(3))
  have live: "alive (sh_memory s) r" and nowhere: "nowhere s r"
    using assms(2) held_outside_nowhere [OF ok] by (auto simp: abandoned_def)
  have inv: "async_inv (on_get_executor assoc) p"
    using shared_site [OF ok, of r] by (simp add: world site_ok_def)
  obtain p' calls where wait: "async_wait_done no_error t p = Inr (p', calls)"
    "posted calls = map expire (due t (waiting p))" "waiting p' = []"
    by (rule async_wait_done_ok [OF inv, of no_error t]) (use assms(4) in \<open>auto simp: no_error_def failed_def\<close>)
  have all: "length (due t (waiting p)) = length (waiting p)"
    using assms(4) by (simp add: due_def)
  have "waiting p \<noteq> []"
    using abandoned_pool_waits_for_timer [OF assms(1,2), of "[]" s] assms(3) by auto
  then have some: "posted calls \<noteq> []" and len: "length (posted calls) = length (waiting p)"
    using wait(2) all by auto
  let ?s = "in_world s ((world_of (sh_memory s))(r := (p', posted calls)))"
  have effect: "shared_effect assoc (S_Wait_Done r no_error t) s = Inr ?s"
    using live by (simp add: world at_site_def wait(1))
  have ok': "shared_ok assoc ?s"
    using shared_effect_ok [OF ok, of "S_Wait_Done r no_error t"] effect
    by (simp add: effect_ok_def catch_exceptions_def)
  have step: "shared_step assoc (S_Wait_Done r no_error t) s = Some (Inr (reclaim ?s))"
    using effect by (simp add: shared_step_def catch_exceptions_def del: shared_effect.simps)
  have mem: "map_of (sh_memory ?s) r = Some (p', posted calls)"
    using assms(3) by simp
  have world': "world_of (sh_memory ?s) r = (p', posted calls)"
    by (rule world_of_known [OF mem])
  have "referenced ?s r"
    using some unfolding referenced_iff [OF ok'] world' by (simp add: site_handlers_def task_handlers_def)
  then have mem': "map_of (sh_memory (reclaim ?s)) r = Some (p', posted calls)"
    using mem by simp
  have "\<exists>s'. shared_run assoc (replicate (length (posted calls)) (S_Run r 0 i now)) (reclaim ?s) = Some (Inr s')
      \<and> \<not> alive (sh_memory s') r"
  proof (rule drain_abandoned [OF shared_ok_reclaim [OF ok'] _ mem' wait(3) some])
    show "nowhere (reclaim ?s) r"
      using nowhere by (simp add: nowhere_def)
    show "\<forall>(c, t) \<in> set (posted calls). task_iterator t = Singular"
      by (auto simp: wait(2) expire_def)
  qed (use assms(5,6) vars in simp_all)
  with step len show ?thesis by simp
qed

end
