(* ===== verification/Shared_Leaks.thy ===== *)
theory Shared_Leaks
  imports Shared_Lifetimes
begin

text \<open>
  No implementation outlives the program's references when the calls of \<open>get\<close> do not overlap with
  other operations: then a request waits only in a pool whose cells are all in use, and each of those
  is held by a handle or carried by a task.
\<close>

definition calm_site :: "('c, 'x, 'r, 'u, 'v) async_site \<Rightarrow> bool" where
  "calm_site x \<longleftrightarrow> 0 < ap_capacity (fst x) \<and> (waiting (fst x) \<noteq> [] \<longrightarrow> async_free (fst x) = 0)"

definition calm_world :: "('c, 'x, 'r, 'u, 'v) async_world \<Rightarrow> bool" where
  "calm_world w \<longleftrightarrow> (\<forall>r. calm_site (w r))"

lemma calm_worldD: "calm_world w \<Longrightarrow> calm_site (fst (w r), snd (w r))"
  by (simp add: calm_world_def)

lemma calm_world_upd: "calm_world w \<Longrightarrow> calm_site x \<Longrightarrow> calm_world (w(r := x))"
  by (simp add: calm_world_def)

lemma calm_given_back:
  assumes "async_inv assoc p" "async_inv assoc p'" "given_back c p p' calls" "calm_site (p, ts)"
  shows "calm_site (p', us)"
  using assms(3)
proof (cases rule: given_back_cases)
  case kept
  with assms(4) given_back_same [OF assms(3)] show ?thesis
    by (simp add: calm_site_def)
next
  case (served x)
  with assms(4) given_back_same [OF assms(3)] async_free_same [OF assms(1,2)] show ?thesis
    by (simp add: calm_site_def)
qed

text \<open>The pools keep the contract of \<open>pool_returns\<close> with this stronger invariant as well.\<close>

lemma calm_gives_back:
  assumes ok: "async_world_ok assoc w" and calm: "calm_world w" and c: "c \<in> async_world_lent r w"
    and op: "\<exists>p' calls. res = Inr (p', calls) \<and> async_inv (on_get_executor assoc) p'
      \<and> given_back c (fst (w r)) p' calls"
  shows "\<exists>w' out. at_site r w res = Inr (w', out) \<and> (async_world_ok assoc w' \<and> calm_world w')
    \<and> loan_ended async_world_lent r c w w'"
proof -
  obtain p' calls where p': "res = Inr (p', calls)" "async_inv (on_get_executor assoc) p'"
    "given_back c (fst (w r)) p' calls"
    using op by blast
  note site = site_of_world [OF ok, of r]
  have l: "c \<in> site_lent (fst (w r), snd (w r))"
    using c by (simp add: async_world_lent_def)
  note give = site_give_back [OF site l p'(2,3)]
  have "calm_site (p', snd (w r) @ posted calls)"
    by (rule calm_given_back [OF site_ok_parts(1) [OF site] p'(2,3) calm_worldD [OF calm]])
  then show ?thesis
    using give async_world_ok_upd [OF ok] calm_world_upd [OF calm]
    by (intro exI [of _ "w(r := (p', snd (w r) @ posted calls))"] exI [of _ "map (Pair r) calls"] conjI
        async_loan_ended) (simp_all add: at_site_def p'(1))
qed

interpretation calm_returns: pool_returns async_api async_world_lent
  "\<lambda>w. async_world_ok assoc w \<and> calm_world w"
  for assoc :: "'u \<Rightarrow> 'x"
proof unfold_locales
  fix w and r c now f
  assume ok: "async_world_ok assoc w \<and> calm_world w" and c: "c \<in> async_world_lent r w"
  note gives = calm_gives_back [OF conjunct1 [OF ok] conjunct2 [OF ok] c]
  have inv: "async_inv (on_get_executor assoc) (fst (w r))" and l: "c \<in> async_lent (fst (w r))"
    using site_ok_parts(1) [OF site_of_world [OF conjunct1 [OF ok], of r]] c
    by (auto simp: async_world_lent_def site_lent_def split: prod.splits)
  show "\<exists>w' out. api_recycle async_api now r (Cell c) w = Inr (w', out) \<and> (async_world_ok assoc w' \<and> calm_world w')
      \<and> loan_ended async_world_lent r c w w'"
    using gives [OF async_give_back(1) [OF inv l]] by (simp add: async_api_def)
  show "\<exists>w' out. api_waste async_api r (Cell c) w = Inr (w', out) \<and> (async_world_ok assoc w' \<and> calm_world w')
      \<and> loan_ended async_world_lent r c w w'"
    using gives [OF async_give_back(2) [OF inv l]] by (simp add: async_api_def)
  show "\<exists>cell. api_read async_api r (Cell c) w = Inr cell"
    by (rule async_returns.read_lent [OF conjunct1 [OF ok] c])
  obtain w' where w': "api_write async_api r (Cell c) f w = Inr w'" "async_world_ok assoc w'"
    "\<And>r'. async_world_lent r' w' = async_world_lent r' w"
    using async_returns.write_lent [OF conjunct1 [OF ok] c, of f] by blast
  have "calm_world w'"
    using w'(1) conjunct2 [OF ok]
    by (auto simp: async_api_def and_then_Inr_iff update_cell_Inr_iff calm_world_def calm_site_def async_free_def)
  with w' show "\<exists>w'. api_write async_api r (Cell c) f w = Inr w' \<and> (async_world_ok assoc w' \<and> calm_world w')
      \<and> (\<forall>r'. async_world_lent r' w' = async_world_lent r' w)"
    by blast
qed

subsection \<open>Programs whose calls of \<open>get\<close> are whole\<close>

fun whole_call :: "('c, 'r, 'u, 'v) shared_op \<Rightarrow> bool" where
  "whole_call (S_Get_Begin i c u st d now) \<longleftrightarrow> False"
| "whole_call _ \<longleftrightarrow> True"

definition calm_shared :: "('c, 'x, 'r, 'u, 'v) shared \<Rightarrow> bool" where
  "calm_shared s \<longleftrightarrow> calm_world (world_of (sh_memory s)) \<and> sh_calls s = []"

lemma calm_nobody: "calm_site nobody"
  by (simp add: calm_site_def nobody_def)

lemma calm_created: "async_pool_create n k timeout life = Inr p \<Longrightarrow> calm_site (p, ts)"
  using async_create_inv [of n k timeout life p] by (simp add: calm_site_def)

lemma calm_in_world:
  assumes "calm_world w" and "sh_calls s = []"
  shows "calm_shared (in_world s w)"
proof -
  have "calm_site (world_of (store_world w (sh_memory s)) r)" for r
    using assms(1) calm_nobody by (cases "map_of (sh_memory s) r") (simp_all add: calm_world_def world_of_def)
  then show ?thesis
    by (simp add: calm_shared_def calm_world_def assms(2))
qed

lemma calm_at_site:
  assumes "calm_shared s" and "at_site r (world_of (sh_memory s)) res = Inr (w, out)"
    and "\<And>p calls ts. res = Inr (p, calls) \<Longrightarrow> calm_site (p, ts)"
  shows "calm_shared (in_world s w)"
proof -
  obtain p calls where "res = Inr (p, calls)"
    and w: "w = (world_of (sh_memory s))(r := (p, snd (world_of (sh_memory s) r) @ posted calls))"
    using assms(2) by (auto simp: at_site_def and_then_Inr_iff)
  then show ?thesis
    using assms(1,3) unfolding w calm_shared_def [of s] by (intro calm_in_world calm_world_upd) simp_all
qed

lemma calm_async_get:
  assumes ok: "site_ok assoc r (p, ts)" and calm: "calm_site (p, ts)"
    and get: "async_get (on_get_executor assoc) c (make_on_get_handler r st u) d now now' p = Inr (p', calls)"
  shows "calm_site (p', us)"
proof -
  let ?h = "make_on_get_handler r st u"
  have inv: "async_inv (on_get_executor assoc) p"
    by (rule site_ok_parts(1) [OF ok])
  then show ?thesis
  proof (cases rule: async_get_locked_cases [where c = c and h = ?h and w = d and now = now])
    case (leased s cell)
    have "async_free p \<noteq> 0"
      using leased(2) lease_None_iff [of now "ap_storage p"] by (auto simp: async_free_def)
    with leased get calm show ?thesis
      by (auto simp: async_get_def calm_site_def)
  next
    case waits
    obtain q calls' where push: "async_get_push (on_get_executor assoc) c ?h d now' p = Inr (q, calls')"
      "ap_storage q = ap_storage p" "ap_capacity q = ap_capacity p"
      by (rule async_get_push_ok [OF inv, of c ?h d now']) metis
    with waits get calm show ?thesis
      by (auto simp: async_get_def calm_site_def async_free_def)
  qed (use get calm in \<open>auto simp: async_get_def calm_site_def\<close>)
qed

lemma calm_effect:
  assumes ok: "shared_ok assoc s" and calm: "calm_shared s" and can: "can_happen x s"
    and whole: "whole_call x" and run: "shared_effect assoc x s = Inr s'"
  shows "calm_shared s'"
proof -
  let ?w = "world_of (sh_memory s)"
  have w: "calm_world ?w" and calls: "sh_calls s = []"
    using calm by (simp_all add: calm_shared_def)
  note inv = site_ok_parts(1) [OF shared_site [OF ok]]
  have allocate: "calm_shared s1" if "allocate r n k timeout life s = Inr s1" for r n k timeout life s1
    using that w calls calm_created
    by (auto simp: allocate_def async_pool_construct_def and_then_Inr_iff calm_shared_def world_of_allocated
        intro!: calm_world_upd)
  show ?thesis
  proof (cases x)
    case (S_Construct i r n k timeout life)
    with run allocate show ?thesis
      by (auto simp: and_then_Inr_iff calm_shared_def)
  next
    case (S_Make_Shared i r n k timeout life)
    with run allocate show ?thesis
      by (auto simp: and_then_Inr_iff calm_shared_def)
  next
    case (S_Destroy i)
    show ?thesis
    proof (cases "sh_pools s i")
      case None
      with run calm show ?thesis by (simp add: S_Destroy)
    next
      case (Some r)
      obtain p calls' where d: "async_disable (fst (?w r)) = Inr (p, calls')" "waiting p = []"
        "ap_capacity p = ap_capacity (fst (?w r))"
        by (rule async_disable_ok [OF inv])
      from run Some obtain w' out where "at_site r ?w (async_disable (fst (?w r))) = Inr (w', out)"
        "s' = (in_world s w')\<lparr>sh_pools := (sh_pools s)(i := None)\<rparr>"
        by (auto simp: S_Destroy deref_def async_pool_destroy_def and_then_Inr_iff split: if_splits)
      moreover have "calm_shared (in_world s w')"
        using d w by (intro calm_at_site [OF calm calculation(1)]) (auto simp: calm_world_def calm_site_def)
      ultimately show ?thesis
        by (simp add: calm_shared_def)
    qed
  next
    case (S_Invalidate i)
    then obtain r where "s' = in_world s (async_pool_invalidate r ?w)"
      using run by (auto simp: and_then_Inr_iff)
    moreover have "calm_world (async_pool_invalidate r ?w)"
      using w async_invalidate_ok [OF inv, of r]
      by (auto simp: async_pool_invalidate_def calm_world_def calm_site_def)
    ultimately show ?thesis
      using calls by (simp add: calm_in_world)
  next
    case (S_Get i c u st d now now')
    then obtain r w' out where get: "async_pool_get assoc r c u st d now now' ?w = Inr (w', out)" "s' = in_world s w'"
      using run by (auto simp: and_then_Inr_iff)
    show ?thesis
      unfolding get(2)
      by (rule calm_at_site [OF calm get(1) [unfolded async_pool_get_def]])
        (rule calm_async_get [OF shared_site [OF ok] calm_worldD [OF w]])
  next
    case (S_Run r k i now)
    have "handle_destroy (live_api (alive (sh_memory s))) now (sh_handles s i) ?w
        = handle_destroy async_api now (sh_handles s i) ?w"
      using shared_okD(5) [OF ok] by (intro live_release) blast
    with run obtain w1 out u ec h w' where d: "handle_destroy async_api now (sh_handles s i) ?w = Inr (w1, out)"
      "deliver r k w1 = Inr ((u, ec, h), w')" "s' = (in_world s w')\<lparr>sh_handles := (sh_handles s)(i := h)\<rparr>"
      by (auto simp: S_Run and_then_Inr_iff)
    have "calm_world w1"
      using calm_returns.destroy_ok [OF conjI [OF shared_okD(1) [OF ok] w] shared_okD(2) [OF ok], of now i] d(1)
      by auto
    then have "calm_world w'"
      using d(2) by (auto simp: deliver_def and_then_Inr_iff calm_world_def calm_site_def)
    from calm_in_world [OF this calls] show ?thesis
      by (simp add: d(3) calm_shared_def)
  next
    case (S_Handle y)
    have "handle_step (live_api (alive (sh_memory s))) y (sh_handles s) ?w = handle_step async_api y (sh_handles s) ?w"
      using shared_okD(5) [OF ok] by (intro live_step) blast
    with run obtain hs w' out where step: "handle_step async_api y (sh_handles s) ?w = Inr (hs, w', out)"
      "s' = (in_world s w')\<lparr>sh_handles := hs\<rparr>"
      by (auto simp: S_Handle and_then_Inr_iff)
    have "calm_world w'"
      using calm_returns.step_safe [OF conjI [OF shared_okD(1) [OF ok] w] shared_okD(2) [OF ok], of y] step(1)
      by (auto simp: catch_exceptions_def)
    from calm_in_world [OF this calls] show ?thesis
      by (simp add: step(2) calm_shared_def)
  next
    case (S_Wait_Done r ec t)
    show ?thesis
    proof (cases "alive (sh_memory s) r")
      case True
      obtain p calls' where d: "async_wait_done ec t (fst (?w r)) = Inr (p, calls')"
        "waiting p = (if failed ec then waiting (fst (?w r)) else filter (\<lambda>x. \<not> fst x \<le> t) (waiting (fst (?w r))))"
        "ap_storage p = ap_storage (fst (?w r))" "ap_capacity p = ap_capacity (fst (?w r))"
        by (rule async_wait_done_ok [OF inv])
      from run True obtain w' out where "at_site r ?w (async_wait_done ec t (fst (?w r))) = Inr (w', out)" "s' = in_world s w'"
        by (auto simp: S_Wait_Done and_then_Inr_iff)
      moreover have "waiting p \<noteq> [] \<Longrightarrow> waiting (fst (?w r)) \<noteq> []"
        using d(2) by (auto split: if_splits)
      then have "calm_shared (in_world s w')"
        using d(1,3,4) calm_worldD [OF w, of r]
        by (intro calm_at_site [OF calm calculation(1)]) (auto simp: calm_site_def async_free_def)
      ultimately show ?thesis by simp
    next
      case False
      with run calm show ?thesis by (simp add: S_Wait_Done)
    qed
  next
    case (S_Get_Push k now)
    with can calls show ?thesis by simp
  qed (use run whole calm in \<open>auto simp: calm_shared_def and_then_Inr_iff pool_move_construct_def\<close>)
qed

lemma calm_reclaim: "calm_shared s \<Longrightarrow> calm_shared (reclaim s)"
  by (simp add: calm_shared_def calm_world_def world_of_reclaim calm_nobody)

lemma calm_shared_run:
  "shared_ok assoc s \<Longrightarrow> calm_shared s \<Longrightarrow> list_all whole_call xs \<Longrightarrow> shared_run assoc xs s = Some (Inr s') \<Longrightarrow>
   calm_shared s'"
proof (induction xs arbitrary: s)
  case (Cons x xs)
  then obtain s2 where step: "shared_step assoc x s = Some (Inr s2)" "shared_run assoc xs s2 = Some (Inr s')"
    by (auto split: option.splits sum.splits)
  have can: "can_happen x s"
    using step(1) by (auto simp: shared_step_def split: if_splits)
  obtain s1 where s1: "catch_exceptions (shared_effect assoc x s) s = Inr s1" "shared_ok assoc s1" "s2 = reclaim s1"
    by (rule shared_step_cases [OF Cons.prems(1) step(1)]) simp_all
  have "calm_shared s1"
    using s1(1) Cons.prems(2,3) calm_effect [OF Cons.prems(1,2) can]
    by (auto simp: catch_exceptions_def split: sum.splits fault.splits)
  then have "calm_shared s2" "shared_ok assoc s2"
    using s1(2,3) by (simp_all add: calm_reclaim shared_ok_reclaim)
  then show ?case
    using Cons.IH Cons.prems(3) step(2) by simp
qed simp

lemma calm_start: "calm_shared (shared_start n)"
  by (simp add: calm_shared_def calm_world_def shared_start_def world_of_def calm_nobody)

text \<open>
  C15. Without overlapping calls nothing leaks, even if pools were replaced and never disabled: once no
  variable of the program refers to an implementation and no task is on its way, there is none left.
\<close>

theorem no_leak_without_overlap:
  assumes "shared_run assoc xs (shared_start n) = Some (Inr s)" and "list_all whole_call xs"
    and "\<forall>i<n. sh_pools s i = None \<and> sh_pointers s i = None \<and> pool_impl (sh_handles s i) = None"
    and "\<forall>(r, (p, ts)) \<in> set (sh_memory s). ts = []"
  shows "sh_memory s = []"
proof (rule ccontr)
  have ok: "shared_ok assoc s" and tidy: "tidy s" and vars: "sh_vars s = n"
    using shared_reachable_ok [OF assms(1)] run_vars [OF assms(1)] by (simp_all add: shared_start_def)
  have calm: "calm_shared s"
    by (rule calm_shared_run [OF shared_ok_start calm_start assms(2,1)])
  assume "sh_memory s \<noteq> []"
  then obtain r x where "map_of (sh_memory s) r = Some x"
    by (metis ext map_of_eq_empty_iff not_None_eq)
  then obtain p ts where r: "map_of (sh_memory s) r = Some (p, ts)"
    by (cases x) simp
  then have ts: "ts = []"
    using assms(4) map_of_SomeD [OF r] by auto
  note world = world_of_known [OF r]
  have "\<not> held_outside s r"
    using assms(3) calm by (auto simp: own_defs calm_shared_def list_ex_iff vars)
  then have "waiting p \<noteq> []"
    using tidy r referenced_iff [OF ok, of r]
    by (auto simp: tidy_def alive_def world ts site_handlers_def waiting_handlers_def task_handlers_def)
  then have "async_free p = 0" "0 < ap_capacity p"
    using calm world by (auto simp: calm_shared_def calm_world_def calm_site_def dest: spec [of _ r])
  moreover have "async_inv (on_get_executor assoc) p"
    using shared_site [OF ok, of r] by (simp add: world site_ok_def)
  ultimately have "async_lent p \<noteq> {}"
    using async_free_lent [of "on_get_executor assoc" p] by auto
  then have "held (sh_handles s) r \<noteq> {}"
    using owns_held [OF shared_okD(2) [OF ok], of r]
    by (simp add: async_world_lent_def site_lent_def world ts)
  then obtain i where "pool_impl (sh_handles s i) = Some r"
    by (auto simp: held_def)
  moreover have "i < n"
    using shared_okD(5) [OF ok calculation] vars by simp
  ultimately show False
    using assms(3) by simp
qed

theorem no_leak_without_overlap_witness:
  "\<exists>s. shared_run demo_executor demo_tidy (shared_start 2) = Some (Inr s) \<and> sh_memory s = []"
proof -
  have "case shared_run demo_executor demo_tidy (shared_start 2) of
      Some (Inr s) \<Rightarrow> (\<forall>i \<in> set [0..<2]. sh_pools s i = None \<and> sh_pointers s i = None
          \<and> pool_impl (sh_handles s i) = None)
        \<and> (\<forall>(r, (p, ts)) \<in> set (sh_memory s). ts = [])
    | _ \<Rightarrow> False"
    by code_simp
  from run_outcome [OF this] obtain s where s: "shared_run demo_executor demo_tidy (shared_start 2) = Some (Inr s)"
    "\<forall>i \<in> set [0..<2]. sh_pools s i = None \<and> sh_pointers s i = None \<and> pool_impl (sh_handles s i) = None"
    "\<forall>(r, (p, ts)) \<in> set (sh_memory s). ts = []"
    by blast
  have "list_all whole_call demo_tidy"
    by code_simp
  moreover have "\<forall>i<2. sh_pools s i = None \<and> sh_pointers s i = None \<and> pool_impl (sh_handles s i) = None"
    using s(2) by simp
  ultimately show ?thesis
    using no_leak_without_overlap [OF s(1)] s(1,3) by blast
qed

end
