(* ===== verification/Sync_Lifetimes.thy ===== *)
theory Sync_Lifetimes
  imports Sync_Wakeups
begin

text \<open>
  The end of a synchronous pool that threads still use. \<open>get_handle\<close> reads the member \<open>_impl\<close> of the
  pool variable twice: to call \<open>get\<close> of the implementation, and after that has returned, to make the
  handle. The variable and the handles hold shared pointers to the implementation; a thread inside
  \<open>get_handle\<close> holds none. The destructor of the variable calls \<open>disable\<close>, which wakes the sleeping
  threads, and drops its pointer.
\<close>

subsection \<open>Calls of the public pool\<close>

text \<open>
  A thread in \<open>get_handle\<close> has \<open>Entered\<close>, when it has read \<open>_impl\<close> and waits for the mutex, or is \<open>Running\<close>:
  inside \<open>get\<close> of the implementation, or back from it with a result but without a handle yet.
\<close>

datatype call = No_Call | Entered duration | Running

record 'v public_system =
  core :: "'v sync_system"
  calls :: "nat \<Rightarrow> call"

definition inside_get :: "sync_pc \<Rightarrow> bool" where
  "inside_get pc \<longleftrightarrow>
     (case pc of Waiting d \<Rightarrow> True | Woken d \<Rightarrow> True | Timed_Out \<Rightarrow> True | _ \<Rightarrow> False)"

text \<open>
  The other steps are those of \<open>sync_step\<close> on the implementation. Only a thread that has called \<open>get_handle\<close>
  enters it, and one that is back from it gives no cell back before it has its handle.
\<close>

inductive public_step :: "'v public_system \<Rightarrow> 'v public_system \<Rightarrow> bool" where
  call: "calls \<sigma> t = No_Call \<Longrightarrow> pcs (core \<sigma>) t = Outside \<Longrightarrow>
     public_step \<sigma> (\<sigma>\<lparr>calls := (calls \<sigma>)(t := Entered d)\<rparr>)"
| lock: "calls \<sigma> t = Entered d \<Longrightarrow> sync_attempt (clock (core \<sigma>)) (pool (core \<sigma>)) = (p, r) \<Longrightarrow>
     public_step \<sigma> (\<sigma>\<lparr>core := (core \<sigma>)\<lparr>pool := p, pcs := (pcs (core \<sigma>))(t := after_attempt d r)\<rparr>,
       calls := (calls \<sigma>)(t := Running)\<rparr>)"
| other: "sync_step (core \<sigma>) s \<Longrightarrow> \<forall>t. pcs (core \<sigma>) t = Outside \<longrightarrow> pcs s t = Outside \<Longrightarrow>
     \<forall>t. calls \<sigma> t = Running \<and> \<not> inside_get (pcs (core \<sigma>) t) \<longrightarrow> pcs s t = pcs (core \<sigma>) t \<Longrightarrow>
     public_step \<sigma> (\<sigma>\<lparr>core := s\<rparr>)"
| make_handle: "calls \<sigma> t = Running \<Longrightarrow> \<not> inside_get (pcs (core \<sigma>) t) \<Longrightarrow>
     public_step \<sigma> (\<sigma>\<lparr>calls := (calls \<sigma>)(t := No_Call)\<rparr>)"

inductive_simps public_step_iff: "public_step \<sigma> \<tau>"

definition public_start :: "'v sync_pool \<Rightarrow> time_point \<Rightarrow> 'v public_system" where
  "public_start p now = \<lparr>core = sync_start p now, calls = \<lambda>_. No_Call\<rparr>"

definition in_call :: "'v public_system \<Rightarrow> nat \<Rightarrow> bool" where
  "in_call \<sigma> t \<longleftrightarrow> calls \<sigma> t \<noteq> No_Call"

text \<open>These are runs of the threads of \<open>Sync_Threads\<close>, with some steps made visible.\<close>

lemma public_run_reachable:
  assumes "public_step\<^sup>*\<^sup>* (public_start p now) \<sigma>"
  shows "sync_reachable p (core \<sigma>) \<and> (\<forall>t d. calls \<sigma> t = Entered d \<longrightarrow> pcs (core \<sigma>) t = Outside)"
  using assms
proof (induction rule: rtranclp_induct)
  case base
  then show ?case
    by (simp add: public_start_def sync_start_def) (use sync_reachable.start [of p now] in \<open>simp add: sync_start_def\<close>)
next
  case (step \<sigma> \<tau>)
  note reach = conjunct1 [OF step.IH] and entered = conjunct2 [OF step.IH]
  from step.hyps(2) show ?case
  proof cases
    case (lock t d p' r)
    have "pcs (core \<sigma>) t = Outside"
      using entered lock(2) by blast
    from sync_step.get [OF this lock(3), of d] show ?thesis
      using sync_reachable.step [OF reach] entered lock(1) by auto
  next
    case (other s)
    then show ?thesis
      using sync_reachable.step [OF reach other(2)] entered by auto
  qed (use reach entered in auto)
qed

subsection \<open>After the destructor\<close>

definition destroy_pool :: "'v public_system \<Rightarrow> 'v public_system" where
  "destroy_pool \<sigma> =
     (case sync_disable (pool (core \<sigma>)) of
        (p, cvs) \<Rightarrow> \<sigma>\<lparr>core := (core \<sigma>)\<lparr>pool := p,
          pcs := (if Notify_All \<in> set cvs then \<lambda>t. wake_pc (pcs (core \<sigma>) t) else pcs (core \<sigma>))\<rparr>\<rparr>)"

declare inside_get_def [exec] destroy_pool_def [exec] in_call_def [exec]

text \<open>The threads go on, but with the variable gone no thread calls \<open>get_handle\<close> anew.\<close>

inductive orphan_step :: "'v public_system \<Rightarrow> 'v public_system \<Rightarrow> bool" where
  "public_step \<sigma> \<tau> \<Longrightarrow> \<forall>t. \<not> in_call \<sigma> t \<longrightarrow> \<not> in_call \<tau> t \<Longrightarrow> orphan_step \<sigma> \<tau>"

inductive_simps orphan_step_iff: "orphan_step \<sigma> \<tau>"

text \<open>
  The shared pointers that are left are those of handles, the ones that came with an error included.
  A thread uses what was destroyed if it is about to read \<open>_impl\<close> of the variable, or about to lock the
  mutex of an implementation without any shared pointer left.
\<close>

definition has_handle :: "'v public_system \<Rightarrow> nat \<Rightarrow> bool" where
  "has_handle \<sigma> t \<longleftrightarrow>
     \<not> in_call \<sigma> t \<and> (case pcs (core \<sigma>) t of Holding c \<Rightarrow> True | Refused ec \<Rightarrow> True | _ \<Rightarrow> False)"

definition uses_destroyed :: "'v public_system \<Rightarrow> bool" where
  "uses_destroyed \<sigma> \<longleftrightarrow>
     (\<exists>t. calls \<sigma> t = Running \<and> \<not> inside_get (pcs (core \<sigma>) t))
     \<or> (\<forall>t. \<not> has_handle \<sigma> t) \<and> (\<exists>t. in_call \<sigma> t)"

text \<open>Steps that come before any such use.\<close>

inductive defined_step :: "'v public_system \<Rightarrow> 'v public_system \<Rightarrow> bool" where
  "orphan_step \<sigma> \<tau> \<Longrightarrow> \<not> uses_destroyed \<sigma> \<Longrightarrow> defined_step \<sigma> \<tau>"

lemma inside_get_simps [simp]:
  "inside_get (Waiting d)" "inside_get (Woken d)" "inside_get Timed_Out" "\<not> inside_get Outside"
  "\<not> inside_get (Holding c)" "\<not> inside_get (Refused ec)" "inside_get (wake_pc pc) \<longleftrightarrow> inside_get pc"
  by (simp_all add: inside_get_def wake_pc_def split: sync_pc.splits)

lemma destroy_pool_fields [simp]:
  "pcs (core (destroy_pool \<sigma>)) = (\<lambda>t. wake_pc (pcs (core \<sigma>) t))" "calls (destroy_pool \<sigma>) = calls \<sigma>"
  "pool (core (destroy_pool \<sigma>)) = (pool (core \<sigma>))\<lparr>sp_disabled := True\<rparr>"
  by (simp_all add: destroy_pool_def sync_disable_def)

text \<open>A thread inside \<open>get\<close> comes back, if with a timeout, and so does one that has yet to lock the mutex.\<close>

lemma late_comes_back:
  assumes "calls \<sigma> t = Running" and "pcs (core \<sigma>) t = Woken d \<or> pcs (core \<sigma>) t = Timed_Out"
  shows "\<exists>\<tau>. orphan_step\<^sup>*\<^sup>* \<sigma> \<tau> \<and> uses_destroyed \<tau>"
proof -
  have give_up: "\<exists>\<tau>. orphan_step \<sigma> \<tau> \<and> uses_destroyed \<tau>"
    if t: "calls \<sigma> t = Running" "pcs (core \<sigma>) t = Timed_Out" for \<sigma> :: "'a public_system"
  proof -
    let ?s = "(core \<sigma>)\<lparr>pcs := (pcs (core \<sigma>))(t := Refused (make_error_code Get_Resource_Timeout))\<rparr>"
    have "public_step \<sigma> (\<sigma>\<lparr>core := ?s\<rparr>)"
      using t(2) by (intro public_step.other sync_step.give_up) auto
    then have "orphan_step \<sigma> (\<sigma>\<lparr>core := ?s\<rparr>)"
      by (simp add: orphan_step_iff in_call_def)
    moreover have "uses_destroyed (\<sigma>\<lparr>core := ?s\<rparr>)"
      using t(1) by (auto simp: uses_destroyed_def intro!: exI [of _ t])
    ultimately show ?thesis by blast
  qed
  show ?thesis
  proof (cases "pcs (core \<sigma>) t = Timed_Out")
    case True
    with give_up [OF assms(1)] show ?thesis by blast
  next
    case False
    then have woken: "pcs (core \<sigma>) t = Woken d"
      using assms(2) by simp
    let ?\<rho> = "\<sigma>\<lparr>core := (core \<sigma>)\<lparr>pcs := (pcs (core \<sigma>))(t := Timed_Out)\<rparr>\<rparr>"
    have "public_step \<sigma> ?\<rho>"
      using woken by (intro public_step.other sync_step.late) auto
    then have "orphan_step \<sigma> ?\<rho>"
      by (simp add: orphan_step_iff in_call_def)
    with give_up [of ?\<rho>] assms(1) show ?thesis
      by (auto intro: converse_rtranclp_into_rtranclp)
  qed
qed

lemma entered_comes_back:
  assumes "calls \<sigma> t = Entered d" and "sp_disabled (pool (core \<sigma>))"
  shows "\<exists>\<tau>. orphan_step \<sigma> \<tau> \<and> uses_destroyed \<tau>"
proof -
  let ?pc = "(pcs (core \<sigma>))(t := Refused (make_error_code Disabled))"
  let ?\<tau> = "\<sigma>\<lparr>core := (core \<sigma>)\<lparr>pool := pool (core \<sigma>), pcs := ?pc\<rparr>, calls := (calls \<sigma>)(t := Running)\<rparr>"
  have "sync_attempt (clock (core \<sigma>)) (pool (core \<sigma>)) = (pool (core \<sigma>), Some (make_error_code Disabled, Singular))"
    using assms(2) by (simp add: sync_attempt_def)
  from public_step.lock [of \<sigma>, OF assms(1) this] have "public_step \<sigma> ?\<tau>"
    by (simp add: after_attempt_def)
  then have "orphan_step \<sigma> ?\<tau>"
    using assms(1) by (auto simp: orphan_step_iff in_call_def)
  moreover have "uses_destroyed ?\<tau>"
    by (auto simp: uses_destroyed_def intro!: exI [of _ t])
  ultimately show ?thesis by blast
qed

lemma uses_destroyed_in_call: "uses_destroyed \<sigma> \<Longrightarrow> \<exists>t. in_call \<sigma> t"
  unfolding uses_destroyed_def in_call_def by (metis call.distinct(3))

lemma orphan_run_in_call: "orphan_step\<^sup>*\<^sup>* \<sigma> \<tau> \<Longrightarrow> \<not> in_call \<sigma> t \<Longrightarrow> \<not> in_call \<tau> t"
  by (induction rule: rtranclp_induct) (auto simp: orphan_step_iff)

lemma defined_run_in_call: "defined_step\<^sup>*\<^sup>* \<sigma> \<tau> \<Longrightarrow> in_call \<sigma> t \<Longrightarrow> in_call \<tau> t"
proof (induction rule: rtranclp_induct)
  case (step \<tau> \<rho>)
  then have t: "in_call \<tau> t" "public_step \<tau> \<rho>" "\<not> uses_destroyed \<tau>"
    by (auto simp: defined_step.simps orphan_step_iff)
  from t(2) show ?case
    by cases (use t(1,3) in \<open>auto simp: in_call_def uses_destroyed_def\<close>)
qed

text \<open>
  C38. The destructor of a synchronous pool wakes the threads that sleep in \<open>get\<close>, but does not wait for
  the calls of \<open>get_handle\<close> that are under way: the threads can go on until one of them uses the destroyed
  variable or implementation exactly when there was such a call, wherever in \<open>get_handle\<close> it was; and no
  such call ever returns without that use.
\<close>

theorem sync_destroyed_under_get:
  assumes "sync_pool_create n timeout life = Inr p" and "public_step\<^sup>*\<^sup>* (public_start p now) \<sigma>"
  shows "((\<exists>\<tau>. orphan_step\<^sup>*\<^sup>* (destroy_pool \<sigma>) \<tau> \<and> uses_destroyed \<tau>) \<longleftrightarrow> (\<exists>t. in_call \<sigma> t))
    \<and> (\<forall>t \<tau>. in_call \<sigma> t \<and> defined_step\<^sup>*\<^sup>* (destroy_pool \<sigma>) \<tau> \<longrightarrow> in_call \<tau> t)"
proof (intro conjI iffI allI impI)
  assume "\<exists>\<tau>. orphan_step\<^sup>*\<^sup>* (destroy_pool \<sigma>) \<tau> \<and> uses_destroyed \<tau>"
  then obtain \<tau> where \<tau>: "orphan_step\<^sup>*\<^sup>* (destroy_pool \<sigma>) \<tau>" "uses_destroyed \<tau>"
    by blast
  from uses_destroyed_in_call [OF \<tau>(2)] obtain t where "in_call \<tau> t" ..
  with \<tau>(1) show "\<exists>t. in_call \<sigma> t"
    using orphan_run_in_call [of "destroy_pool \<sigma>" \<tau> t] by (auto simp: in_call_def)
next
  assume "\<exists>t. in_call \<sigma> t"
  then obtain t where t: "in_call \<sigma> t" by blast
  show "\<exists>\<tau>. orphan_step\<^sup>*\<^sup>* (destroy_pool \<sigma>) \<tau> \<and> uses_destroyed \<tau>"
  proof (cases "calls \<sigma> t")
    case No_Call
    with t show ?thesis by (simp add: in_call_def)
  next
    case (Entered d)
    with entered_comes_back [of "destroy_pool \<sigma>" t d] show ?thesis by auto
  next
    case Running
    show ?thesis
    proof (cases "inside_get (pcs (core \<sigma>) t)")
      case True
      then obtain d where "pcs (core (destroy_pool \<sigma>)) t = Woken d \<or> pcs (core (destroy_pool \<sigma>)) t = Timed_Out"
        by (cases "pcs (core \<sigma>) t") (auto simp: wake_pc_def)
      with Running late_comes_back [of "destroy_pool \<sigma>" t d] show ?thesis by simp
    next
      case False
      with Running have "uses_destroyed (destroy_pool \<sigma>)"
        by (auto simp: uses_destroyed_def intro!: exI [of _ t])
      then show ?thesis by blast
    qed
  qed
next
  show "in_call \<tau> t" if "in_call \<sigma> t \<and> defined_step\<^sup>*\<^sup>* (destroy_pool \<sigma>) \<tau>" for t \<tau>
    using defined_run_in_call [of "destroy_pool \<sigma>" \<tau> t] that by (simp add: in_call_def)
qed

text \<open>A pool that is destroyed when a thread has just called it.\<close>

theorem sync_destroyed_under_get_witness:
  "\<exists>\<sigma>. public_step\<^sup>*\<^sup>* (public_start (demo_pool 1) epoch) \<sigma>
    \<and> (\<exists>\<tau>. orphan_step\<^sup>*\<^sup>* (destroy_pool \<sigma>) \<tau> \<and> uses_destroyed \<tau>)"
proof -
  let ?\<sigma> = "(public_start (demo_pool 1) epoch)\<lparr>calls := (\<lambda>_. No_Call)(3 := Entered zero_duration)\<rparr>"
  have "public_step (public_start (demo_pool 1) epoch) ?\<sigma>"
    using public_step.call [of "public_start (demo_pool 1) epoch" 3 zero_duration]
    by (simp add: public_start_def sync_start_def)
  then have run: "public_step\<^sup>*\<^sup>* (public_start (demo_pool 1) epoch) ?\<sigma>"
    by blast
  have "\<exists>t. in_call ?\<sigma> t"
    by (rule exI [of _ 3]) (simp add: in_call_def)
  then have "\<exists>\<tau>. orphan_step\<^sup>*\<^sup>* (destroy_pool ?\<sigma>) \<tau> \<and> uses_destroyed \<tau>"
    by (rule sync_destroyed_under_get [OF demo_pool_create run, THEN conjunct1, THEN iffD2, rotated]) simp
  with run show ?thesis
    by (rule_tac exI [of _ ?\<sigma>], rule_tac conjI)
qed

end
