(* ===== verification/Async_Threads.thy ===== *)
theory Async_Threads
  imports Async_Runs
begin

text \<open>
  The asynchronous pool on threads, with its mutex and with handlers that are called at once.

  \<open>Async_Runs\<close> takes an operation that holds the pool's mutex as one event and a dispatched handler as
  a task. Here a thread takes the steps of an operation one at a time: it waits for the mutex, locks
  it, works on the queue (whose own mutex makes each of its operations one step), works on the
  storage, and unlocks. Between any two steps other threads may act, timers may end, and threads that
  do not need the mutex may push requests into the queue. \<open>asio::dispatch\<close> may call the handler at once, on
  the thread that dispatches: the handler's body then runs on top of the operation, which for
  \<open>disable\<close> still holds the mutex.

  The stack of a thread lists what it is doing, innermost first. On the empty stack it runs the loop of
  an I/O context or code of the user outside of handlers; \<open>In_Handler\<close> is the body of a handler. In
  both, the user may call operations of the pool. \<open>inside t c\<close> says that thread \<open>t\<close> runs the I/O context
  \<open>c\<close>. A thread that locks a mutex it owns waits for itself (for \<open>std::mutex\<close> the standard leaves it
  undefined).
\<close>

subsection \<open>Threads\<close>

datatype ('c, 'h) pool_op =
    Op_Get 'c 'h duration
  | Op_Recycle nat
  | Op_Waste nat
  | Op_Disable
  | Op_Invalidate
  | Op_Stats

datatype ('c, 'x, 'h) frame =
    In_Handler
  | Wants "('c, 'h) pool_op"
  | Locked "('c, 'h) pool_op"
  | Pushing 'c 'h duration
  | Keep_Recycle nat
  | Keep_Waste nat
  | Serve_Recycle nat "('x, 'h) list_iterator_handler" 'c
  | Serving bool nat "('x, 'h) list_iterator_handler" 'c
  | Disabling

record ('c, 'x, 'h, 'v) threads =
  th_pool :: "('c, 'x, 'h, 'v) async_pool"
  th_owner :: "nat option"
  th_stacks :: "('c, 'x, 'h) frame list list"
  th_tasks :: "('c \<times> ('x, 'h) task) list"
  th_holding :: "nat list"
  th_called :: "'h handler_call list"

type_synonym ('c, 'x, 'h, 'v) threads_step =
  "('c, 'x, 'h, 'v) threads \<Rightarrow> ('c, 'x, 'h, 'v) threads result"

definition set_stack ::
  "nat \<Rightarrow> ('c, 'x, 'h) frame list \<Rightarrow> ('c, 'x, 'h, 'v) threads \<Rightarrow> ('c, 'x, 'h, 'v) threads" where
  "set_stack t st \<sigma> = \<sigma>\<lparr>th_stacks := (th_stacks \<sigma>)[t := st]\<rparr>"

definition set_pool ::
  "('c, 'x, 'h, 'v) async_pool \<Rightarrow> ('c, 'x, 'h, 'v) threads \<Rightarrow> ('c, 'x, 'h, 'v) threads" where
  "set_pool p \<sigma> = \<sigma>\<lparr>th_pool := p\<rparr>"

definition unlock :: "('c, 'x, 'h, 'v) threads \<Rightarrow> ('c, 'x, 'h, 'v) threads" where
  "unlock \<sigma> = \<sigma>\<lparr>th_owner := None\<rparr>"

text \<open>A thread calls a handler: the body is its innermost activity.\<close>

definition call_task :: "nat \<Rightarrow> ('x, 'h) task \<Rightarrow> ('c, 'x, 'h, 'v) threads_step" where
  "call_task t x \<sigma> =
     and_then (run_task x) (\<lambda>(h, ec, it).
       Inr (set_stack t (In_Handler # th_stacks \<sigma> ! t)
         (\<sigma>\<lparr>th_holding := cell_of it @ th_holding \<sigma>, th_called := th_called \<sigma> @ [(h, ec, it)]\<rparr>)))"

text \<open>
  The calls of Boost.Asio that thread \<open>t\<close> makes. A dispatched handler is called at once if \<open>now\<close> allows
  it and the thread is inside the I/O context, else it becomes a task like a posted one.
\<close>

fun perform ::
  "(nat \<Rightarrow> 'c \<Rightarrow> bool) \<Rightarrow> bool \<Rightarrow> nat \<Rightarrow> ('c, 'x, 'h) pool_calls \<Rightarrow> ('c, 'x, 'h, 'v) threads_step"
where
  "perform inside inline t [] \<sigma> = Inr \<sigma>"
| "perform inside inline t (Post c x # calls) \<sigma> =
     perform inside inline t calls (\<sigma>\<lparr>th_tasks := th_tasks \<sigma> @ [(c, x)]\<rparr>)"
| "perform inside inline t (Dispatch c x # calls) \<sigma> =
     (if inline \<and> inside t c then and_then (call_task t x \<sigma>) (perform inside inline t calls)
      else perform inside inline t calls (\<sigma>\<lparr>th_tasks := th_tasks \<sigma> @ [(c, x)]\<rparr>))"
| "perform inside inline t (_ # calls) \<sigma> = perform inside inline t calls \<sigma>"

subsection \<open>The steps of an operation\<close>

text \<open>\<open>pop\<close>, called with the mutex locked: what follows depends on the request, if there is one.\<close>

definition pop_then ::
  "(nat \<Rightarrow> 'c \<Rightarrow> bool) \<Rightarrow> bool \<Rightarrow> nat \<Rightarrow>
   ((('x, 'h) list_iterator_handler \<times> 'c) option \<Rightarrow> ('c, 'x, 'h, 'v) threads_step) \<Rightarrow>
   ('c, 'x, 'h, 'v) threads_step"
where
  "pop_then inside inline t k \<sigma> =
     and_then (rq_pop (ap_queue (th_pool \<sigma>))) (\<lambda>(queued, q, calls).
     and_then (perform inside inline t (queue_calls calls) (set_pool ((th_pool \<sigma>)\<lparr>ap_queue := q\<rparr>) \<sigma>))
       (k queued))"

text \<open>The last step of giving a cell back to the storage: the result, then the destructor of the lock.\<close>

definition store_then_unlock ::
  "nat \<Rightarrow> ('c, 'x, 'h) frame list \<Rightarrow> 'v storage result \<Rightarrow> ('c, 'x, 'h, 'v) threads_step" where
  "store_then_unlock t rest res \<sigma> =
     and_then res (\<lambda>s. Inr (unlock (set_stack t rest (set_pool ((th_pool \<sigma>)\<lparr>ap_storage := s\<rparr>) \<sigma>))))"

text \<open>
  One step of thread \<open>t\<close> with \<open>frame\<close> innermost and \<open>rest\<close> below it. \<open>Op_Stats\<close> stands for \<open>size\<close>,
  \<open>available\<close>, \<open>used\<close> and \<open>stats\<close>, which lock the mutex to read.
\<close>

fun proceed ::
  "('h \<Rightarrow> 'x) \<Rightarrow> (nat \<Rightarrow> 'c \<Rightarrow> bool) \<Rightarrow> bool \<Rightarrow> time_point \<Rightarrow> nat \<Rightarrow> ('c, 'x, 'h) frame list \<Rightarrow>
   ('c, 'x, 'h) frame \<Rightarrow> ('c, 'x, 'h, 'v) threads_step"
where
  "proceed assoc inside inline now t rest In_Handler \<sigma> = Inr (set_stack t rest \<sigma>)"
| "proceed assoc inside inline now t rest (Wants f) \<sigma> =
     Inr (set_stack t (Locked f # rest) (\<sigma>\<lparr>th_owner := Some t\<rparr>))"
| "proceed assoc inside inline now t rest (Locked (Op_Get c h d)) \<sigma> =
     (case async_get_locked c h d now (th_pool \<sigma>) of
        (p, Some calls) \<Rightarrow>
          perform inside inline t calls (unlock (set_stack t rest (set_pool p \<sigma>)))
      | (p, None) \<Rightarrow> Inr (unlock (set_stack t (Pushing c h d # rest) (set_pool p \<sigma>))))"
| "proceed assoc inside inline now t rest (Pushing c h d) \<sigma> =
     and_then (async_get_push assoc c h d now (th_pool \<sigma>)) (\<lambda>(p, calls).
       perform inside inline t calls (set_stack t rest (set_pool p \<sigma>)))"
| "proceed assoc inside inline now t rest (Locked (Op_Recycle cell)) \<sigma> =
     pop_then inside inline t (\<lambda>queued \<tau>.
       case queued of
         None \<Rightarrow> Inr (set_stack t (Keep_Recycle cell # rest) \<tau>)
       | Some (w, c) \<Rightarrow> Inr (set_stack t (Serve_Recycle cell w c # rest) \<tau>)) \<sigma>"
| "proceed assoc inside inline now t rest (Keep_Recycle cell) \<sigma> =
     store_then_unlock t rest (storage_recycle now (Cell cell) (ap_storage (th_pool \<sigma>))) \<sigma>"
| "proceed assoc inside inline now t rest (Serve_Recycle cell w c) \<sigma> =
     and_then (is_valid now (Cell cell) (ap_storage (th_pool \<sigma>))) (\<lambda>valid.
       Inr (unlock (set_stack t (Serving valid cell w c # rest) \<sigma>)))"
| "proceed assoc inside inline now t rest (Locked (Op_Waste cell)) \<sigma> =
     pop_then inside inline t (\<lambda>queued \<tau>.
       case queued of
         None \<Rightarrow> Inr (set_stack t (Keep_Waste cell # rest) \<tau>)
       | Some (w, c) \<Rightarrow> Inr (unlock (set_stack t (Serving False cell w c # rest) \<tau>))) \<sigma>"
| "proceed assoc inside inline now t rest (Keep_Waste cell) \<sigma> =
     store_then_unlock t rest (storage_waste (Cell cell) (ap_storage (th_pool \<sigma>))) \<sigma>"
| "proceed assoc inside inline now t rest (Serving valid cell w c) \<sigma> =
     and_then (if valid then Inr (ap_storage (th_pool \<sigma>))
               else update_cell (Cell cell) reset_value (ap_storage (th_pool \<sigma>))) (\<lambda>s.
       perform inside inline t [Post c (Serve_Task (On_Serve_Queued_Handler (Cell cell) w))]
         (set_stack t rest (set_pool ((th_pool \<sigma>)\<lparr>ap_storage := s\<rparr>) \<sigma>)))"
| "proceed assoc inside inline now t rest (Locked Op_Disable) \<sigma> =
     Inr (set_stack t (Disabling # rest) (set_pool ((th_pool \<sigma>)\<lparr>ap_disabled := True\<rparr>) \<sigma>))"
| "proceed assoc inside inline now t rest Disabling \<sigma> =
     pop_then inside inline t (\<lambda>queued \<tau>.
       case queued of
         None \<Rightarrow> Inr (unlock (set_stack t rest \<tau>))
       | Some (w, c) \<Rightarrow>
           perform inside inline t
             [Dispatch c (Error_Task (On_Error_Handler (make_error_code Disabled) w))] \<tau>) \<sigma>"
| "proceed assoc inside inline now t rest (Locked Op_Invalidate) \<sigma> =
     Inr (unlock (set_stack t rest (set_pool (async_invalidate (th_pool \<sigma>)) \<sigma>)))"
| "proceed assoc inside inline now t rest (Locked Op_Stats) \<sigma> = Inr (unlock (set_stack t rest \<sigma>))"

subsection \<open>Events\<close>

text \<open>
  What can happen next. \<open>Call t f\<close>: code of the user on thread \<open>t\<close> calls an operation; a cell is given
  back by whoever holds it. \<open>Go t inline now\<close>: thread \<open>t\<close> takes a step, reading \<open>now\<close> from the clock;
  \<open>inline\<close> is the choice of \<open>dispatch\<close>. \<open>Execute t k\<close>: the loop of an I/O context on thread \<open>t\<close> calls
  the \<open>k\<close>th task. \<open>Wait_Ends ec d\<close>: a wait on a timer ends. An event that cannot happen is \<open>None\<close>: a
  thread that wants the mutex waits while somebody owns it.
\<close>

datatype ('c, 'h) thread_event =
    Call nat "('c, 'h) pool_op"
  | Go nat bool time_point
  | Execute nat nat
  | Wait_Ends error_code time_point

fun op_cells :: "('c, 'h) pool_op \<Rightarrow> nat list" where
  "op_cells (Op_Recycle cell) = [cell]"
| "op_cells (Op_Waste cell) = [cell]"
| "op_cells _ = []"

definition in_user_code :: "('c, 'x, 'h) frame list \<Rightarrow> bool" where
  "in_user_code st \<longleftrightarrow> (case st of [] \<Rightarrow> True | f # _ \<Rightarrow> f = In_Handler)"

definition wants_mutex :: "('c, 'x, 'h) frame \<Rightarrow> bool" where
  "wants_mutex f \<longleftrightarrow> (case f of Wants _ \<Rightarrow> True | _ \<Rightarrow> False)"

fun thread_step ::
  "('h \<Rightarrow> 'x) \<Rightarrow> (nat \<Rightarrow> 'c \<Rightarrow> bool) \<Rightarrow> ('c, 'h) thread_event \<Rightarrow> ('c, 'x, 'h, 'v) threads \<Rightarrow>
   ('c, 'x, 'h, 'v) threads result option"
where
  "thread_step assoc inside (Call t f) \<sigma> =
     (if t < length (th_stacks \<sigma>) \<and> in_user_code (th_stacks \<sigma> ! t)
        \<and> set (op_cells f) \<subseteq> set (th_holding \<sigma>)
      then Some (Inr (set_stack t (Wants f # th_stacks \<sigma> ! t)
        (\<sigma>\<lparr>th_holding := fold remove1 (op_cells f) (th_holding \<sigma>)\<rparr>)))
      else None)"
| "thread_step assoc inside (Go t inline now) \<sigma> =
     (if t < length (th_stacks \<sigma>) then
        case th_stacks \<sigma> ! t of
          [] \<Rightarrow> None
        | f # rest \<Rightarrow>
            if wants_mutex f \<and> th_owner \<sigma> \<noteq> None then None
            else Some (proceed assoc inside inline now t rest f \<sigma>)
      else None)"
| "thread_step assoc inside (Execute t k) \<sigma> =
     (if t < length (th_stacks \<sigma>) \<and> th_stacks \<sigma> ! t = [] \<and> k < length (th_tasks \<sigma>)
        \<and> inside t (fst (th_tasks \<sigma> ! k))
      then Some (call_task t (snd (th_tasks \<sigma> ! k)) (\<sigma>\<lparr>th_tasks := remove_nth k (th_tasks \<sigma>)\<rparr>))
      else None)"
| "thread_step assoc inside (Wait_Ends ec d) \<sigma> =
     Some (and_then (async_wait_done ec d (th_pool \<sigma>)) (\<lambda>(p, calls).
       perform inside False 0 calls (set_pool p \<sigma>)))"

fun thread_run ::
  "('h \<Rightarrow> 'x) \<Rightarrow> (nat \<Rightarrow> 'c \<Rightarrow> bool) \<Rightarrow> ('c, 'h) thread_event list \<Rightarrow> ('c, 'x, 'h, 'v) threads \<Rightarrow>
   ('c, 'x, 'h, 'v) threads result option"
where
  "thread_run assoc inside [] \<sigma> = Some (Inr \<sigma>)"
| "thread_run assoc inside (e # es) \<sigma> =
     (case thread_step assoc inside e \<sigma> of
        None \<Rightarrow> None
      | Some (Inl f) \<Rightarrow> Some (Inl f)
      | Some (Inr \<tau>) \<Rightarrow> thread_run assoc inside es \<tau>)"

definition threads_start :: "nat \<Rightarrow> ('c, 'x, 'h, 'v) async_pool \<Rightarrow> ('c, 'x, 'h, 'v) threads" where
  "threads_start n p =
     \<lparr>th_pool = p, th_owner = None, th_stacks = replicate n [], th_tasks = [], th_holding = [],
      th_called = []\<rparr>"

lemmas thread_defs = set_stack_def set_pool_def unlock_def

declare thread_defs [exec] call_task_def [exec] pop_then_def [exec] store_then_unlock_def [exec]
  in_user_code_def [exec] wants_mutex_def [exec] threads_start_def [exec]

end
