(* ===== verification/Async_Thread_Safety.thy ===== *)
theory Async_Thread_Safety
  imports Async_Threads
begin

text \<open>
  What every interleaving of the steps of threads preserves: no step faults, the cells in use are
  divided among holders, tasks and operations under way, no handler is lost or called twice, and the
  mutex is owned by the thread that is in a locked region.
\<close>

subsection \<open>Where cells and handlers are\<close>

fun frame_cells :: "('c, 'x, 'h) frame \<Rightarrow> nat list" where
  "frame_cells (Wants f) = op_cells f"
| "frame_cells (Locked f) = op_cells f"
| "frame_cells (Keep_Recycle cell) = [cell]"
| "frame_cells (Keep_Waste cell) = [cell]"
| "frame_cells (Serve_Recycle cell w c) = [cell]"
| "frame_cells (Serving valid cell w c) = [cell]"
| "frame_cells _ = []"

fun op_handlers :: "('c, 'h) pool_op \<Rightarrow> 'h list" where
  "op_handlers (Op_Get c h d) = [h]"
| "op_handlers _ = []"

fun frame_handlers :: "('c, 'x, 'h) frame \<Rightarrow> 'h list" where
  "frame_handlers (Wants f) = op_handlers f"
| "frame_handlers (Locked f) = op_handlers f"
| "frame_handlers (Pushing c h d) = [h]"
| "frame_handlers (Serve_Recycle cell w c) = [lih_handler w]"
| "frame_handlers (Serving valid cell w c) = [lih_handler w]"
| "frame_handlers _ = []"

fun frame_sound :: "('h \<Rightarrow> 'x) \<Rightarrow> ('c, 'x, 'h) frame \<Rightarrow> bool" where
  "frame_sound assoc (Serve_Recycle cell w c) = wraps assoc w"
| "frame_sound assoc (Serving valid cell w c) = wraps assoc w"
| "frame_sound assoc _ = True"

text \<open>What the frames of all threads hold, of one kind.\<close>

definition of_frames :: "('f \<Rightarrow> 'a list) \<Rightarrow> 'f list list \<Rightarrow> 'a list" where
  "of_frames g stacks = concat (map g (concat stacks))"

lemma of_frames_update:
  "t < length stacks \<Longrightarrow>
   mset (of_frames g (stacks[t := st])) + mset (concat (map g (stacks ! t)))
     = mset (of_frames g stacks) + mset (concat (map g st))"
  by (induction stacks arbitrary: t) (auto simp: of_frames_def split: nat.splits)

lemma of_frames_move:
  assumes "t < length stacks" and "stacks ! t = f # rest"
  shows "mset (of_frames g (stacks[t := gs @ rest])) + mset (g f)
    = mset (of_frames g stacks) + mset (concat (map g gs))"
  using of_frames_update [OF assms(1), of g "gs @ rest"] assms(2) by simp

definition frames_sound :: "('h \<Rightarrow> 'x) \<Rightarrow> ('c, 'x, 'h) frame list list \<Rightarrow> bool" where
  "frames_sound assoc stacks \<longleftrightarrow> (\<forall>st \<in> set stacks. \<forall>f \<in> set st. frame_sound assoc f)"

lemma frames_sound_update:
  "frames_sound assoc stacks \<Longrightarrow> \<forall>f \<in> set st. frame_sound assoc f \<Longrightarrow> frames_sound assoc (stacks[t := st])"
  using set_update_subset_insert [of stacks t st] unfolding frames_sound_def by blast

lemma frames_sound_stack:
  "frames_sound assoc stacks \<Longrightarrow> t < length stacks \<Longrightarrow> \<forall>f \<in> set (stacks ! t). frame_sound assoc f"
  unfolding frames_sound_def by (meson nth_mem)

definition cells_out :: "('c, 'x, 'h, 'v) threads \<Rightarrow> nat multiset" where
  "cells_out \<sigma> = mset (th_holding \<sigma>) + mset (flight_cells (th_tasks \<sigma>))
     + mset (of_frames frame_cells (th_stacks \<sigma>))"

definition handlers_in :: "('c, 'x, 'h, 'v) threads \<Rightarrow> 'h multiset" where
  "handlers_in \<sigma> = mset (of_frames frame_handlers (th_stacks \<sigma>))
     + mset (waiting_handlers (waiting (th_pool \<sigma>))) + mset (task_handlers (th_tasks \<sigma>))
     + mset (map fst (th_called \<sigma>))"

subsection \<open>The invariant\<close>

definition tasks_sound :: "('h \<Rightarrow> 'x) \<Rightarrow> ('c \<times> ('x, 'h) task) list \<Rightarrow> bool" where
  "tasks_sound assoc ts \<longleftrightarrow> (\<forall>(c, x) \<in> set ts. task_sound assoc x)"

definition data_inv :: "('h \<Rightarrow> 'x) \<Rightarrow> ('c, 'x, 'h, 'v) threads \<Rightarrow> bool" where
  "data_inv assoc \<sigma> \<longleftrightarrow>
     async_inv assoc (th_pool \<sigma>) \<and> tasks_sound assoc (th_tasks \<sigma>)
     \<and> frames_sound assoc (th_stacks \<sigma>)
     \<and> cells_out \<sigma> = mset_set (async_lent (th_pool \<sigma>))"

text \<open>The frames that own the mutex, and those that can have called something.\<close>

fun in_mutex :: "('c, 'x, 'h) frame \<Rightarrow> bool" where
  "in_mutex (Locked f) = True"
| "in_mutex (Keep_Recycle cell) = True"
| "in_mutex (Keep_Waste cell) = True"
| "in_mutex (Serve_Recycle cell w c) = True"
| "in_mutex Disabling = True"
| "in_mutex _ = False"

definition calling :: "('c, 'x, 'h) frame \<Rightarrow> bool" where
  "calling f \<longleftrightarrow> f = In_Handler \<or> f = Disabling"

definition stack_ok :: "nat option \<Rightarrow> nat \<Rightarrow> ('c, 'x, 'h) frame list \<Rightarrow> bool" where
  "stack_ok owner t st \<longleftrightarrow>
     length (filter in_mutex st) = (if owner = Some t then 1 else 0) \<and> (\<forall>f \<in> set (tl st). calling f)"

definition mutex_ok :: "('c, 'x, 'h, 'v) threads \<Rightarrow> bool" where
  "mutex_ok \<sigma> \<longleftrightarrow>
     (\<forall>t < length (th_stacks \<sigma>). stack_ok (th_owner \<sigma>) t (th_stacks \<sigma> ! t))
     \<and> (\<forall>t. th_owner \<sigma> = Some t \<longrightarrow> t < length (th_stacks \<sigma>))"

definition threads_inv :: "('h \<Rightarrow> 'x) \<Rightarrow> ('c, 'x, 'h, 'v) threads \<Rightarrow> bool" where
  "threads_inv assoc \<sigma> \<longleftrightarrow> data_inv assoc \<sigma> \<and> mutex_ok \<sigma>"

declare data_inv_def [inv_simps] mutex_ok_def [inv_simps] threads_inv_def [inv_simps]

text \<open>A step of one thread changes the mutex only by locking or unlocking it for itself.\<close>

definition may_change :: "nat option \<Rightarrow> nat \<Rightarrow> nat option \<Rightarrow> bool" where
  "may_change owner t owner' \<longleftrightarrow>
     owner' = owner \<or> owner \<in> {None, Some t} \<and> owner' \<in> {None, Some t}"

lemma mutex_ok_step:
  assumes ok: "mutex_ok \<sigma>" and t: "t < length (th_stacks \<sigma>)"
    and st: "th_stacks \<tau> = (th_stacks \<sigma>)[t := st]" "stack_ok (th_owner \<tau>) t st"
    and own: "may_change (th_owner \<sigma>) t (th_owner \<tau>)"
  shows "mutex_ok \<tau>"
proof -
  have "stack_ok (th_owner \<tau>) u (th_stacks \<sigma> ! u)" if "u \<noteq> t" "u < length (th_stacks \<sigma>)" for u
    using ok that own unfolding mutex_ok_def stack_ok_def may_change_def by (metis insertE option.sel singletonD option.distinct(1))
  then show ?thesis
    using ok t st own unfolding mutex_ok_def may_change_def by (auto simp: nth_list_update)
qed

subsection \<open>Calls of Boost.Asio\<close>

lemma perform_quiet: "posted calls = [] \<Longrightarrow> perform inside inline t calls \<sigma> = Inr \<sigma>"
  by (induction calls rule: posted.induct) auto

definition performed ::
  "nat \<Rightarrow> ('c \<times> ('x, 'h) task) list \<Rightarrow> ('c, 'x, 'h, 'v) threads \<Rightarrow> ('c, 'x, 'h, 'v) threads \<Rightarrow> bool"
where
  "performed t ts \<sigma> \<tau> \<longleftrightarrow>
     th_pool \<tau> = th_pool \<sigma> \<and> th_owner \<tau> = th_owner \<sigma>
     \<and> (\<exists>k. th_stacks \<tau> = (th_stacks \<sigma>)[t := replicate k In_Handler @ th_stacks \<sigma> ! t])
     \<and> set (th_tasks \<tau>) \<subseteq> set (th_tasks \<sigma>) \<union> set ts
     \<and> mset (th_holding \<tau>) + mset (flight_cells (th_tasks \<tau>))
         = mset (th_holding \<sigma>) + mset (flight_cells (th_tasks \<sigma>)) + mset (flight_cells ts)
     \<and> mset (task_handlers (th_tasks \<tau>)) + mset (map fst (th_called \<tau>))
         = mset (task_handlers (th_tasks \<sigma>)) + mset (map fst (th_called \<sigma>)) + mset (task_handlers ts)"

lemma call_task_ok:
  assumes "task_sound assoc x"
  shows "call_task t x \<sigma> = Inr (set_stack t (In_Handler # th_stacks \<sigma> ! t)
    (\<sigma>\<lparr>th_holding := cell_of (task_iterator x) @ th_holding \<sigma>,
       th_called := th_called \<sigma> @ [(task_handler x, task_code x, task_iterator x)]\<rparr>))"
  by (simp add: call_task_def run_task_sound [OF assms])

lemma performed_refl: "performed t [] \<sigma> \<sigma>"
  by (auto simp: performed_def intro: exI [of _ 0])

lemma performed_task:
  "performed t ts (\<sigma>\<lparr>th_tasks := th_tasks \<sigma> @ [(c, x)]\<rparr>) \<tau> \<Longrightarrow> performed t ((c, x) # ts) \<sigma> \<tau>"
  unfolding performed_def by auto

lemma performed_call:
  assumes "performed t ts (set_stack t (In_Handler # th_stacks \<sigma> ! t)
    (\<sigma>\<lparr>th_holding := cell_of (task_iterator x) @ th_holding \<sigma>,
       th_called := th_called \<sigma> @ [(task_handler x, task_code x, task_iterator x)]\<rparr>)) \<tau>"
    and t: "t < length (th_stacks \<sigma>)"
  shows "performed t ((c, x) # ts) \<sigma> \<tau>"
proof -
  obtain k where "th_stacks \<tau> = (th_stacks \<sigma>)[t := replicate k In_Handler @ In_Handler # th_stacks \<sigma> ! t]"
    using assms unfolding performed_def set_stack_def by auto
  then have "th_stacks \<tau> = (th_stacks \<sigma>)[t := replicate (Suc k) In_Handler @ th_stacks \<sigma> ! t]"
    by (simp add: replicate_app_Cons_same)
  then have "\<exists>k. th_stacks \<tau> = (th_stacks \<sigma>)[t := replicate k In_Handler @ th_stacks \<sigma> ! t]"
    by blast
  with assms(1) show ?thesis
    unfolding performed_def set_stack_def by auto
qed

lemma perform_ok:
  "t < length (th_stacks \<sigma>) \<Longrightarrow> tasks_sound assoc (posted calls) \<Longrightarrow>
   \<exists>\<tau>. perform inside inline t calls \<sigma> = Inr \<tau> \<and> performed t (posted calls) \<sigma> \<tau>"
proof (induction calls arbitrary: \<sigma> rule: posted.induct)
  case 1
  then show ?case by (auto intro: performed_refl)
next
  case (2 c x calls)
  have "tasks_sound assoc (posted calls)"
    using "2.prems"(2) by (simp add: tasks_sound_def)
  then obtain \<tau> where
    "perform inside inline t calls (\<sigma>\<lparr>th_tasks := th_tasks \<sigma> @ [(c, x)]\<rparr>) = Inr \<tau>"
    "performed t (posted calls) (\<sigma>\<lparr>th_tasks := th_tasks \<sigma> @ [(c, x)]\<rparr>) \<tau>"
    using "2.IH" [of "\<sigma>\<lparr>th_tasks := th_tasks \<sigma> @ [(c, x)]\<rparr>"] "2.prems"(1) by auto
  then show ?case
    by (auto dest: performed_task)
next
  case (3 c x calls)
  have sound: "task_sound assoc x" "tasks_sound assoc (posted calls)"
    using "3.prems" by (auto simp: tasks_sound_def)
  let ?called = "set_stack t (In_Handler # th_stacks \<sigma> ! t)
    (\<sigma>\<lparr>th_holding := cell_of (task_iterator x) @ th_holding \<sigma>,
       th_called := th_called \<sigma> @ [(task_handler x, task_code x, task_iterator x)]\<rparr>)"
  have "t < length (th_stacks ?called)"
    using "3.prems"(1) by (simp add: set_stack_def)
  then obtain \<tau> where inline: "perform inside inline t calls ?called = Inr \<tau>"
    "performed t (posted calls) ?called \<tau>"
    using "3.IH" [of ?called, OF _ sound(2)] by blast
  obtain \<tau>' where queued:
    "perform inside inline t calls (\<sigma>\<lparr>th_tasks := th_tasks \<sigma> @ [(c, x)]\<rparr>) = Inr \<tau>'"
    "performed t (posted calls) (\<sigma>\<lparr>th_tasks := th_tasks \<sigma> @ [(c, x)]\<rparr>) \<tau>'"
    using "3.IH" [of "\<sigma>\<lparr>th_tasks := th_tasks \<sigma> @ [(c, x)]\<rparr>"] "3.prems"(1) sound(2) by auto
  show ?case
    using inline(1) queued(1) performed_call [OF inline(2) "3.prems"(1)] performed_task [OF queued(2)]
    by (cases "inline \<and> inside t c") (auto simp: call_task_ok [OF sound(1)])
qed simp_all

subsection \<open>A step of one thread\<close>

definition went_well ::
  "('h \<Rightarrow> 'x) \<Rightarrow> 'h list \<Rightarrow> ('c, 'x, 'h, 'v) threads \<Rightarrow> ('c, 'x, 'h, 'v) threads result \<Rightarrow> bool"
where
  "went_well assoc hs \<sigma> r \<longleftrightarrow>
     (\<exists>\<tau>. r = Inr \<tau> \<and> threads_inv assoc \<tau> \<and> handlers_in \<tau> = handlers_in \<sigma> + mset hs
        \<and> length (th_stacks \<tau>) = length (th_stacks \<sigma>))"

lemma threads_inv_parts:
  assumes "threads_inv assoc \<sigma>"
  shows "async_inv assoc (th_pool \<sigma>)" "tasks_sound assoc (th_tasks \<sigma>)"
    "frames_sound assoc (th_stacks \<sigma>)"
    "cells_out \<sigma> = mset_set (async_lent (th_pool \<sigma>))" "mutex_ok \<sigma>"
  using assms unfolding threads_inv_def data_inv_def by blast+

lemma finite_lent [simp]: "finite (async_lent p)"
  by (simp add: async_lent_def)

lemma stack_ok_handlers:
  assumes "stack_ok owner t (gs @ rest)" "\<forall>g \<in> set gs. calling g" "\<forall>g \<in> set rest. calling g"
  shows "stack_ok owner t (replicate k In_Handler @ gs @ rest)"
proof (cases k)
  case (Suc n)
  then show ?thesis
    using assms by (auto simp: stack_ok_def calling_def)
qed (use assms in simp)

lemma frame_sound_handler [simp]: "frame_sound assoc In_Handler"
  by simp

lemma no_frames_of_handlers [simp]:
  "concat (map frame_cells (replicate k In_Handler)) = []"
  "concat (map frame_handlers (replicate k In_Handler)) = []"
  by (induction k) simp_all

lemma balance_cells:
  fixes f :: "'a multiset"
  assumes "fr' + f = fr + g" and "h' = h + c" and "l' + f = l + g + c" and "h + fr = l"
  shows "h' + fr' = l'"
proof -
  have "h' + fr' + f = h + c + (fr + g)"
    by (simp add: assms(2) add.assoc flip: assms(1))
  also have "\<dots> = h + fr + g + c"
    by (simp add: ac_simps)
  also have "\<dots> = l' + f"
    unfolding assms(3,4) ..
  finally show ?thesis by simp
qed

lemma balance_handlers:
  fixes f :: "'a multiset"
  assumes "fr' + f = fr + g" and "h' = h + c" and "w' + c + g = w + f"
  shows "fr' + w' + h' = fr + w + h"
proof -
  have "fr' + w' + h' + f = fr + g + w' + (h + c)"
    by (simp add: assms(2) ac_simps flip: assms(1))
  also have "\<dots> = fr + h + (w' + c + g)"
    by (simp add: ac_simps)
  also have "\<dots> = fr + w + h + f"
    unfolding assms(3) by (simp add: ac_simps)
  finally show ?thesis by simp
qed

definition moved ::
  "('c, 'x, 'h, 'v) async_pool \<Rightarrow> nat option \<Rightarrow> nat \<Rightarrow> ('c, 'x, 'h) frame list \<Rightarrow>
   ('c, 'x, 'h, 'v) threads \<Rightarrow> ('c, 'x, 'h, 'v) threads"
where
  "moved p owner t st \<sigma> = \<sigma>\<lparr>th_pool := p, th_owner := owner, th_stacks := (th_stacks \<sigma>)[t := st]\<rparr>"

lemma moved_simps [simp]:
  "set_stack t st \<sigma> = moved (th_pool \<sigma>) (th_owner \<sigma>) t st \<sigma>"
  "th_owner (moved p owner t st \<sigma>) = owner"
  "th_pool (moved p owner t st \<sigma>) = p"
  "th_owner (set_pool p \<sigma>) = th_owner \<sigma>"
  "th_pool (set_pool p \<sigma>) = p"
  "moved p owner t st (set_pool p' \<sigma>) = moved p owner t st \<sigma>"
  "moved p owner t st (\<sigma>\<lparr>th_owner := owner'\<rparr>) = moved p owner t st \<sigma>"
  "unlock (moved p owner t st \<sigma>) = moved p None t st \<sigma>"
  "moved p owner t st (moved p' owner' t st' \<sigma>) = moved p owner t st \<sigma>"
  by (cases \<sigma>; simp add: moved_def thread_defs)+

text \<open>
  The work horse: thread \<open>t\<close> replaces its innermost frame \<open>f\<close> by \<open>gs\<close>, the pool becomes \<open>p\<close>, and some
  calls are made. It is enough that cells and handlers balance.
\<close>

lemma advance:
  assumes inv: "threads_inv assoc \<sigma>" and t: "t < length (th_stacks \<sigma>)"
    and top: "th_stacks \<sigma> ! t = f # rest"
    and p: "async_inv assoc p" and gs: "\<forall>g \<in> set gs. frame_sound assoc g"
    and calls: "tasks_sound assoc (posted calls)"
    and cells: "mset_set (async_lent p) + mset (frame_cells f)
      = mset_set (async_lent (th_pool \<sigma>)) + mset (concat (map frame_cells gs))
        + mset (flight_cells (posted calls))"
    and handlers: "mset (waiting_handlers (waiting p)) + mset (task_handlers (posted calls))
        + mset (concat (map frame_handlers gs))
      = mset (waiting_handlers (waiting (th_pool \<sigma>))) + mset (frame_handlers f)"
    and mutex: "stack_ok owner t (gs @ rest)" "may_change (th_owner \<sigma>) t owner"
    and quiet: "posted calls = [] \<or> (\<forall>g \<in> set gs. calling g)"
  shows "went_well assoc [] \<sigma> (perform inside inline t calls
    (moved p owner t (gs @ rest) \<sigma>))"
proof -
  let ?\<sigma> = "moved p owner t (gs @ rest) \<sigma>"
  note parts = threads_inv_parts [OF inv]
  obtain k \<tau> where \<tau>: "perform inside inline t calls ?\<sigma> = Inr \<tau>" "th_pool \<tau> = p" "th_owner \<tau> = owner"
    "th_stacks \<tau> = (th_stacks \<sigma>)[t := replicate k In_Handler @ gs @ rest]"
    "set (th_tasks \<tau>) \<subseteq> set (th_tasks \<sigma>) \<union> set (posted calls)"
    "mset (th_holding \<tau>) + mset (flight_cells (th_tasks \<tau>))
      = mset (th_holding \<sigma>) + mset (flight_cells (th_tasks \<sigma>)) + mset (flight_cells (posted calls))"
    "mset (task_handlers (th_tasks \<tau>)) + mset (map fst (th_called \<tau>))
      = mset (task_handlers (th_tasks \<sigma>)) + mset (map fst (th_called \<sigma>)) + mset (task_handlers (posted calls))"
    "posted calls = [] \<longrightarrow> k = 0"
  proof (cases "posted calls = []")
    case True
    then show thesis
      by (intro that [of ?\<sigma> 0]) (simp_all add: perform_quiet moved_def)
  next
    case False
    obtain \<tau> where "perform inside inline t calls ?\<sigma> = Inr \<tau>" "performed t (posted calls) ?\<sigma> \<tau>"
      using perform_ok [of t ?\<sigma> assoc calls inside inline] t calls by (auto simp: moved_def)
    with False t show thesis
      unfolding performed_def by (auto simp: moved_def intro: that)
  qed
  let ?gs = "replicate k In_Handler @ gs"
  have frames: "mset (of_frames frame_cells (th_stacks \<tau>)) + mset (frame_cells f)
      = mset (of_frames frame_cells (th_stacks \<sigma>)) + mset (concat (map frame_cells gs))"
    "mset (of_frames frame_handlers (th_stacks \<tau>)) + mset (frame_handlers f)
      = mset (of_frames frame_handlers (th_stacks \<sigma>)) + mset (concat (map frame_handlers gs))"
    using of_frames_move [OF t top, of frame_cells ?gs] of_frames_move [OF t top, of frame_handlers ?gs]
    by (simp_all add: \<tau>(4))
  have cells': "cells_out \<tau> = mset_set (async_lent p)"
    using balance_cells [OF frames(1) \<tau>(6) cells] parts(4) by (simp add: cells_out_def)
  have handlers': "handlers_in \<tau> = handlers_in \<sigma>"
    using balance_handlers [OF frames(2) \<tau>(7) handlers] by (simp add: handlers_in_def \<tau>(2) add.assoc)
  have rest: "\<forall>g \<in> set rest. calling g"
    using parts(5) t top by (auto simp: mutex_ok_def stack_ok_def)
  have "stack_ok owner t (?gs @ rest)"
    using quiet \<tau>(8) stack_ok_handlers [OF mutex(1) _ rest, of k] mutex(1) by auto
  then have mutex': "mutex_ok \<tau>"
    using mutex(2) \<tau>(3,4) by (intro mutex_ok_step [OF parts(5) t, of \<tau> "?gs @ rest"]) simp_all
  have "\<forall>g \<in> set (replicate k In_Handler @ gs @ rest). frame_sound assoc g"
    using gs frames_sound_stack [OF parts(3) t] top by auto
  then have "frames_sound assoc (th_stacks \<tau>)"
    unfolding \<tau>(4) by (rule frames_sound_update [OF parts(3)])
  moreover have "tasks_sound assoc (th_tasks \<tau>)"
    using parts(2) calls \<tau>(5) unfolding tasks_sound_def by blast
  ultimately have "threads_inv assoc \<tau>"
    using p cells' mutex' by (simp add: threads_inv_def data_inv_def \<tau>(2))
  with \<tau>(1,4) handlers' show ?thesis
    by (auto simp: went_well_def)
qed

lemma top_frame_sound:
  assumes "threads_inv assoc \<sigma>" "t < length (th_stacks \<sigma>)" "th_stacks \<sigma> ! t = f # rest"
  shows "frame_sound assoc f"
  using frames_sound_stack [OF threads_inv_parts(3) [OF assms(1)] assms(2)] assms(3) by simp

lemma frame_cell_lent:
  assumes "threads_inv assoc \<sigma>" "t < length (th_stacks \<sigma>)" "th_stacks \<sigma> ! t = f # rest"
    and "cell \<in> set (frame_cells f)"
  shows "cell \<in> async_lent (th_pool \<sigma>)"
proof -
  have "f \<in> set (concat (th_stacks \<sigma>))"
    using nth_mem [OF assms(2)] assms(3) by (metis UN_I list.set_intros(1) set_concat)
  then have "cell \<in># cells_out \<sigma>"
    using assms(4) by (auto simp: cells_out_def of_frames_def)
  then show ?thesis
    using threads_inv_parts(4) [OF assms(1)] by simp
qed

lemma stack_ok_steps:
  assumes "stack_ok owner t (f # rest)"
  shows "in_mutex f \<Longrightarrow> owner = Some t"
    and "in_mutex f \<Longrightarrow> in_mutex g \<Longrightarrow> stack_ok owner t (g # rest)"
    and "in_mutex f \<Longrightarrow> \<not> in_mutex g \<Longrightarrow> stack_ok None t (g # rest)"
    and "in_mutex f \<Longrightarrow> stack_ok None t rest"
    and "\<not> in_mutex f \<Longrightarrow> \<not> in_mutex g \<Longrightarrow> stack_ok owner t (g # rest)"
    and "\<not> in_mutex f \<Longrightarrow> stack_ok owner t rest"
    and "\<not> in_mutex f \<Longrightarrow> owner = None \<Longrightarrow> in_mutex g \<Longrightarrow> stack_ok (Some t) t (g # rest)"
  using assms by (cases rest; auto simp: stack_ok_def split: if_splits)+

lemma may_change_simps [simp]:
  "may_change owner t owner"
  "may_change (Some t) t None"
  "may_change None t (Some t)"
  by (simp_all add: may_change_def)

lemma mset_lent_add: "c \<notin> async_lent p \<Longrightarrow> mset_set (insert c (async_lent p)) = add_mset c (mset_set (async_lent p))"
  by simp

lemma mset_lent_remove:
  "c \<in> async_lent p \<Longrightarrow> add_mset c (mset_set (async_lent p - {c})) = mset_set (async_lent p)"
  by (simp flip: mset_set.remove)

text \<open>Taking a request out of the queue of a pool.\<close>

lemma pool_pop:
  assumes "async_inv assoc p"
  obtains
    (none) q calls where "waiting p = []" "rq_pop (ap_queue p) = Inr (None, q, calls)"
      "posted (queue_calls calls) = []" "async_inv assoc (p\<lparr>ap_queue := q\<rparr>)" "rq_contents q = []"
  | (some) d c w q calls where "waiting p = (d, c, w) # rq_contents q"
      "rq_pop (ap_queue p) = Inr (Some (w, c), q, calls)" "posted (queue_calls calls) = []"
      "async_inv assoc (p\<lparr>ap_queue := q\<rparr>)" "wraps assoc w"
proof (cases "waiting p")
  case Nil
  then obtain q calls where "rq_pop (ap_queue p) = Inr (None, q, calls)" "rq_sound q"
    "posted calls = []" "rq_contents q = []"
    using requests.pop_empty [OF async_inv_parts(2) [OF assms]] by blast
  with Nil show thesis
    by (intro none [of q calls] async_inv_queue [OF assms]) simp_all
next
  case (Cons x xs)
  obtain d c w where x: "x = (d, c, w)" by (cases x)
  obtain q calls where "rq_pop (ap_queue p) = Inr (Some (w, c), q, calls)" "rq_sound q"
    "posted calls = []" "rq_contents q = xs"
    using requests.pop_oldest [OF async_inv_parts(2) [OF assms] Cons [unfolded x]] by blast
  with Cons x async_inv_parts(3) [OF assms] show thesis
    by (intro some [of d c w q calls] async_inv_queue [OF assms]) auto
qed

lemma tasks_sound_simps [simp]:
  "tasks_sound assoc []"
  "tasks_sound assoc ((c, x) # ts) \<longleftrightarrow> task_sound assoc x \<and> tasks_sound assoc ts"
  by (simp_all add: tasks_sound_def)

lemma async_lent_queue [simp]: "async_lent (p\<lparr>ap_queue := q\<rparr>) = async_lent p"
  by (simp add: async_lent_def)

lemma go_get:
  assumes inv: "threads_inv assoc \<sigma>" and t: "t < length (th_stacks \<sigma>)"
    and top: "th_stacks \<sigma> ! t = Locked (Op_Get c h d) # rest"
    and st: "stack_ok (th_owner \<sigma>) t (Locked (Op_Get c h d) # rest)"
  shows "went_well assoc [] \<sigma> (proceed assoc inside inline now t rest (Locked (Op_Get c h d)) \<sigma>)"
proof -
  note steps = stack_ok_steps [OF st, simplified]
  note adv = advance [OF inv t top, of _ _ _ None inside inline]
  from threads_inv_parts(1) [OF inv] show ?thesis
  proof (cases rule: async_get_locked_cases [where c = c and h = h and w = d and now = now])
    case disabled
    show ?thesis
      using adv [of "th_pool \<sigma>" "[]" "[Dispatch c (Get_Task
          (On_List_Iterator_Handler (make_error_code Disabled) Singular h))]"]
        threads_inv_parts(1) [OF inv] disabled(2) steps
      by (simp del: perform.simps)
  next
    case (leased s cell)
    show ?thesis
      using adv [of "(th_pool \<sigma>)\<lparr>ap_storage := s\<rparr>" "[]" "[Post c (Get_Task
          (On_List_Iterator_Handler no_error (Cell cell) h))]"] leased(3-) steps
      by (simp del: perform.simps)
  next
    case refused
    show ?thesis
      using adv [of "th_pool \<sigma>" "[]" "[Post c (Get_Task
          (On_List_Iterator_Handler (make_error_code Get_Resource_Timeout) Singular h))]"]
        threads_inv_parts(1) [OF inv] refused(4) steps
      by (simp del: perform.simps)
  next
    case waits
    show ?thesis
      using adv [of "th_pool \<sigma>" "[Pushing c h d]" "[]"] threads_inv_parts(1) [OF inv] waits(4) steps
      by simp
  qed
qed

lemma go_push:
  assumes inv: "threads_inv assoc \<sigma>" and t: "t < length (th_stacks \<sigma>)"
    and top: "th_stacks \<sigma> ! t = Pushing c h d # rest"
    and st: "stack_ok (th_owner \<sigma>) t (Pushing c h d # rest)"
  shows "went_well assoc [] \<sigma> (proceed assoc inside inline now t rest (Pushing c h d) \<sigma>)"
proof -
  obtain p calls where push: "async_get_push assoc c h d now (th_pool \<sigma>) = Inr (p, calls)"
    "async_inv assoc p" "ap_storage p = ap_storage (th_pool \<sigma>)"
    "posted calls = [] \<and> waiting p = waiting (th_pool \<sigma>) @ [(add now d, c, list_iterator_handler_of assoc h)]
     \<or> posted calls = [(c, Error_Task (On_Error_Handler (make_error_code Request_Queue_Overflow)
         (list_iterator_handler_of assoc h)))] \<and> waiting p = waiting (th_pool \<sigma>)"
    by (rule async_get_push_ok [OF threads_inv_parts(1) [OF inv], of c h d now]) metis
  have "async_lent p = async_lent (th_pool \<sigma>)"
    by (simp add: async_lent_def push(3))
  then show ?thesis
    using advance [OF inv t top push(2), of "[]" calls "th_owner \<sigma>" inside inline] push(1,4)
      stack_ok_steps(6) [OF st]
    by auto
qed

lemma go_keep:
  assumes inv: "threads_inv assoc \<sigma>" and t: "t < length (th_stacks \<sigma>)"
    and top: "th_stacks \<sigma> ! t = f # rest" and st: "stack_ok (th_owner \<sigma>) t (f # rest)"
    and f: "f = Keep_Recycle cell \<or> f = Keep_Waste cell"
  shows "went_well assoc [] \<sigma> (proceed assoc inside inline now t rest f \<sigma>)"
proof -
  let ?p = "th_pool \<sigma>"
  have lent: "cell \<in> async_lent ?p"
    using frame_cell_lent [OF inv t top] f by auto
  note store = async_inv_parts(1) [OF threads_inv_parts(1) [OF inv]]
  have f': "in_mutex f" "frame_cells f = [cell]" "frame_handlers f = []"
    using f by auto
  have stored: "went_well assoc [] \<sigma> (Inr (moved (?p\<lparr>ap_storage := s\<rparr>) None t rest \<sigma>))"
    if "storage_inv (ap_capacity ?p) s" "set (used_cells s) = async_lent ?p - {cell}" for s
  proof -
    have "async_inv assoc (?p\<lparr>ap_storage := s\<rparr>)"
      using threads_inv_parts(1) [OF inv] that(1) by (simp add: async_inv_def)
    then show ?thesis
      using advance [OF inv t top, of "?p\<lparr>ap_storage := s\<rparr>" "[]" "[]" None] f' stack_ok_steps(1,4) [OF st]
        mset_lent_remove [OF lent] that(2)
      by (simp add: async_lent_def)
  qed
  obtain s s' where "storage_recycle now (Cell cell) (ap_storage ?p) = Inr s" "storage_inv (ap_capacity ?p) s"
      "set (used_cells s) = async_lent ?p - {cell}"
    and "storage_waste (Cell cell) (ap_storage ?p) = Inr s'" "storage_inv (ap_capacity ?p) s'"
      "set (used_cells s') = async_lent ?p - {cell}"
    using cells.recycle_lent [OF store, of cell now] cells.waste_lent [OF store, of cell] lent
    by (auto simp: async_lent_def)
  with stored f show ?thesis
    by (auto simp: store_then_unlock_def)
qed

text \<open>The steps that take a request out of the queue.\<close>

lemma pop_then_eq:
  assumes "rq_pop (ap_queue (th_pool \<sigma>)) = Inr (r, q, calls)" and "posted (queue_calls calls) = []"
  shows "pop_then inside inline t k \<sigma> = k r (set_pool ((th_pool \<sigma>)\<lparr>ap_queue := q\<rparr>) \<sigma>)"
  by (simp add: pop_then_def assms(1) perform_quiet [OF assms(2)])

lemma go_recycle:
  assumes inv: "threads_inv assoc \<sigma>" and t: "t < length (th_stacks \<sigma>)"
    and top: "th_stacks \<sigma> ! t = Locked (Op_Recycle cell) # rest"
    and st: "stack_ok (th_owner \<sigma>) t (Locked (Op_Recycle cell) # rest)"
  shows "went_well assoc [] \<sigma> (proceed assoc inside inline now t rest (Locked (Op_Recycle cell)) \<sigma>)"
  using threads_inv_parts(1) [OF inv]
proof (cases rule: pool_pop)
  case (none q calls)
  show ?thesis
    using advance [OF inv t top none(4), of "[Keep_Recycle cell]" "[]" "th_owner \<sigma>"] none(1,5)
      stack_ok_steps(2) [OF st]
    by (simp add: pop_then_eq [OF none(2,3)])
next
  case (some d c w q calls)
  show ?thesis
    using advance [OF inv t top some(4), of "[Serve_Recycle cell w c]" "[]" "th_owner \<sigma>"] some(1,5)
      stack_ok_steps(2) [OF st]
    by (simp add: pop_then_eq [OF some(2,3)])
qed

lemma go_waste:
  assumes inv: "threads_inv assoc \<sigma>" and t: "t < length (th_stacks \<sigma>)"
    and top: "th_stacks \<sigma> ! t = Locked (Op_Waste cell) # rest"
    and st: "stack_ok (th_owner \<sigma>) t (Locked (Op_Waste cell) # rest)"
  shows "went_well assoc [] \<sigma> (proceed assoc inside inline now t rest (Locked (Op_Waste cell)) \<sigma>)"
  using threads_inv_parts(1) [OF inv]
proof (cases rule: pool_pop)
  case (none q calls)
  show ?thesis
    using advance [OF inv t top none(4), of "[Keep_Waste cell]" "[]" "th_owner \<sigma>"] none(1,5)
      stack_ok_steps(2) [OF st]
    by (simp add: pop_then_eq [OF none(2,3)])
next
  case (some d c w q calls)
  show ?thesis
    using advance [OF inv t top some(4), of "[Serving False cell w c]" "[]" None] some(1,5)
      stack_ok_steps(1,3) [OF st]
    by (simp add: pop_then_eq [OF some(2,3)])
qed

lemma go_disabling:
  assumes inv: "threads_inv assoc \<sigma>" and t: "t < length (th_stacks \<sigma>)"
    and top: "th_stacks \<sigma> ! t = Disabling # rest" and st: "stack_ok (th_owner \<sigma>) t (Disabling # rest)"
  shows "went_well assoc [] \<sigma> (proceed assoc inside inline now t rest Disabling \<sigma>)"
  using threads_inv_parts(1) [OF inv]
proof (cases rule: pool_pop)
  case (none q calls)
  show ?thesis
    using advance [OF inv t top none(4), of "[]" "[]" None] none(1,5) stack_ok_steps(1,4) [OF st]
    by (simp add: pop_then_eq [OF none(2,3)])
next
  case (some d c w q calls)
  let ?p = "(th_pool \<sigma>)\<lparr>ap_queue := q\<rparr>"
  have same: "set_pool ?p \<sigma> = moved ?p (th_owner \<sigma>) t (Disabling # rest) \<sigma>"
    by (simp add: set_pool_def moved_def flip: top)
  show ?thesis
    using advance [OF inv t top some(4), of "[Disabling]"
        "[Dispatch c (Error_Task (On_Error_Handler (make_error_code Disabled) w))]" "th_owner \<sigma>" inside inline]
      some(1,5) st
    by (simp add: pop_then_eq [OF some(2,3)] same calling_def del: perform.simps)
qed

lemma go_serve_recycle:
  assumes inv: "threads_inv assoc \<sigma>" and t: "t < length (th_stacks \<sigma>)"
    and top: "th_stacks \<sigma> ! t = Serve_Recycle cell w c # rest"
    and st: "stack_ok (th_owner \<sigma>) t (Serve_Recycle cell w c # rest)"
  shows "went_well assoc [] \<sigma> (proceed assoc inside inline now t rest (Serve_Recycle cell w c) \<sigma>)"
proof -
  have lent: "cell \<in> async_lent (th_pool \<sigma>)"
    using frame_cell_lent [OF inv t top] by simp
  then obtain valid where valid: "is_valid now (Cell cell) (ap_storage (th_pool \<sigma>)) = Inr valid"
    using is_valid_Cell [of cell "ap_storage (th_pool \<sigma>)"] used_cells_alive [of cell "ap_storage (th_pool \<sigma>)"]
    by (simp add: async_lent_def)
  show ?thesis
    using top_frame_sound [OF inv t top] advance [OF inv t top threads_inv_parts(1) [OF inv], of "[Serving valid cell w c]" "[]" None]
      stack_ok_steps(1,3) [OF st]
    by (simp add: valid)
qed

lemma go_serving:
  assumes inv: "threads_inv assoc \<sigma>" and t: "t < length (th_stacks \<sigma>)"
    and top: "th_stacks \<sigma> ! t = Serving valid cell w c # rest"
    and st: "stack_ok (th_owner \<sigma>) t (Serving valid cell w c # rest)"
  shows "went_well assoc [] \<sigma> (proceed assoc inside inline now t rest (Serving valid cell w c) \<sigma>)"
proof -
  let ?p = "th_pool \<sigma>" and ?s = "ap_storage (th_pool \<sigma>)"
  note a = threads_inv_parts(1) [OF inv]
  have lent: "cell \<in> async_lent ?p"
    using frame_cell_lent [OF inv t top] by simp
  obtain s where s: "(if valid then Inr ?s else update_cell (Cell cell) reset_value ?s) = Inr s"
    "storage_inv (ap_capacity ?p) s" "used_cells s = used_cells ?s"
    using async_inv_parts(1) [OF a] lent empty_cell_inv [of "ap_capacity ?p" ?s cell]
    by (cases valid) (auto simp: async_lent_def update_cell_empty)
  have "async_inv assoc (?p\<lparr>ap_storage := s\<rparr>)" "async_lent (?p\<lparr>ap_storage := s\<rparr>) = async_lent ?p"
    using a s(2,3) by (simp_all add: async_inv_def async_lent_def)
  then show ?thesis
    using top_frame_sound [OF inv t top] advance [OF inv t top, of "?p\<lparr>ap_storage := s\<rparr>" "[]"
        "[Post c (Serve_Task (On_Serve_Queued_Handler (Cell cell) w))]" "th_owner \<sigma>" inside inline]
      stack_ok_steps(6) [OF st]
    by (simp add: s(1) del: perform.simps)
qed

lemma proceed_ok:
  assumes inv: "threads_inv assoc \<sigma>" and t: "t < length (th_stacks \<sigma>)"
    and top: "th_stacks \<sigma> ! t = f # rest" and free: "wants_mutex f \<longrightarrow> th_owner \<sigma> = None"
  shows "went_well assoc [] \<sigma> (proceed assoc inside inline now t rest f \<sigma>)"
proof -
  note a = threads_inv_parts(1) [OF inv]
  have st: "stack_ok (th_owner \<sigma>) t (f # rest)"
    using threads_inv_parts(5) [OF inv] t top by (auto simp: mutex_ok_def)
  note adv = advance [OF inv t top, of _ _ "[]"]
  show ?thesis
  proof (cases f)
    case In_Handler
    then show ?thesis
      using adv [of "th_pool \<sigma>" "[]" "th_owner \<sigma>"] a stack_ok_steps(6) [OF st] by simp
  next
    case (Wants g)
    then show ?thesis
      using adv [of "th_pool \<sigma>" "[Locked g]" "Some t"] a stack_ok_steps(7) [OF st, of "Locked g"] free
      by (simp add: wants_mutex_def)
  next
    case (Locked g)
    note steps = stack_ok_steps [OF st]
    show ?thesis
    proof (cases g)
      case Op_Disable
      let ?p = "(th_pool \<sigma>)\<lparr>ap_disabled := True\<rparr>"
      have "async_inv assoc ?p" "async_lent ?p = async_lent (th_pool \<sigma>)"
        using a by (simp_all add: async_inv_def async_lent_def)
      then show ?thesis
        using adv [of ?p "[Disabling]" "th_owner \<sigma>"] steps(2) by (simp add: Locked Op_Disable)
    next
      case Op_Invalidate
      then show ?thesis
        using adv [of "async_invalidate (th_pool \<sigma>)" "[]" None] async_invalidate_ok [OF a] steps(1,4)
        by (simp add: Locked)
    next
      case Op_Stats
      then show ?thesis
        using adv [of "th_pool \<sigma>" "[]" None] a steps(1,4) by (simp add: Locked)
    qed (use go_get [OF inv t] go_recycle [OF inv t] go_waste [OF inv t] top st Locked in simp_all)
  next
    case (Keep_Recycle cell)
    then show ?thesis by (intro go_keep [OF inv t top st]) simp
  next
    case (Keep_Waste cell)
    then show ?thesis by (intro go_keep [OF inv t top st]) simp
  qed (use go_push [OF inv t] go_serve_recycle [OF inv t] go_serving [OF inv t] go_disabling [OF inv t]
      top st in simp_all)
qed

subsection \<open>Every event\<close>

lemma perform_tasks:
  "perform inside False t calls \<sigma> = Inr (\<sigma>\<lparr>th_tasks := th_tasks \<sigma> @ posted calls\<rparr>)"
  by (induction calls arbitrary: \<sigma> rule: posted.induct) auto

fun event_handlers :: "('c, 'h) thread_event \<Rightarrow> 'h list" where
  "event_handlers (Call t f) = op_handlers f"
| "event_handlers _ = []"

text \<open>The handlers given to the pool by some events.\<close>

definition given :: "('c, 'h) thread_event list \<Rightarrow> 'h list" where
  "given es = concat (map event_handlers es)"

declare given_def [exec]

lemma mset_fold_remove:
  "set (op_cells f) \<subseteq> set xs \<Longrightarrow> mset (fold remove1 (op_cells f) xs) + mset (op_cells f) = mset xs"
  by (cases f) simp_all

lemma call_ok:
  assumes inv: "threads_inv assoc \<sigma>" and step: "thread_step assoc inside (Call t f) \<sigma> = Some r"
  shows "went_well assoc (op_handlers f) \<sigma> r"
proof -
  let ?st = "th_stacks \<sigma> ! t"
  let ?\<tau> = "(\<sigma>\<lparr>th_holding := fold remove1 (op_cells f) (th_holding \<sigma>)\<rparr>)
    \<lparr>th_stacks := (th_stacks \<sigma>)[t := Wants f # ?st]\<rparr>"
  note parts = threads_inv_parts [OF inv]
  have t: "t < length (th_stacks \<sigma>)" and user: "in_user_code ?st"
    and held: "set (op_cells f) \<subseteq> set (th_holding \<sigma>)" and r: "r = Inr ?\<tau>"
    using step by (auto simp: set_stack_def simp del: moved_simps(1) split: if_splits)
  have ok: "stack_ok (th_owner \<sigma>) t ?st"
    using parts(5) t by (simp add: mutex_ok_def)
  have "stack_ok (th_owner \<sigma>) t (Wants f # ?st)"
    using ok user by (cases ?st) (auto simp: stack_ok_def in_user_code_def calling_def)
  then have "mutex_ok ?\<tau>"
    by (intro mutex_ok_step [OF parts(5) t, of _ "Wants f # ?st"]) simp_all
  moreover have "cells_out ?\<tau> = cells_out \<sigma>"
    using of_frames_update [OF t, of frame_cells "Wants f # ?st"] mset_fold_remove [OF held]
    by (simp add: cells_out_def ac_simps)
  moreover have "handlers_in ?\<tau> = handlers_in \<sigma> + mset (op_handlers f)"
    using of_frames_update [OF t, of frame_handlers "Wants f # ?st"]
    by (simp add: handlers_in_def ac_simps)
  moreover have "frames_sound assoc (th_stacks ?\<tau>)"
    using frames_sound_update [OF parts(3), of "Wants f # ?st"] frames_sound_stack [OF parts(3) t] by simp
  ultimately show ?thesis
    using parts by (simp add: went_well_def r threads_inv_def data_inv_def)
qed

lemma execute_ok:
  assumes inv: "threads_inv assoc \<sigma>" and step: "thread_step assoc inside (Execute t k) \<sigma> = Some r"
  shows "went_well assoc [] \<sigma> r"
proof -
  have t: "t < length (th_stacks \<sigma>)" "th_stacks \<sigma> ! t = []" and k: "k < length (th_tasks \<sigma>)"
    using step by (auto split: if_splits)
  obtain c x where x: "th_tasks \<sigma> ! k = (c, x)" by (cases "th_tasks \<sigma> ! k")
  note parts = threads_inv_parts [OF inv]
  have sound: "task_sound assoc x"
    using parts(2) nth_mem [OF k] by (auto simp: tasks_sound_def x)
  let ?\<tau> = "\<sigma>\<lparr>th_tasks := remove_nth k (th_tasks \<sigma>),
    th_holding := cell_of (task_iterator x) @ th_holding \<sigma>,
    th_called := th_called \<sigma> @ [(task_handler x, task_code x, task_iterator x)],
    th_stacks := (th_stacks \<sigma>)[t := [In_Handler]]\<rparr>"
  have r: "r = Inr ?\<tau>"
    using step t k by (auto simp: x call_task_ok [OF sound] set_stack_def simp del: moved_simps(1) split: if_splits)
  have "stack_ok (th_owner \<sigma>) t [In_Handler]"
    using parts(5) t by (auto simp: mutex_ok_def stack_ok_def)
  then have "mutex_ok ?\<tau>"
    by (intro mutex_ok_step [OF parts(5) t(1), of _ "[In_Handler]"]) simp_all
  moreover have "cells_out ?\<tau> = cells_out \<sigma>"
    using of_frames_update [OF t(1), of frame_cells "[In_Handler]"] flight_cells_remove_nth [OF k]
    by (simp add: cells_out_def x t(2))
  moreover have "handlers_in ?\<tau> = handlers_in \<sigma>"
    using of_frames_update [OF t(1), of frame_handlers "[In_Handler]"] mset_task_handlers_remove [OF k]
    by (simp add: handlers_in_def x t(2))
  moreover have "frames_sound assoc (th_stacks ?\<tau>)"
    using frames_sound_update [OF parts(3), of "[In_Handler]"] by simp
  moreover have "tasks_sound assoc (remove_nth k (th_tasks \<sigma>))"
    using parts(2) set_remove_nth [of k "th_tasks \<sigma>"] by (auto simp: tasks_sound_def)
  ultimately show ?thesis
    using parts by (simp add: went_well_def r threads_inv_def data_inv_def)
qed

lemma wait_ends_ok:
  assumes inv: "threads_inv assoc \<sigma>" and step: "thread_step assoc inside (Wait_Ends ec d) \<sigma> = Some r"
  shows "went_well assoc [] \<sigma> r"
proof -
  note parts = threads_inv_parts [OF inv]
  obtain p calls where op: "async_wait_done ec d (th_pool \<sigma>) = Inr (p, calls)" "async_inv assoc p"
    "posted calls = (if failed ec then [] else map expire (due d (waiting (th_pool \<sigma>))))"
    "waiting p = (if failed ec then waiting (th_pool \<sigma>)
       else filter (\<lambda>x. \<not> fst x \<le> d) (waiting (th_pool \<sigma>)))"
    "ap_storage p = ap_storage (th_pool \<sigma>)"
    by (rule async_wait_done_ok [OF parts(1), of ec d]) simp
  let ?\<tau> = "\<sigma>\<lparr>th_pool := p, th_tasks := th_tasks \<sigma> @ posted calls\<rparr>"
  have r: "r = Inr ?\<tau>"
    using step by (simp add: op(1) perform_tasks set_pool_def)
  have "\<forall>(e, c, w) \<in> set (due d (waiting (th_pool \<sigma>))). wraps assoc w"
    using async_inv_parts(3) [OF parts(1)] by (auto simp: due_def)
  then have "tasks_sound assoc (th_tasks ?\<tau>)"
    using parts(2) quiet_tasks_sound [of "due d (waiting (th_pool \<sigma>))" assoc]
    unfolding tasks_sound_def by (auto simp: op(3))
  moreover have "mutex_ok ?\<tau>"
    using parts(5) by (simp add: mutex_ok_def)
  moreover have "cells_out ?\<tau> = cells_out \<sigma>"
    by (simp add: cells_out_def op(3))
  moreover have "handlers_in ?\<tau> = handlers_in \<sigma>"
    using mset_due_later [of d "waiting (th_pool \<sigma>)"]
    by (simp add: handlers_in_def op(3,4)) (metis (no_types) add.assoc add.commute)
  moreover have "async_lent p = async_lent (th_pool \<sigma>)"
    by (simp add: async_lent_def op(5))
  ultimately show ?thesis
    using parts op(2) by (simp add: went_well_def r threads_inv_def data_inv_def)
qed

lemma thread_step_ok:
  assumes "threads_inv assoc \<sigma>" and "thread_step assoc inside e \<sigma> = Some r"
  shows "went_well assoc (event_handlers e) \<sigma> r"
proof (cases e)
  case (Go t inline now)
  with assms show ?thesis
    by (auto intro: proceed_ok split: if_splits list.splits)
qed (use assms call_ok execute_ok wait_ends_ok in \<open>simp_all del: thread_step.simps\<close>)

lemma thread_run_ok:
  "threads_inv assoc \<sigma> \<Longrightarrow> thread_run assoc inside es \<sigma> = Some r \<Longrightarrow> went_well assoc (given es) \<sigma> r"
proof (induction es arbitrary: \<sigma>)
  case Nil
  then show ?case by (auto simp: went_well_def given_def)
next
  case (Cons e es)
  obtain s where s: "thread_step assoc inside e \<sigma> = Some s"
    using Cons.prems(2) by (auto split: option.splits)
  obtain \<tau> where \<tau>: "s = Inr \<tau>" "threads_inv assoc \<tau>"
    "handlers_in \<tau> = handlers_in \<sigma> + mset (event_handlers e)"
    "length (th_stacks \<tau>) = length (th_stacks \<sigma>)"
    using thread_step_ok [OF Cons.prems(1) s] by (auto simp: went_well_def)
  have "went_well assoc (given es) \<tau> r"
    using Cons.IH [OF \<tau>(2)] Cons.prems(2) s \<tau>(1) by simp
  with \<tau> show ?case
    by (auto simp: went_well_def given_def add.assoc)
qed

lemma threads_start_inv:
  assumes "async_pool_create n k timeout life = Inr p"
  shows "threads_inv assoc (threads_start m p)" "handlers_in (threads_start m p) = {#}"
  using async_create_inv(1) [OF assms, of assoc] async_create_inv(2,3) [OF assms]
  by (auto simp: threads_start_def threads_inv_def data_inv_def mutex_ok_def stack_ok_def cells_out_def
      handlers_in_def of_frames_def frames_sound_def)

end
