(* ===== verification/Async_Thread_Guarantees.thy ===== *)
theory Async_Thread_Guarantees
  imports Async_Thread_Safety Async_Guarantees
begin

text \<open>
  What follows for callers of the asynchronous pool on threads: an operation that nobody interrupts does
  what the one-step operations of \<open>Async_Pool_Impl\<close> do, and safety under every interleaving of the
  steps.
\<close>

subsection \<open>A run\<close>

text \<open>
  A concrete run. Threads 1 and 2, outside of the I/O context, get and queue; thread 0 runs the context,
  calls the first handler and disables the pool from it; the second handler is called at once.
\<close>

definition demo_inside :: "nat \<Rightarrow> string \<Rightarrow> bool" where
  "demo_inside t c \<longleftrightarrow> t = 0"

definition demo_threads :: "(string, nat, nat, nat) threads" where
  "demo_threads = threads_start 3 demo_async"

definition demo_queued :: "(string, nat) thread_event list" where
  "demo_queued =
     (let d = Duration 9; now = Time_Point 1 in
      [Call 1 (Op_Get ''a'' 1 d), Go 1 False now, Go 1 False now,
       Call 2 (Op_Get ''b'' 2 d), Go 2 False now, Go 2 False now, Go 2 False now, Execute 0 0])"

definition demo_disabling :: "(string, nat) thread_event list" where
  "demo_disabling =
     (let now = Time_Point 2 in demo_queued @
      [Call 0 Op_Disable, Go 0 False now, Go 0 False now, Go 0 True now, Call 0 (Op_Recycle 0)])"

declare demo_inside_def [exec] demo_threads_def [exec] demo_queued_def [exec] demo_disabling_def [exec]

text \<open>What a run shows of the state it ends in.\<close>

definition shows_of ::
  "(('c, 'x, 'h, 'v) threads \<Rightarrow> 'a) \<Rightarrow> ('c, 'x, 'h, 'v) threads result option \<Rightarrow> 'a result option"
where
  "shows_of f r = map_option (map_sum id f) r"

declare shows_of_def [exec]

lemma shows_ofE:
  assumes "shows_of f r = Some (Inr y)"
  obtains \<sigma> where "r = Some (Inr \<sigma>)" "f \<sigma> = y"
  using assms by (cases r; cases "the r") (auto simp: shows_of_def)

lemma demo_disabling_shows:
  "shows_of (\<lambda>\<sigma>. (th_owner \<sigma>, th_holding \<sigma>, map fst (th_called \<sigma>), th_stacks \<sigma>))
     (thread_run demo_assoc demo_inside demo_disabling demo_threads)
   = Some (Inr (Some 0, [], [1, 2], [[Wants (Op_Recycle 0), In_Handler, Disabling, In_Handler], [], []]))"
  by code_simp

subsection \<open>An operation that nobody interrupts\<close>

fun atomic_op ::
  "('h \<Rightarrow> 'x) \<Rightarrow> time_point \<Rightarrow> ('c, 'h) pool_op \<Rightarrow> ('c, 'x, 'h, 'v) async_pool \<Rightarrow>
   (('c, 'x, 'h, 'v) async_pool \<times> ('c, 'x, 'h) pool_calls) result"
where
  "atomic_op assoc now (Op_Get c h d) p = async_get assoc c h d now now p"
| "atomic_op assoc now (Op_Recycle cell) p = async_recycle now (Cell cell) p"
| "atomic_op assoc now (Op_Waste cell) p = async_waste (Cell cell) p"
| "atomic_op assoc now Op_Disable p = async_disable p"
| "atomic_op assoc now Op_Invalidate p = Inr (async_invalidate p, [])"
| "atomic_op assoc now Op_Stats p = Inr (p, [])"

definition goes ::
  "('h \<Rightarrow> 'x) \<Rightarrow> (nat \<Rightarrow> 'c \<Rightarrow> bool) \<Rightarrow> time_point \<Rightarrow> nat \<Rightarrow> nat \<Rightarrow> ('c, 'x, 'h, 'v) threads \<Rightarrow>
   ('c, 'x, 'h, 'v) threads \<Rightarrow> bool"
where
  "goes assoc inside now t n \<sigma> \<tau> \<longleftrightarrow>
     thread_run assoc inside (replicate n (Go t False now)) \<sigma> = Some (Inr \<tau>)"

lemma go_step:
  "t < length (th_stacks \<sigma>) \<Longrightarrow> th_stacks \<sigma> ! t = f # rest \<Longrightarrow> \<not> wants_mutex f \<or> th_owner \<sigma> = None \<Longrightarrow>
   thread_step assoc inside (Go t inline now) \<sigma> = Some (proceed assoc inside inline now t rest f \<sigma>)"
  by auto

lemma goes_Suc:
  assumes "t < length (th_stacks \<sigma>)" "th_stacks \<sigma> ! t = f # rest"
    and "\<not> wants_mutex f \<or> th_owner \<sigma> = None"
    and "proceed assoc inside False now t rest f \<sigma> = Inr \<rho>" and "goes assoc inside now t n \<rho> \<tau>"
  shows "goes assoc inside now t (Suc n) \<sigma> \<tau>"
  using assms by (auto simp: goes_def)

lemma goes_0: "goes assoc inside now t 0 \<sigma> \<sigma>"
  by (simp add: goes_def)

text \<open>The state after an operation: the pool, the rest of the stack and the new tasks.\<close>

definition completed ::
  "nat \<Rightarrow> ('c, 'x, 'h) frame list \<Rightarrow> ('c, 'x, 'h, 'v) async_pool \<Rightarrow> ('c, 'x, 'h) pool_calls \<Rightarrow>
   ('c, 'x, 'h, 'v) threads \<Rightarrow> ('c, 'x, 'h, 'v) threads"
where
  "completed t rest p calls \<sigma> =
     moved p None t rest (\<sigma>\<lparr>th_tasks := th_tasks \<sigma> @ posted calls\<rparr>)"

lemma moved_tasks [simp]:
  "(moved p owner t st \<sigma>)\<lparr>th_tasks := ts\<rparr> = moved p owner t st (\<sigma>\<lparr>th_tasks := ts\<rparr>)"
  "th_tasks (moved p owner t st \<sigma>) = th_tasks \<sigma>"
  "th_stacks (moved p owner t st \<sigma>) = (th_stacks \<sigma>)[t := st]"
  "moved p owner t st (\<sigma>\<lparr>th_pool := p', th_tasks := ts\<rparr>) = moved p owner t st (\<sigma>\<lparr>th_tasks := ts\<rparr>)"
  by (cases \<sigma>; simp add: moved_def)+

lemma pop_then_tasks:
  "pop_then inside False t k \<sigma> =
     and_then (rq_pop (ap_queue (th_pool \<sigma>))) (\<lambda>(queued, q, calls).
       k queued (\<sigma>\<lparr>th_pool := (th_pool \<sigma>)\<lparr>ap_queue := q\<rparr>,
                   th_tasks := th_tasks \<sigma> @ posted (queue_calls calls)\<rparr>))"
  by (auto simp: pop_then_def and_then_def perform_tasks set_pool_def split: sum.splits)

lemma disabling_alone:
  "refuse_queued q = Inr (q', calls) \<Longrightarrow> ap_queue (th_pool \<sigma>) = q \<Longrightarrow> t < length (th_stacks \<sigma>) \<Longrightarrow>
   th_stacks \<sigma> ! t = Disabling # rest \<Longrightarrow>
   \<exists>m. goes assoc inside now t m \<sigma> (completed t rest ((th_pool \<sigma>)\<lparr>ap_queue := q'\<rparr>) calls \<sigma>)"
proof (induction "length (rq_ordered q)" arbitrary: q \<sigma> q' calls rule: less_induct)
  case less
  obtain queued q1 calls1 where pop: "rq_pop q = Inr (queued, q1, calls1)"
    using less.prems(1) by (cases "rq_pop q") (auto simp: refuse_queued.simps [of q])
  have free: "\<not> wants_mutex Disabling"
    by (simp add: wants_mutex_def)
  note go = goes_Suc [OF less.prems(3,4) disjI1 [OF free]]
  let ?\<rho> = "\<sigma>\<lparr>th_pool := (th_pool \<sigma>)\<lparr>ap_queue := q1\<rparr>,
    th_tasks := th_tasks \<sigma> @ posted (queue_calls calls1)\<rparr>"
  show ?case
  proof (cases queued)
    case None
    with pop less.prems(1) have out: "q' = q1" "calls = queue_calls calls1"
      by (simp_all add: refuse_queued.simps [of q])
    have "proceed assoc inside False now t rest Disabling \<sigma>
        = Inr (completed t rest ((th_pool \<sigma>)\<lparr>ap_queue := q'\<rparr>) calls \<sigma>)"
      by (simp add: pop_then_tasks less.prems(2) pop None out completed_def del: posted_queue_calls)
    from go [OF this goes_0] show ?thesis by blast
  next
    case (Some x)
    obtain w c where x: "x = (w, c)" by (cases x)
    obtain q2 calls2 where rest: "refuse_queued q1 = Inr (q2, calls2)"
      using less.prems(1) pop by (cases "refuse_queued q1") (auto simp: refuse_queued.simps [of q] Some x)
    let ?refused = "(c, Error_Task (On_Error_Handler (make_error_code Disabled) w))"
    have out: "q' = q2" "posted calls = posted (queue_calls calls1) @ ?refused # posted calls2"
      using less.prems(1) pop rest by (auto simp: refuse_queued.simps [of q] Some x)
    let ?\<rho>' = "?\<rho>\<lparr>th_tasks := th_tasks ?\<rho> @ [?refused]\<rparr>"
    have "proceed assoc inside False now t rest Disabling \<sigma> = Inr ?\<rho>'"
      by (simp add: pop_then_tasks less.prems(2) pop Some x)
    moreover obtain m where
      "goes assoc inside now t m ?\<rho>' (completed t rest ((th_pool ?\<rho>')\<lparr>ap_queue := q2\<rparr>) calls2 ?\<rho>')"
      using less.hyps [OF rq_pop_shrinks [OF pop [unfolded Some]] rest, of ?\<rho>'] less.prems(3,4) by auto
    moreover have "completed t rest ((th_pool ?\<rho>')\<lparr>ap_queue := q2\<rparr>) calls2 ?\<rho>'
        = completed t rest ((th_pool \<sigma>)\<lparr>ap_queue := q'\<rparr>) calls \<sigma>"
      by (cases \<sigma>) (simp add: completed_def moved_def out)
    ultimately show ?thesis
      using go by metis
  qed
qed

lemma goes_in:
  assumes t: "t < length (th_stacks \<sigma>)" and top: "th_stacks \<sigma> ! t = Wants f # rest"
    and free: "th_owner \<sigma> = None"
    and locked: "proceed assoc inside False now t rest (Locked f)
        (set_stack t (Locked f # rest) (\<sigma>\<lparr>th_owner := Some t\<rparr>)) = Inr \<rho>"
    and rest: "goes assoc inside now t n \<rho> \<tau>"
  shows "goes assoc inside now t (Suc (Suc n)) \<sigma> \<tau>"
proof -
  let ?\<rho> = "set_stack t (Locked f # rest) (\<sigma>\<lparr>th_owner := Some t\<rparr>)"
  have "th_stacks ?\<rho> ! t = Locked f # rest" "t < length (th_stacks ?\<rho>)"
    using t by (simp_all add: set_stack_def del: moved_simps)
  from goes_Suc [OF this(2,1) _ locked rest] show ?thesis
    using free by (intro goes_Suc [OF t top, where \<rho> = ?\<rho>]) (simp_all add: wants_mutex_def)
qed

lemma wants_mutex_simps [simp]:
  "wants_mutex (Wants f)"
  "\<not> wants_mutex In_Handler" "\<not> wants_mutex (Locked f)" "\<not> wants_mutex (Pushing c h d)"
  "\<not> wants_mutex (Keep_Recycle cell)" "\<not> wants_mutex (Keep_Waste cell)"
  "\<not> wants_mutex (Serve_Recycle cell w c)" "\<not> wants_mutex (Serving valid cell w c)"
  "\<not> wants_mutex Disabling"
  by (simp_all add: wants_mutex_def)

lemma goes_in_ex:
  assumes "goes assoc inside now t n \<rho> \<tau>" and "t < length (th_stacks \<sigma>)"
    and "th_stacks \<sigma> ! t = Wants f # rest" and "th_owner \<sigma> = None"
    and "proceed assoc inside False now t rest (Locked f)
        (set_stack t (Locked f # rest) (\<sigma>\<lparr>th_owner := Some t\<rparr>)) = Inr \<rho>"
  shows "\<exists>m. goes assoc inside now t m \<sigma> \<tau>"
  using goes_in [OF assms(2-5,1)] by blast

lemma goes_one:
  assumes "t < length (th_stacks \<sigma>)" "th_stacks \<sigma> ! t = f # rest" "\<not> wants_mutex f"
    and "proceed assoc inside False now t rest f \<sigma> = Inr \<tau>"
  shows "goes assoc inside now t 1 \<sigma> \<tau>"
  using goes_Suc [OF assms(1,2) disjI1 [OF assms(3)] assms(4) goes_0] by simp

text \<open>A locked region of one step, and one that leaves a frame behind that takes one more.\<close>

lemma goes_locked:
  assumes "t < length (th_stacks \<sigma>)" "th_stacks \<sigma> ! t = Wants f # rest" "th_owner \<sigma> = None"
    and "proceed assoc inside False now t rest (Locked f)
        (set_stack t (Locked f # rest) (\<sigma>\<lparr>th_owner := Some t\<rparr>)) = Inr \<tau>"
  shows "\<exists>m. goes assoc inside now t m \<sigma> \<tau>"
  using goes_in [OF assms goes_0] by blast

lemma goes_locked_then:
  assumes "t < length (th_stacks \<sigma>)" "th_stacks \<sigma> ! t = Wants f # rest" "th_owner \<sigma> = None"
    and "proceed assoc inside False now t rest (Locked f)
        (set_stack t (Locked f # rest) (\<sigma>\<lparr>th_owner := Some t\<rparr>)) = Inr \<rho>"
    and "th_stacks \<rho> = (th_stacks \<sigma>)[t := g # rest]" "\<not> wants_mutex g"
    and "proceed assoc inside False now t rest g \<rho> = Inr \<tau>"
  shows "\<exists>m. goes assoc inside now t m \<sigma> \<tau>"
  using goes_in [OF assms(1-4) goes_one [of t \<rho> g rest, OF _ _ assms(6,7)]] assms(1,5) by auto

lemma get_alone:
  assumes t: "t < length (th_stacks \<sigma>)" and top: "th_stacks \<sigma> ! t = Wants (Op_Get c h d) # rest"
    and free: "th_owner \<sigma> = None"
    and op: "async_get assoc c h d now now (th_pool \<sigma>) = Inr (p, calls)"
  shows "\<exists>m. goes assoc inside now t m \<sigma> (completed t rest p calls \<sigma>)"
proof -
  obtain p1 r where locked: "async_get_locked c h d now (th_pool \<sigma>) = (p1, r)"
    by (cases "async_get_locked c h d now (th_pool \<sigma>)")
  show ?thesis
  proof (cases r)
    case (Some calls1)
    with op locked have "p = p1" "calls = calls1"
      by (simp_all add: async_get_def)
    with locked Some show ?thesis
      by (intro goes_locked [OF t top free]) (simp add: perform_tasks completed_def)
  next
    case None
    have push: "async_get_push assoc c h d now p1 = Inr (p, calls)"
      using op locked None by (simp add: async_get_def)
    show ?thesis
      by (rule goes_locked_then [OF t top free, where g = "Pushing c h d"
            and \<rho> = "moved p1 None t (Pushing c h d # rest) \<sigma>"])
        (simp_all add: locked None push perform_tasks completed_def wants_mutex_def)
  qed
qed

lemma pool_updates [simp]:
  "(p :: ('c, 'x, 'h, 'v) async_pool)\<lparr>ap_queue := q, ap_storage := s\<rparr> = p\<lparr>ap_storage := s, ap_queue := q\<rparr>"
  "p\<lparr>ap_disabled := b, ap_queue := q\<rparr> = p\<lparr>ap_queue := q, ap_disabled := b\<rparr>"
  by (cases p; simp)+

lemma serving_alone:
  assumes "t < length (th_stacks \<sigma>)"
    and "(if valid then Inr (ap_storage p) else update_cell (Cell cell) reset_value (ap_storage p)) = Inr s"
  shows "goes assoc inside now t 1 (moved p owner t (Serving valid cell w c # rest) \<sigma>)
    (moved (p\<lparr>ap_storage := s\<rparr>) owner t rest (\<sigma>\<lparr>th_tasks := th_tasks \<sigma>
       @ [(c, Serve_Task (On_Serve_Queued_Handler (Cell cell) w))]\<rparr>))"
  by (rule goes_one [where f = "Serving valid cell w c"]) (use assms in \<open>cases valid; auto\<close>)+

lemma recycle_alone:
  assumes t: "t < length (th_stacks \<sigma>)" and top: "th_stacks \<sigma> ! t = Wants (Op_Recycle cell) # rest"
    and free: "th_owner \<sigma> = None"
    and op: "async_recycle now (Cell cell) (th_pool \<sigma>) = Inr (p, calls)"
  shows "\<exists>m. goes assoc inside now t m \<sigma> (completed t rest p calls \<sigma>)"
proof -
  obtain queued q calls1 where pop: "rq_pop (ap_queue (th_pool \<sigma>)) = Inr (queued, q, calls1)"
    using op by (auto simp: async_recycle_def and_then_Inr_iff)
  let ?\<sigma> = "\<sigma>\<lparr>th_tasks := th_tasks \<sigma> @ posted (queue_calls calls1)\<rparr>"
  let ?q = "(th_pool \<sigma>)\<lparr>ap_queue := q\<rparr>"
  show ?thesis
  proof (cases queued)
    case None
    then obtain s where s: "storage_recycle now (Cell cell) (ap_storage (th_pool \<sigma>)) = Inr s"
      "p = (th_pool \<sigma>)\<lparr>ap_storage := s, ap_queue := q\<rparr>" "calls = queue_calls calls1"
      using op pop by (auto simp: async_recycle_def and_then_Inr_iff)
    show ?thesis
      by (rule goes_locked_then [OF t top free, where g = "Keep_Recycle cell"
            and \<rho> = "moved ?q (Some t) t (Keep_Recycle cell # rest) ?\<sigma>"])
        (simp_all add: pop_then_tasks pop None s store_then_unlock_def completed_def
          del: posted_queue_calls)
  next
    case (Some x)
    obtain w c where x: "x = (w, c)" by (cases x)
    obtain valid s where s: "is_valid now (Cell cell) (ap_storage (th_pool \<sigma>)) = Inr valid"
      "(if valid then Inr (ap_storage (th_pool \<sigma>))
        else update_cell (Cell cell) reset_value (ap_storage (th_pool \<sigma>))) = Inr s"
      "p = (th_pool \<sigma>)\<lparr>ap_storage := s, ap_queue := q\<rparr>"
      "calls = queue_calls calls1 @ [Post c (Serve_Task (On_Serve_Queued_Handler (Cell cell) w))]"
      using op pop Some x by (auto simp: async_recycle_def and_then_Inr_iff)
    have same: "ap_storage ?q = ap_storage (th_pool \<sigma>)" by simp
    have "goes assoc inside now t 1 (moved ?q None t (Serving valid cell w c # rest) ?\<sigma>)
        (completed t rest p calls \<sigma>)"
      using serving_alone [of t ?\<sigma> valid ?q cell s, unfolded same] t s(2)
      by (simp add: s(3,4) completed_def del: posted_queue_calls)
    then have "goes assoc inside now t (Suc 1)
        (moved ?q (Some t) t (Serve_Recycle cell w c # rest) ?\<sigma>) (completed t rest p calls \<sigma>)"
      by (rule goes_Suc [where f = "Serve_Recycle cell w c", rotated 4]) (simp_all add: t s(1))
    then show ?thesis
      by (rule goes_in_ex [OF _ t top free]) (simp add: pop_then_tasks pop Some x)
  qed
qed

lemma waste_alone:
  assumes t: "t < length (th_stacks \<sigma>)" and top: "th_stacks \<sigma> ! t = Wants (Op_Waste cell) # rest"
    and free: "th_owner \<sigma> = None"
    and op: "async_waste (Cell cell) (th_pool \<sigma>) = Inr (p, calls)"
  shows "\<exists>m. goes assoc inside now t m \<sigma> (completed t rest p calls \<sigma>)"
proof -
  obtain queued q calls1 where pop: "rq_pop (ap_queue (th_pool \<sigma>)) = Inr (queued, q, calls1)"
    using op by (auto simp: async_waste_def and_then_Inr_iff)
  let ?\<sigma> = "\<sigma>\<lparr>th_tasks := th_tasks \<sigma> @ posted (queue_calls calls1)\<rparr>"
  let ?q = "(th_pool \<sigma>)\<lparr>ap_queue := q\<rparr>"
  show ?thesis
  proof (cases queued)
    case None
    then obtain s where s: "storage_waste (Cell cell) (ap_storage (th_pool \<sigma>)) = Inr s"
      "p = (th_pool \<sigma>)\<lparr>ap_storage := s, ap_queue := q\<rparr>" "calls = queue_calls calls1"
      using op pop by (auto simp: async_waste_def and_then_Inr_iff)
    show ?thesis
      by (rule goes_locked_then [OF t top free, where g = "Keep_Waste cell"
            and \<rho> = "moved ?q (Some t) t (Keep_Waste cell # rest) ?\<sigma>"])
        (simp_all add: pop_then_tasks pop None s store_then_unlock_def completed_def
          del: posted_queue_calls)
  next
    case (Some x)
    obtain w c where x: "x = (w, c)" by (cases x)
    obtain s where s: "(if False then Inr (ap_storage (th_pool \<sigma>))
        else update_cell (Cell cell) reset_value (ap_storage (th_pool \<sigma>))) = Inr s"
      "p = (th_pool \<sigma>)\<lparr>ap_storage := s, ap_queue := q\<rparr>"
      "calls = queue_calls calls1 @ [Post c (Serve_Task (On_Serve_Queued_Handler (Cell cell) w))]"
      using op pop Some x by (auto simp: async_waste_def and_then_Inr_iff)
    have "goes assoc inside now t 1 (moved ?q None t (Serving False cell w c # rest) ?\<sigma>)
        (completed t rest p calls \<sigma>)"
      using serving_alone [of t ?\<sigma> False ?q cell s] t s(1)
      by (simp add: s(2,3) completed_def del: posted_queue_calls)
    then show ?thesis
      by (rule goes_in_ex [OF _ t top free]) (simp add: pop_then_tasks pop Some x)
  qed
qed

lemma disable_alone:
  assumes t: "t < length (th_stacks \<sigma>)" and top: "th_stacks \<sigma> ! t = Wants Op_Disable # rest"
    and free: "th_owner \<sigma> = None" and op: "async_disable (th_pool \<sigma>) = Inr (p, calls)"
  shows "\<exists>m. goes assoc inside now t m \<sigma> (completed t rest p calls \<sigma>)"
proof -
  obtain q where q: "refuse_queued (ap_queue (th_pool \<sigma>)) = Inr (q, calls)"
    "p = (th_pool \<sigma>)\<lparr>ap_queue := q, ap_disabled := True\<rparr>"
    using op by (auto simp: async_disable_def and_then_Inr_iff)
  let ?\<rho> = "moved ((th_pool \<sigma>)\<lparr>ap_disabled := True\<rparr>) (Some t) t (Disabling # rest) \<sigma>"
  obtain m where "goes assoc inside now t m ?\<rho> (completed t rest ((th_pool ?\<rho>)\<lparr>ap_queue := q\<rparr>) calls ?\<rho>)"
    using disabling_alone [OF q(1), of ?\<rho> t rest assoc inside now] t by auto
  moreover have "completed t rest ((th_pool ?\<rho>)\<lparr>ap_queue := q\<rparr>) calls ?\<rho> = completed t rest p calls \<sigma>"
    by (simp add: completed_def q(2))
  ultimately show ?thesis
    by (intro goes_in_ex [OF _ t top free]) simp_all
qed

text \<open>
  C20. The steps of an operation that runs without interruption, and whose handlers are posted, amount
  to the operation in one piece: starting with the mutex free, a thread that wants to get or give back
  a cell, disable or invalidate the pool needs finitely many steps, after which the pool and the tasks
  are those that the operation of the implementation computes, and the mutex is free again.
\<close>

theorem operation_alone_is_atomic:
  assumes "t < length (th_stacks \<sigma>)" and "th_stacks \<sigma> ! t = Wants f # rest" and "th_owner \<sigma> = None"
    and "atomic_op assoc now f (th_pool \<sigma>) = Inr (p, calls)"
  shows "\<exists>m. thread_run assoc inside (replicate m (Go t False now)) \<sigma> = Some (Inr (\<sigma>\<lparr>th_pool := p,
    th_stacks := (th_stacks \<sigma>)[t := rest], th_tasks := th_tasks \<sigma> @ posted calls\<rparr>))"
proof -
  have "\<exists>m. goes assoc inside now t m \<sigma> (completed t rest p calls \<sigma>)"
  proof (cases f)
    case Op_Invalidate
    with assms show ?thesis
      by (intro goes_locked [OF assms(1,2,3)]) (simp add: completed_def)
  next
    case Op_Stats
    with assms show ?thesis
      by (intro goes_locked [OF assms(1,2,3)]) (simp add: completed_def)
  qed (use assms get_alone recycle_alone waste_alone disable_alone in auto)
  moreover have "completed t rest p calls \<sigma> = \<sigma>\<lparr>th_pool := p,
      th_stacks := (th_stacks \<sigma>)[t := rest], th_tasks := th_tasks \<sigma> @ posted calls\<rparr>"
    using assms(3) by (cases \<sigma>) (simp add: completed_def moved_def)
  ultimately show ?thesis
    by (auto simp: goes_def)
qed

theorem operation_alone_is_atomic_witness:
  "\<exists>m \<sigma> p calls \<tau>. thread_run demo_assoc demo_inside (demo_queued @ [Call 0 (Op_Recycle 0)]) demo_threads
      = Some (Inr \<sigma>)
    \<and> async_recycle (Time_Point 3) (Cell 0) (th_pool \<sigma>) = Inr (p, calls)
    \<and> thread_run demo_assoc demo_inside (replicate m (Go 0 False (Time_Point 3))) \<sigma> = Some (Inr \<tau>)
    \<and> th_pool \<tau> = p \<and> th_tasks \<tau> = posted calls \<and> length (th_tasks \<tau>) = 1"
proof -
  let ?run = "thread_run demo_assoc demo_inside (demo_queued @ [Call 0 (Op_Recycle 0)]) demo_threads"
  let ?op = "\<lambda>\<sigma>. async_recycle (Time_Point 3) (Cell 0) (th_pool \<sigma>)"
  have "shows_of (\<lambda>\<sigma>. (th_owner \<sigma>, th_stacks \<sigma>, map fst (th_tasks \<sigma>),
      map_sum id (\<lambda>(p, calls). length (posted calls)) (?op \<sigma>))) ?run
    = Some (Inr (None, [[Wants (Op_Recycle 0), In_Handler], [], []], [], Inr 1))"
    by code_simp
  then obtain \<sigma> where run: "?run = Some (Inr \<sigma>)" and \<sigma>: "th_owner \<sigma> = None" "th_tasks \<sigma> = []"
    "th_stacks \<sigma> = [[Wants (Op_Recycle 0), In_Handler], [], []]"
    "map_sum id (\<lambda>(p, calls). length (posted calls)) (?op \<sigma>) = Inr 1"
    by (auto elim!: shows_ofE)
  then obtain p calls where op: "?op \<sigma> = Inr (p, calls)" "length (posted calls) = 1"
    by (cases "?op \<sigma>") auto
  obtain m where "thread_run demo_assoc demo_inside (replicate m (Go 0 False (Time_Point 3))) \<sigma>
      = Some (Inr (\<sigma>\<lparr>th_pool := p, th_stacks := (th_stacks \<sigma>)[0 := [In_Handler]],
          th_tasks := th_tasks \<sigma> @ posted calls\<rparr>))"
    using operation_alone_is_atomic [of 0 \<sigma> "Op_Recycle 0" "[In_Handler]" demo_assoc "Time_Point 3" p calls
        demo_inside] op(1) \<sigma>(1,3) by auto
  then show ?thesis
    using run op \<sigma>(2) by (intro exI conjI) (assumption | simp)+
qed

subsection \<open>Safety\<close>

lemma at_most_one_locked:
  assumes "mutex_ok \<sigma>"
  shows "length (filter (\<lambda>st. \<exists>f \<in> set st. in_mutex f) (th_stacks \<sigma>)) \<le> 1"
proof -
  let ?in = "\<lambda>st. \<exists>f \<in> set st. in_mutex f"
  have owner: "th_owner \<sigma> = Some t" if "t < length (th_stacks \<sigma>)" "?in (th_stacks \<sigma> ! t)" for t
  proof (rule ccontr)
    assume "th_owner \<sigma> \<noteq> Some t"
    with assms that(1) have "filter in_mutex (th_stacks \<sigma> ! t) = []"
      by (auto simp: mutex_ok_def stack_ok_def)
    with that(2) show False by (auto simp: filter_empty_conv)
  qed
  have "{t. t < length (th_stacks \<sigma>) \<and> ?in (th_stacks \<sigma> ! t)} \<subseteq> set_option (th_owner \<sigma>)"
    using owner by auto
  then have "card {t. t < length (th_stacks \<sigma>) \<and> ?in (th_stacks \<sigma> ! t)} \<le> card (set_option (th_owner \<sigma>))"
    by (intro card_mono) simp_all
  also have "\<dots> \<le> 1"
    by (cases "th_owner \<sigma>") simp_all
  finally show ?thesis
    by (simp add: length_filter_conv_card)
qed

text \<open>
  C3. Safety on threads. Whatever the threads, the loops of the I/O contexts and the timers do, in
  whatever order, and whether or not \<open>dispatch\<close> calls handlers at once: no step has undefined behaviour
  or throws, each handler given to \<open>get\<close> is in exactly one place (with an operation under way, in the
  queue, in one task, or called once), the used cells are divided without overlap among holders, tasks
  and operations under way, and at most one thread is in a region that the mutex protects.
\<close>

theorem async_threads_safe:
  assumes "async_pool_create n k timeout life = Inr p"
    and "thread_run assoc inside es (threads_start m p) = Some r"
  shows "\<exists>\<sigma>. r = Inr \<sigma>
    \<and> mset (given es) = mset (of_frames frame_handlers (th_stacks \<sigma>))
        + mset (waiting_handlers (waiting (th_pool \<sigma>))) + mset (task_handlers (th_tasks \<sigma>))
        + mset (map fst (th_called \<sigma>))
    \<and> mset (used_cells (ap_storage (th_pool \<sigma>))) = mset (th_holding \<sigma>)
        + mset (flight_cells (th_tasks \<sigma>)) + mset (of_frames frame_cells (th_stacks \<sigma>))
    \<and> length (filter (\<lambda>st. \<exists>f \<in> set st. in_mutex f) (th_stacks \<sigma>)) \<le> 1"
proof -
  note start = threads_start_inv [OF assms(1)]
  obtain \<sigma> where \<sigma>: "r = Inr \<sigma>" "threads_inv assoc \<sigma>" "handlers_in \<sigma> = mset (given es)"
    using thread_run_ok [OF start(1) assms(2)] by (auto simp: went_well_def start(2))
  have "mset (used_cells (ap_storage (th_pool \<sigma>))) = cells_out \<sigma>"
    using threads_inv_parts(4) [OF \<sigma>(2)] async_inv_parts(1) [OF threads_inv_parts(1) [OF \<sigma>(2)]]
    by (simp add: async_lent_def storage_inv_disjoint(2) mset_set_set)
  with \<sigma> at_most_one_locked [OF threads_inv_parts(5) [OF \<sigma>(2)]] show ?thesis
    by (simp add: handlers_in_def cells_out_def)
qed

theorem async_threads_safe_witness:
  "\<exists>\<sigma>. thread_run demo_assoc demo_inside demo_disabling demo_threads = Some (Inr \<sigma>)
    \<and> used_cells (ap_storage (th_pool \<sigma>)) = [0] \<and> of_frames frame_cells (th_stacks \<sigma>) = [0]
    \<and> map fst (th_called \<sigma>) = [1, 2] \<and> waiting (th_pool \<sigma>) = []"
proof -
  obtain \<sigma> where run: "thread_run demo_assoc demo_inside demo_disabling demo_threads = Some (Inr \<sigma>)"
    and \<sigma>: "th_holding \<sigma> = []" "map fst (th_called \<sigma>) = [1, 2]"
    "th_stacks \<sigma> = [[Wants (Op_Recycle 0), In_Handler, Disabling, In_Handler], [], []]"
    using demo_disabling_shows by (auto elim!: shows_ofE)
  have given: "given demo_disabling = [1, 2]"
    by code_simp
  have called: "image_mset fst (mset (th_called \<sigma>)) = {#1, 2#}"
    using arg_cong [OF \<sigma>(2), of mset] by simp
  have frames: "of_frames frame_handlers (th_stacks \<sigma>) = []" "of_frames frame_cells (th_stacks \<sigma>) = [0]"
    by (simp_all add: of_frames_def \<sigma>(3))
  have "mset (used_cells (ap_storage (th_pool \<sigma>))) = {#0#} + mset (flight_cells (th_tasks \<sigma>))"
    "waiting_handlers (waiting (th_pool \<sigma>)) = []" "task_handlers (th_tasks \<sigma>) = []"
    using async_threads_safe [OF demo_async_create run [unfolded demo_threads_def]] called
    by (simp_all add: given \<sigma>(1) frames)
  then show ?thesis
    using run frames(2) \<sigma>(2) by (auto simp: waiting_handlers_def task_handlers_def flight_cells_def)
qed

end
