(* ===== verification/Async_Deadlock.thy ===== *)
theory Async_Deadlock
  imports Async_Thread_Guarantees
begin

text \<open>
  Progress of threads that use an asynchronous pool: from any reachable state every operation under way
  can be completed, unless the owner of the mutex waits for the mutex itself.
\<close>

subsection \<open>One step shortens what is left to do\<close>

text \<open>The steps a frame may still need, with a bonus for the loop of \<open>disable\<close>, which the queue bounds.\<close>

fun steps_left :: "('c, 'x, 'h) frame \<Rightarrow> nat" where
  "steps_left (Wants f) = 4"
| "steps_left (Locked f) = 3"
| "steps_left (Serve_Recycle cell w c) = 2"
| "steps_left _ = 1"

definition work_left :: "nat \<Rightarrow> ('c, 'x, 'h, 'v) threads \<Rightarrow> nat \<times> nat" where
  "work_left t \<sigma> =
     (sum_list (map steps_left (th_stacks \<sigma> ! t)), length (rq_ordered (ap_queue (th_pool \<sigma>))))"

definition shorter :: "((nat \<times> nat) \<times> nat \<times> nat) set" where
  "shorter = less_than <*lex*> less_than"

lemma wf_shorter: "wf shorter"
  by (simp add: shorter_def wf_lex_prod)

text \<open>Thread \<open>t\<close> may act: nobody else has the mutex, and it does not wait for itself.\<close>

definition free_to_go :: "nat \<Rightarrow> ('c, 'x, 'h, 'v) threads \<Rightarrow> bool" where
  "free_to_go t \<sigma> \<longleftrightarrow>
     t < length (th_stacks \<sigma>)
     \<and> (th_owner \<sigma> = None
        \<or> th_owner \<sigma> = Some t \<and> (\<forall>f rest. th_stacks \<sigma> ! t = f # rest \<longrightarrow> \<not> wants_mutex f))"

text \<open>The frames by which a step replaces the innermost one.\<close>

definition replaced ::
  "nat \<Rightarrow> ('c, 'x, 'h) frame \<Rightarrow> ('c, 'x, 'h) frame list \<Rightarrow> ('c, 'x, 'h, 'v) threads \<Rightarrow>
   ('c, 'x, 'h, 'v) threads \<Rightarrow> bool"
where
  "replaced t f rest \<sigma> \<tau> \<longleftrightarrow>
     th_owner \<tau> \<in> {th_owner \<sigma>, None, Some t}
     \<and> (th_stacks \<tau> = (th_stacks \<sigma>)[t := rest]
        \<or> (\<exists>g. th_stacks \<tau> = (th_stacks \<sigma>)[t := g # rest] \<and> \<not> wants_mutex g \<and> steps_left g < steps_left f)
        \<or> th_stacks \<tau> = th_stacks \<sigma> \<and> \<not> wants_mutex f
           \<and> length (rq_ordered (ap_queue (th_pool \<tau>))) < length (rq_ordered (ap_queue (th_pool \<sigma>))))"

lemma replaced_moved:
  assumes "owner \<in> {th_owner \<sigma>, None, Some t}" and "th_stacks \<sigma>' = th_stacks \<sigma>"
  shows "replaced t f rest \<sigma> (moved p owner t rest \<sigma>')"
    and "\<not> wants_mutex g \<Longrightarrow> steps_left g < steps_left f \<Longrightarrow>
      replaced t f rest \<sigma> (moved p owner t (g # rest) \<sigma>')"
  using assms unfolding replaced_def by auto

lemma proceed_replaces:
  assumes "proceed assoc inside False now t rest f \<sigma> = Inr \<tau>" and "th_stacks \<sigma> ! t = f # rest"
  shows "replaced t f rest \<sigma> \<tau>"
proof (cases f)
  case (Locked g)
  then show ?thesis
    using assms
    by (cases g)
      (auto simp: perform_tasks pop_then_tasks and_then_Inr_iff set_pool_def
        split: prod.splits option.splits intro!: replaced_moved)
next
  case Disabling
  then show ?thesis
    using assms
    by (auto simp: perform_tasks pop_then_tasks and_then_Inr_iff
        split: option.splits dest!: rq_pop_shrinks intro!: replaced_moved)
      (simp add: replaced_def)
qed (use assms in \<open>auto simp: perform_tasks and_then_Inr_iff store_then_unlock_def
      split: if_splits intro!: replaced_moved\<close>)

lemma replaced_shorter:
  assumes "replaced t f rest \<sigma> \<tau>" and "t < length (th_stacks \<sigma>)" and "th_stacks \<sigma> ! t = f # rest"
  shows "(work_left t \<tau>, work_left t \<sigma>) \<in> shorter"
proof -
  have "0 < steps_left f" by (cases f) simp_all
  then show ?thesis
    using assms by (auto simp: replaced_def work_left_def shorter_def)
qed

lemma calling_waits_not: "calling g \<Longrightarrow> \<not> wants_mutex g"
  by (auto simp: calling_def)

lemma replaced_free:
  assumes "replaced t f rest \<sigma> \<tau>" and "free_to_go t \<sigma>" and "th_stacks \<sigma> ! t = f # rest"
    and "\<forall>g \<in> set rest. calling g" and "\<not> wants_mutex f \<or> th_owner \<sigma> = None"
  shows "free_to_go t \<tau>" "length (th_stacks \<tau>) = length (th_stacks \<sigma>)"
    "\<forall>u. u \<noteq> t \<longrightarrow> th_stacks \<tau> ! u = th_stacks \<sigma> ! u"
proof -
  have t: "t < length (th_stacks \<sigma>)"
    using assms(2) by (simp add: free_to_go_def)
  have rest: "\<forall>g \<in> set rest. \<not> wants_mutex g"
    using assms(4) calling_waits_not by blast
  show "free_to_go t \<tau>"
    using assms(1,2,3) t rest by (auto simp: replaced_def free_to_go_def)
  show "length (th_stacks \<tau>) = length (th_stacks \<sigma>)"
    using assms(1) by (auto simp: replaced_def)
  show "\<forall>u. u \<noteq> t \<longrightarrow> th_stacks \<tau> ! u = th_stacks \<sigma> ! u"
    using assms(1) by (auto simp: replaced_def)
qed

text \<open>A thread that may act finishes what it is doing.\<close>

definition finishes ::
  "('h \<Rightarrow> 'x) \<Rightarrow> (nat \<Rightarrow> 'c \<Rightarrow> bool) \<Rightarrow> nat \<Rightarrow> ('c, 'h) thread_event list \<Rightarrow>
   ('c, 'x, 'h, 'v) threads \<Rightarrow> ('c, 'x, 'h, 'v) threads \<Rightarrow> bool"
where
  "finishes assoc inside t es \<sigma> \<tau> \<longleftrightarrow>
     thread_run assoc inside es \<sigma> = Some (Inr \<tau>) \<and> threads_inv assoc \<tau> \<and> th_owner \<tau> = None
     \<and> th_stacks \<tau> = (th_stacks \<sigma>)[t := []]"

lemma thread_finishes:
  "threads_inv assoc \<sigma> \<Longrightarrow> free_to_go t \<sigma> \<Longrightarrow> \<exists>es \<tau>. finishes assoc inside t es \<sigma> \<tau>"
proof (induction "work_left t \<sigma>" arbitrary: \<sigma> rule: wf_induct_rule [OF wf_shorter])
  case less: 1
  have t: "t < length (th_stacks \<sigma>)"
    using less.prems(2) by (simp add: free_to_go_def)
  have ok: "stack_ok (th_owner \<sigma>) t (th_stacks \<sigma> ! t)"
    using threads_inv_parts(5) [OF less.prems(1)] t by (simp add: mutex_ok_def)
  show ?case
  proof (cases "th_stacks \<sigma> ! t")
    case Nil
    then have "th_owner \<sigma> = None"
      using ok less.prems(2) by (auto simp: stack_ok_def free_to_go_def split: if_splits)
    moreover have "th_stacks \<sigma> = (th_stacks \<sigma>)[t := []]"
      using Nil by (metis list_update_id)
    ultimately have "finishes assoc inside t [] \<sigma> \<sigma>"
      using less.prems(1) by (simp add: finishes_def)
    then show ?thesis by blast
  next
    case (Cons f rest)
    have free: "\<not> wants_mutex f \<or> th_owner \<sigma> = None"
      using less.prems(2) Cons by (auto simp: free_to_go_def)
    then obtain \<rho> where \<rho>: "proceed assoc inside False epoch t rest f \<sigma> = Inr \<rho>" "threads_inv assoc \<rho>"
      using proceed_ok [OF less.prems(1) t Cons, of inside False epoch] by (auto simp: went_well_def)
    have rep: "replaced t f rest \<sigma> \<rho>"
      by (rule proceed_replaces [OF \<rho>(1) Cons])
    have calls: "\<forall>g \<in> set rest. calling g"
      using ok by (simp add: Cons stack_ok_def)
    note next_free = replaced_free [OF rep less.prems(2) Cons calls free]
    obtain es \<tau> where \<tau>: "finishes assoc inside t es \<rho> \<tau>"
      using less.hyps [OF replaced_shorter [OF rep t Cons] \<rho>(2) next_free(1)] by blast
    have "(th_stacks \<rho>)[t := []] = (th_stacks \<sigma>)[t := []]"
      using rep by (auto simp: replaced_def)
    then have "finishes assoc inside t (Go t False epoch # es) \<sigma> \<tau>"
      using \<tau> go_step [OF t Cons free, of assoc inside False epoch] \<rho>(1) by (simp add: finishes_def)
    then show ?thesis by blast
  qed
qed

lemma thread_run_append:
  "thread_run assoc inside es \<sigma> = Some (Inr \<rho>) \<Longrightarrow>
   thread_run assoc inside (es @ es') \<sigma> = thread_run assoc inside es' \<rho>"
  by (induction es arbitrary: \<sigma>) (auto split: option.splits sum.splits)

text \<open>With the mutex free, the threads finish one after the other.\<close>

lemma all_finish:
  "threads_inv assoc \<sigma> \<Longrightarrow> th_owner \<sigma> = None \<Longrightarrow>
   \<exists>es \<tau>. thread_run assoc inside es \<sigma> = Some (Inr \<tau>) \<and> th_owner \<tau> = None
     \<and> th_stacks \<tau> = replicate (length (th_stacks \<sigma>)) []"
proof (induction "card {t. t < length (th_stacks \<sigma>) \<and> th_stacks \<sigma> ! t \<noteq> []}" arbitrary: \<sigma> rule: less_induct)
  case less
  show ?case
  proof (cases "\<exists>t < length (th_stacks \<sigma>). th_stacks \<sigma> ! t \<noteq> []")
    case False
    then have "th_stacks \<sigma> = replicate (length (th_stacks \<sigma>)) []"
      by (intro nth_equalityI) simp_all
    with less.prems(2) have "thread_run assoc inside [] \<sigma> = Some (Inr \<sigma>) \<and> th_owner \<sigma> = None
        \<and> th_stacks \<sigma> = replicate (length (th_stacks \<sigma>)) []" by simp
    then show ?thesis by blast
  next
    case True
    then obtain t where t: "t < length (th_stacks \<sigma>)" "th_stacks \<sigma> ! t \<noteq> []" by blast
    then have "free_to_go t \<sigma>"
      using less.prems(2) by (simp add: free_to_go_def)
    then obtain es \<rho> where \<rho>: "thread_run assoc inside es \<sigma> = Some (Inr \<rho>)" "threads_inv assoc \<rho>"
      "th_owner \<rho> = None" "th_stacks \<rho> = (th_stacks \<sigma>)[t := []]"
      using thread_finishes [OF less.prems(1)] unfolding finishes_def by blast
    have "{u. u < length (th_stacks \<rho>) \<and> th_stacks \<rho> ! u \<noteq> []}
        \<subset> {u. u < length (th_stacks \<sigma>) \<and> th_stacks \<sigma> ! u \<noteq> []}"
      using t by (auto simp: \<rho>(4) nth_list_update)
    then have "card {u. u < length (th_stacks \<rho>) \<and> th_stacks \<rho> ! u \<noteq> []}
        < card {u. u < length (th_stacks \<sigma>) \<and> th_stacks \<sigma> ! u \<noteq> []}"
      by (intro psubset_card_mono) simp_all
    from less.hyps [OF this \<rho>(2,3)] thread_run_append [OF \<rho>(1)] \<rho>(4) show ?thesis
      by (metis length_list_update)
  qed
qed

subsection \<open>Waiting forever\<close>

lemma perform_frame:
  "perform inside inline t calls \<sigma> = Inr \<tau> \<Longrightarrow>
   th_owner \<tau> = th_owner \<sigma> \<and> (\<forall>u. u \<noteq> t \<longrightarrow> th_stacks \<tau> ! u = th_stacks \<sigma> ! u)"
  by (induction calls arbitrary: \<sigma> rule: posted.induct)
    (fastforce simp: call_task_def and_then_Inr_iff set_stack_def simp del: moved_simps split: if_splits)+

lemma pop_then_frame:
  assumes "pop_then inside inline t k \<sigma> = Inr \<tau>"
  shows "\<exists>queued \<rho>. k queued \<rho> = Inr \<tau> \<and> th_owner \<rho> = th_owner \<sigma>
    \<and> (\<forall>u. u \<noteq> t \<longrightarrow> th_stacks \<rho> ! u = th_stacks \<sigma> ! u)"
proof -
  obtain queued q calls \<rho> where
    "perform inside inline t (queue_calls calls) (set_pool ((th_pool \<sigma>)\<lparr>ap_queue := q\<rparr>) \<sigma>) = Inr \<rho>"
    "k queued \<rho> = Inr \<tau>"
    using assms by (auto simp: pop_then_def and_then_Inr_iff)
  then show ?thesis
    using perform_frame [of inside inline t "queue_calls calls"] by (fastforce simp: set_pool_def)
qed

lemma proceed_others:
  assumes "proceed assoc inside inline now t rest f \<sigma> = Inr \<tau>" and "u \<noteq> t"
  shows "th_stacks \<tau> ! u = th_stacks \<sigma> ! u"
proof (cases f)
  case (Locked g)
  then show ?thesis
    using assms
    by (cases g)
      (auto simp: set_pool_def split: prod.splits option.splits dest!: perform_frame pop_then_frame)
qed (use assms in \<open>auto simp: and_then_Inr_iff store_then_unlock_def split: option.splits
      simp del: perform.simps dest!: perform_frame pop_then_frame\<close>)

lemma proceed_owner:
  "proceed assoc inside inline now t rest f \<sigma> = Inr \<tau> \<Longrightarrow> \<not> in_mutex f \<Longrightarrow> \<not> wants_mutex f \<Longrightarrow>
   th_owner \<tau> = th_owner \<sigma>"
  by (cases f) (auto simp: and_then_Inr_iff simp del: perform.simps dest!: perform_frame)

text \<open>A thread that owns the mutex and wants it.\<close>

definition stuck :: "nat \<Rightarrow> ('c, 'x, 'h, 'v) threads \<Rightarrow> bool" where
  "stuck t \<sigma> \<longleftrightarrow> th_owner \<sigma> = Some t \<and> (\<exists>f rest. th_stacks \<sigma> ! t = Wants f # rest)"

lemma stuck_step:
  assumes inv: "threads_inv assoc \<sigma>" and stuck: "stuck t \<sigma>"
    and step: "thread_step assoc inside e \<sigma> = Some (Inr \<tau>)"
  shows "th_owner \<tau> = Some t \<and> th_stacks \<tau> ! t = th_stacks \<sigma> ! t"
proof -
  obtain f rest where t: "th_owner \<sigma> = Some t" "th_stacks \<sigma> ! t = Wants f # rest"
    using stuck by (auto simp: stuck_def)
  show ?thesis
  proof (cases e)
    case (Call u g)
    then have "u \<noteq> t"
      using step t(2) by (auto simp: in_user_code_def split: if_splits)
    with Call step t(1) show ?thesis
      by (auto simp: moved_def split: if_splits)
  next
    case (Go u inline now)
    then obtain g rest' where u: "u < length (th_stacks \<sigma>)" "th_stacks \<sigma> ! u = g # rest'"
      "\<not> wants_mutex g" "proceed assoc inside inline now u rest' g \<sigma> = Inr \<tau>"
      using step t(1) by (auto split: if_splits list.splits)
    with t(2) have other: "u \<noteq> t" by auto
    have "stack_ok (th_owner \<sigma>) u (g # rest')"
      using threads_inv_parts(5) [OF inv] u(1,2) by (auto simp: mutex_ok_def)
    then have "\<not> in_mutex g"
      using other t(1) by (auto simp: stack_ok_def split: if_splits)
    then show ?thesis
      using proceed_owner [OF u(4) _ u(3)] proceed_others [OF u(4), of t] other t(1) by simp
  next
    case (Execute u k)
    then have "u \<noteq> t"
      using step t(2) by (auto split: if_splits)
    with Execute step t(1) show ?thesis
      by (auto simp: call_task_def and_then_Inr_iff moved_def split: if_splits)
  next
    case (Wait_Ends ec d)
    with step t(1) show ?thesis
      by (auto simp: and_then_Inr_iff perform_tasks set_pool_def)
  qed
qed

lemma stuck_run:
  "threads_inv assoc \<sigma> \<Longrightarrow> stuck t \<sigma> \<Longrightarrow> thread_run assoc inside es \<sigma> = Some r \<Longrightarrow>
   \<exists>\<tau>. r = Inr \<tau> \<and> th_owner \<tau> = Some t \<and> th_stacks \<tau> ! t = th_stacks \<sigma> ! t"
proof (induction es arbitrary: \<sigma>)
  case Nil
  then show ?case by (auto simp: stuck_def)
next
  case (Cons e es)
  obtain s where s: "thread_step assoc inside e \<sigma> = Some s"
    using Cons.prems(3) by (auto split: option.splits)
  obtain \<rho> where \<rho>: "s = Inr \<rho>" "threads_inv assoc \<rho>"
    using thread_step_ok [OF Cons.prems(1) s] by (auto simp: went_well_def)
  have same: "th_owner \<rho> = Some t" "th_stacks \<rho> ! t = th_stacks \<sigma> ! t"
    using stuck_step [OF Cons.prems(1,2)] s \<rho>(1) by auto
  then have "stuck t \<rho>"
    using Cons.prems(2) by (simp add: stuck_def)
  from Cons.IH [OF \<rho>(2) this] Cons.prems(3) s \<rho>(1) same show ?case by simp
qed

text \<open>The owner of the mutex is in its locked region, or in a handler that \<open>disable\<close> called.\<close>

lemma owner_frames:
  assumes inv: "threads_inv assoc \<sigma>" and own: "th_owner \<sigma> = Some t"
  obtains f rest where "t < length (th_stacks \<sigma>)" "th_stacks \<sigma> ! t = f # rest"
    "in_mutex f \<or> Disabling \<in> set rest"
proof -
  note mutex = threads_inv_parts(5) [OF inv]
  have t: "t < length (th_stacks \<sigma>)" and ok: "stack_ok (Some t) t (th_stacks \<sigma> ! t)"
    using mutex own by (auto simp: mutex_ok_def)
  then obtain f rest where top: "th_stacks \<sigma> ! t = f # rest"
    by (cases "th_stacks \<sigma> ! t") (auto simp: stack_ok_def)
  have "Disabling \<in> set rest" if "\<not> in_mutex f"
  proof -
    have "filter in_mutex rest \<noteq> []"
      using ok that by (auto simp: top stack_ok_def)
    then obtain g where "g \<in> set rest" "in_mutex g"
      by (auto simp: filter_empty_conv)
    moreover have "calling g"
      using ok \<open>g \<in> set rest\<close> by (auto simp: top stack_ok_def)
    ultimately show ?thesis
      by (auto simp: calling_def)
  qed
  with t top show thesis by (blast intro: that)
qed

text \<open>
  C12. Either everything can be completed or a thread has locked itself out. From every reachable state,
  either there are steps after which no operation or handler is under way on any thread and the mutex is
  free, or the thread that owns the mutex wants to lock it: it has called an operation in a handler that
  \<open>disable\<close> called at once. Then, whatever happens, the mutex stays locked by this thread, which never
  takes a step again.
\<close>

theorem async_disable_deadlock:
  assumes start: "async_pool_create n k timeout life = Inr p"
    and run: "thread_run assoc inside es (threads_start m p) = Some (Inr \<sigma>)"
  shows "(\<exists>es' \<tau>. thread_run assoc inside es' \<sigma> = Some (Inr \<tau>) \<and> th_owner \<tau> = None
        \<and> th_stacks \<tau> = replicate m [])
    \<or> (\<exists>t f rest. th_owner \<sigma> = Some t \<and> th_stacks \<sigma> ! t = Wants f # rest \<and> Disabling \<in> set rest
         \<and> (\<forall>es' r. thread_run assoc inside es' \<sigma> = Some r \<longrightarrow>
              (\<exists>\<tau>. r = Inr \<tau> \<and> th_owner \<tau> = Some t \<and> th_stacks \<tau> ! t = th_stacks \<sigma> ! t)))"
proof -
  have inv: "threads_inv assoc \<sigma>" and m: "length (th_stacks \<sigma>) = m"
    using thread_run_ok [OF threads_start_inv(1) [OF start] run] by (simp_all add: went_well_def threads_start_def)
  show ?thesis
  proof (cases "th_owner \<sigma>")
    case None
    with all_finish [OF inv] m show ?thesis by blast
  next
    case (Some t)
    obtain f rest where top: "t < length (th_stacks \<sigma>)" "th_stacks \<sigma> ! t = f # rest"
      "in_mutex f \<or> Disabling \<in> set rest"
      by (rule owner_frames [OF inv Some])
    show ?thesis
    proof (cases "wants_mutex f")
      case True
      then obtain g where f: "f = Wants g"
        by (auto simp: wants_mutex_def split: frame.splits)
      with top Some have "stuck t \<sigma>"
        by (simp add: stuck_def)
      from stuck_run [OF inv this] f top Some show ?thesis by auto
    next
      case False
      with top Some have "free_to_go t \<sigma>"
        by (simp add: free_to_go_def)
      then obtain es1 \<rho> where \<rho>: "thread_run assoc inside es1 \<sigma> = Some (Inr \<rho>)" "threads_inv assoc \<rho>"
        "th_owner \<rho> = None" "th_stacks \<rho> = (th_stacks \<sigma>)[t := []]"
        using thread_finishes [OF inv] unfolding finishes_def by blast
      from all_finish [OF \<rho>(2,3)] thread_run_append [OF \<rho>(1)] \<rho>(4) m show ?thesis
        by (metis length_list_update)
    qed
  qed
qed

theorem async_disable_deadlock_witness:
  "(\<exists>\<sigma>. thread_run demo_assoc demo_inside demo_disabling demo_threads = Some (Inr \<sigma>)
      \<and> (\<forall>es r. thread_run demo_assoc demo_inside es \<sigma> = Some r \<longrightarrow>
           (\<exists>\<tau>. r = Inr \<tau> \<and> th_owner \<tau> = Some 0 \<and> hd (th_stacks \<tau> ! 0) = Wants (Op_Recycle 0))))
    \<and> (\<exists>\<sigma> es \<tau>. thread_run demo_assoc demo_inside demo_queued demo_threads = Some (Inr \<sigma>)
      \<and> thread_run demo_assoc demo_inside es \<sigma> = Some (Inr \<tau>) \<and> th_stacks \<tau> = [[], [], []])"
proof
  obtain \<sigma> where run: "thread_run demo_assoc demo_inside demo_disabling demo_threads = Some (Inr \<sigma>)"
    and \<sigma>: "th_owner \<sigma> = Some 0"
    "th_stacks \<sigma> = [[Wants (Op_Recycle 0), In_Handler, Disabling, In_Handler], [], []]"
    using demo_disabling_shows by (auto elim!: shows_ofE)
  have "threads_inv demo_assoc \<sigma>"
    using thread_run_ok [OF threads_start_inv(1) [OF demo_async_create] run [unfolded demo_threads_def]]
    by (simp add: went_well_def)
  moreover have "stuck 0 \<sigma>"
    by (simp add: stuck_def \<sigma>)
  ultimately have "\<not> (\<exists>es \<tau>. thread_run demo_assoc demo_inside es \<sigma> = Some (Inr \<tau>) \<and> th_owner \<tau> = None
      \<and> th_stacks \<tau> = replicate 3 [])"
    using stuck_run by fastforce
  with async_disable_deadlock [OF demo_async_create run [unfolded demo_threads_def]] \<sigma>
  have "\<forall>es r. thread_run demo_assoc demo_inside es \<sigma> = Some r \<longrightarrow>
      (\<exists>\<tau>. r = Inr \<tau> \<and> th_owner \<tau> = Some 0 \<and> th_stacks \<tau> ! 0 = th_stacks \<sigma> ! 0)"
    by simp
  moreover have "hd (th_stacks \<sigma> ! 0) = Wants (Op_Recycle 0)"
    by (simp add: \<sigma>(2))
  ultimately show "\<exists>\<sigma>. thread_run demo_assoc demo_inside demo_disabling demo_threads = Some (Inr \<sigma>)
      \<and> (\<forall>es r. thread_run demo_assoc demo_inside es \<sigma> = Some r \<longrightarrow>
           (\<exists>\<tau>. r = Inr \<tau> \<and> th_owner \<tau> = Some 0 \<and> hd (th_stacks \<tau> ! 0) = Wants (Op_Recycle 0)))"
    using run by metis
next
  have "shows_of th_owner (thread_run demo_assoc demo_inside demo_queued demo_threads) = Some (Inr None)"
    by code_simp
  then obtain \<sigma> where run: "thread_run demo_assoc demo_inside demo_queued demo_threads = Some (Inr \<sigma>)"
    and "th_owner \<sigma> = None"
    by (auto elim!: shows_ofE)
  with async_disable_deadlock [OF demo_async_create run [unfolded demo_threads_def]]
  show "\<exists>\<sigma> es \<tau>. thread_run demo_assoc demo_inside demo_queued demo_threads = Some (Inr \<sigma>)
      \<and> thread_run demo_assoc demo_inside es \<sigma> = Some (Inr \<tau>) \<and> th_stacks \<tau> = [[], [], []]"
    by (auto simp: eval_nat_numeral)
qed

end
