(* ===== verification/Example_Files.thy ===== *)
theory Example_Files
  imports Time_Traits Pool_Returns
begin

text \<open>
  What the programs under \<open>examples\<close> have in common: pools whose values are output file streams, and a
  function body that uses a handle to such a stream.

  The values are \<open>std::unique_ptr<std::ofstream>\<close>, never null here, so a value is the state of a stream.
  What the file system does is up to the environment: the state a stream is in after it was opened, and
  after something was written to it. A body is a function on a scene, which is the handle, the world of
  the pools, what was printed so far and what the pools asked of Boost.Asio or of a condition variable;
  it returns, throws, or has undefined behaviour, and the scene
  it leaves behind is there in each case, because an exception may be caught in it.
\<close>

subsection \<open>Streams\<close>

record ofstream =
  bad_bit :: bool
  fail_bit :: bool

definition good :: "ofstream \<Rightarrow> bool" where
  "good file \<longleftrightarrow> \<not> bad_bit file \<and> \<not> fail_bit file"

text \<open>Writing to a stream that is not good does nothing but set its \<open>failbit\<close>.\<close>

definition after_write :: "ofstream \<Rightarrow> ofstream \<Rightarrow> ofstream" where
  "after_write outcome file = (if good file then outcome else file\<lparr>fail_bit := True\<rparr>)"

datatype printed =
    To_Cerr string
  | To_Cout string
  | To_Cout_State string ofstream
  | To_File duration

definition written :: "ofstream \<Rightarrow> ofstream \<Rightarrow> duration \<Rightarrow> printed list" where
  "written outcome file d = (if good file \<and> good outcome then [To_File d] else [])"

text \<open>What the environment does while a body runs, and the readings of the clock in it.\<close>

record surroundings =
  opened :: ofstream
  outcome :: ofstream
  reset_at :: time_point
  printed_at :: time_point
  returned_at :: time_point

subsection \<open>Bodies\<close>

record ('r, 'w, 'o) scene =
  sc_handle :: "'r handle"
  sc_world :: 'w
  sc_printed :: "printed list"
  sc_calls :: "'o list"

type_synonym ('r, 'w, 'o, 'a) body = "('r, 'w, 'o) scene \<Rightarrow> 'a result \<times> ('r, 'w, 'o) scene"

definition yields :: "'a \<Rightarrow> ('r, 'w, 'o, 'a) body" where
  "yields x s = (Inr x, s)"

definition then_do :: "('r, 'w, 'o, 'a) body \<Rightarrow> ('a \<Rightarrow> ('r, 'w, 'o, 'b) body) \<Rightarrow> ('r, 'w, 'o, 'b) body" where
  "then_do m k s = (case m s of (Inl f, s') \<Rightarrow> (Inl f, s') | (Inr x, s') \<Rightarrow> k x s')"

definition catching ::
  "('r, 'w, 'o, 'a) body \<Rightarrow> (logic_error \<Rightarrow> ('r, 'w, 'o, 'a) body) \<Rightarrow> ('r, 'w, 'o, 'a) body" where
  "catching m k s = (case m s of (Inl (Throws e), s') \<Rightarrow> k e s' | r \<Rightarrow> r)"

definition prints :: "printed list \<Rightarrow> ('r, 'w, 'o, unit) body" where
  "prints xs s = (Inr (), s\<lparr>sc_printed := sc_printed s @ xs\<rparr>)"

definition is_empty :: "('r, 'w, 'o, ofstream) pool_api \<Rightarrow> ('r, 'w, 'o, bool) body" where
  "is_empty api s = (handle_empty api (sc_handle s) (sc_world s), s)"

definition get_file :: "('r, 'w, 'o, ofstream) pool_api \<Rightarrow> ('r, 'w, 'o, ofstream) body" where
  "get_file api s = (handle_get api (sc_handle s) (sc_world s), s)"

definition reset_file ::
  "('r, 'w, 'o, ofstream) pool_api \<Rightarrow> ofstream \<Rightarrow> time_point \<Rightarrow> ('r, 'w, 'o, unit) body" where
  "reset_file api file now s =
     (case handle_reset api file now (sc_handle s) (sc_world s) of
        Inl f \<Rightarrow> (Inl f, s)
      | Inr w \<Rightarrow> (Inr (), s\<lparr>sc_world := w\<rparr>))"

definition recycle_file :: "('r, 'w, 'o, ofstream) pool_api \<Rightarrow> time_point \<Rightarrow> ('r, 'w, 'o, unit) body" where
  "recycle_file api now s =
     (case handle_recycle api now (sc_handle s) (sc_world s) of
        Inl f \<Rightarrow> (Inl f, s)
      | Inr (h, w, out) \<Rightarrow>
          (Inr (), s\<lparr>sc_handle := h, sc_world := w, sc_calls := sc_calls s @ out\<rparr>))"

text \<open>\<open>ec.message()\<close>, for a code of the library.\<close>

definition error_text :: "error_code \<Rightarrow> ('r, 'w, 'o, string) body" where
  "error_text ec s = (message (ec_value ec), s)"

text \<open>The stream that the handle refers to changes where it is, in its cell.\<close>

definition change_file ::
  "('r, 'w, 'o, ofstream) pool_api \<Rightarrow> (ofstream \<Rightarrow> ofstream) \<Rightarrow> ('r, 'w, 'o, unit) body" where
  "change_file api f s =
     (case (pool_impl (sc_handle s), resource_it (sc_handle s)) of
        (Some r, Some it) \<Rightarrow>
          (case api_write api r it (\<lambda>cell. cell\<lparr>idle_value := map_option f (idle_value cell)\<rparr>) (sc_world s) of
             Inl e \<Rightarrow> (Inl e, s)
           | Inr w \<Rightarrow> (Inr (), s\<lparr>sc_world := w\<rparr>))
      | _ \<Rightarrow> (Inl Undefined_Behaviour, s))"

text \<open>\<open>time_traits::time_point::min() - time_traits::now()\<close>, with signed overflow.\<close>

definition min_minus :: "time_point \<Rightarrow> ('r, 'w, 'o, duration) body" where
  "min_minus now s = (time_sub_checked time_point_min now, s)"

definition print_to_file ::
  "('r, 'w, 'o, ofstream) pool_api \<Rightarrow> surroundings \<Rightarrow> ('r, 'w, 'o, unit) body" where
  "print_to_file api env =
     then_do (get_file api) (\<lambda>file.
     then_do (min_minus (printed_at env)) (\<lambda>d.
     then_do (change_file api (after_write (outcome env))) (\<lambda>_.
     prints (written (outcome env) file d))))"

text \<open>The part of the body that the three asynchronous examples share, after \<open>"got resource handle"\<close>.\<close>

definition use_file ::
  "('r, 'w, 'o, ofstream) pool_api \<Rightarrow> surroundings \<Rightarrow> ('r, 'w, 'o, unit) body" where
  "use_file api env =
     then_do (is_empty api) (\<lambda>empty.
     then_do
       (if empty then
          if \<not> good (opened env) then
            then_do (prints [To_Cout_State ''open file pool.log error: '' (opened env)]) (\<lambda>_. yields False)
          else then_do (reset_file api (opened env) (reset_at env)) (\<lambda>_. yields True)
        else yields True) (\<lambda>go_on.
     if \<not> go_on then yields ()
     else
       then_do (print_to_file api env) (\<lambda>_.
       then_do (get_file api) (\<lambda>file.
       if good file then recycle_file api (returned_at env) else yields ()))))"

lemmas body_defs =
  yields_def then_do_def catching_def prints_def is_empty_def get_file_def reset_file_def
  recycle_file_def change_file_def min_minus_def print_to_file_def use_file_def error_text_def

declare good_def [exec] after_write_def [exec] written_def [exec] body_defs [exec]

lemma then_do_simps [simp]:
  "m s = (Inr x, s') \<Longrightarrow> then_do m k s = k x s'"
  "m s = (Inl f, s') \<Longrightarrow> then_do m k s = (Inl f, s')"
  "yields x s = (Inr x, s)"
  "prints xs s = (Inr (), s\<lparr>sc_printed := sc_printed s @ xs\<rparr>)"
  by (simp_all add: body_defs)

lemma then_do_fault: "fst (m s) = Inl f \<Longrightarrow> fst (then_do m k s) = Inl f"
  by (cases "m s") (auto simp: then_do_def)

lemma min_minus_now:
  "min_minus now s =
     (if now \<le> epoch then (Inr (time_sub time_point_min now), s) else (Inl Undefined_Behaviour, s))"
  using sint_range64 [of "since_epoch now"]
  by (auto simp: min_minus_def time_sub_checked_def checked_def time_point_order tick_defs)

subsection \<open>Reading and writing cells\<close>

text \<open>What the body makes of the contents \<open>x\<close> of its cell, and the stream it writes to.\<close>

definition filled :: "surroundings \<Rightarrow> ofstream idle \<Rightarrow> ofstream idle" where
  "filled env x = (if idle_value x = None then fill_cell (opened env) (reset_at env) x else x)"

definition cell_after :: "surroundings \<Rightarrow> ofstream idle \<Rightarrow> ofstream idle" where
  "cell_after env x =
     (filled env x)\<lparr>idle_value := map_option (after_write (outcome env)) (idle_value (filled env x))\<rparr>"

definition file_in :: "surroundings \<Rightarrow> ofstream idle \<Rightarrow> ofstream" where
  "file_in env x = (case idle_value x of None \<Rightarrow> opened env | Some file \<Rightarrow> file)"

definition open_fails :: "surroundings \<Rightarrow> ofstream idle \<Rightarrow> bool" where
  "open_fails env x \<longleftrightarrow> idle_value x = None \<and> \<not> good (opened env)"

lemma file_in_cells [simp]:
  "idle_value (filled env x) = Some (file_in env x)"
  "idle_value (cell_after env x) = Some (after_write (outcome env) (file_in env x))"
  by (auto simp: filled_def cell_after_def file_in_def fill_cell_def split: option.splits)

text \<open>What a pool of streams promises of the contents of cells, beyond \<open>pool_returns\<close>.\<close>

locale file_pool = pool_returns api lent inv
  for api :: "('r, 'w, 'o, ofstream) pool_api" and lent :: "'r \<Rightarrow> 'w \<Rightarrow> nat set"
    and inv :: "'w \<Rightarrow> bool" +
  assumes write_value: "api_read api r (Cell c) w = Inr x \<Longrightarrow>
      api_write api r (Cell c) f w = api_write api r (Cell c) (\<lambda>_. f x) w"
    and write_nothing: "api_read api r (Cell c) w = Inr x \<Longrightarrow> api_write api r (Cell c) (\<lambda>_. x) w = Inr w"
    and read_written: "api_write api r (Cell c) (\<lambda>_. x) w = Inr w' \<Longrightarrow> api_read api r (Cell c) w' = Inr x"
    and write_twice: "api_write api r (Cell c) (\<lambda>_. x) w = Inr w' \<Longrightarrow>
      api_write api r (Cell c) (\<lambda>_. y) w' = api_write api r (Cell c) (\<lambda>_. y) w"
begin

lemma new_handle_reads:
  assumes "api_read api r (Cell c) w = Inr x"
  shows "handle_empty api (handle_new r st (Cell c)) w = Inr (idle_value x = None)"
    and "idle_value x = Some v \<Longrightarrow> handle_get api (handle_new r st (Cell c)) w = Inr v"
  using assms by (simp_all add: handle_empty_def handle_get_def assert_not_empty_def handle_cell_def)

lemma print_to_file_closed:
  assumes inv: "inv w" and c: "c \<in> lent r w" and x: "api_read api r (Cell c) w = Inr x"
    and v: "idle_value x = Some file" and now: "printed_at env \<le> epoch"
  shows "\<exists>w'. api_write api r (Cell c) (\<lambda>_. x\<lparr>idle_value := Some (after_write (outcome env) file)\<rparr>) w = Inr w'
    \<and> print_to_file api env \<lparr>sc_handle = handle_new r st (Cell c), sc_world = w, sc_printed = out, sc_calls = cs\<rparr>
      = (Inr (), \<lparr>sc_handle = handle_new r st (Cell c), sc_world = w', sc_printed = out
          @ written (outcome env) file (time_sub time_point_min (printed_at env)), sc_calls = cs\<rparr>)"
proof -
  let ?x = "x\<lparr>idle_value := Some (after_write (outcome env) file)\<rparr>"
  let ?f = "\<lambda>cell. cell\<lparr>idle_value := map_option (after_write (outcome env)) (idle_value cell)\<rparr>"
  obtain w' where w': "api_write api r (Cell c) (\<lambda>_. ?x) w = Inr w'"
    using write_lent [OF inv c] by blast
  have "api_write api r (Cell c) ?f w = Inr w'"
    using write_value [OF x, of ?f] w' by (simp add: v)
  then show ?thesis
    using w' now new_handle_reads(2) [OF x v, of st]
    by (auto simp: print_to_file_def get_file_def then_do_def min_minus_now change_file_def)
qed

lemma print_to_file_overflows:
  assumes "api_read api r (Cell c) w = Inr x" and "idle_value x = Some file" and "epoch < printed_at env"
  shows "fst (print_to_file api env \<lparr>sc_handle = handle_new r st (Cell c), sc_world = w, sc_printed = out, sc_calls = cs\<rparr>)
    = Inl Undefined_Behaviour"
  using assms(3) new_handle_reads(2) [OF assms(1,2), of st]
  by (auto simp: print_to_file_def get_file_def then_do_def min_minus_now)

text \<open>The body, started with a handle that owns a lent cell with contents \<open>x\<close>.\<close>

lemma use_file_refused:
  assumes "api_read api r (Cell c) w = Inr x" and "open_fails env x"
  shows "use_file api env \<lparr>sc_handle = handle_new r st (Cell c), sc_world = w, sc_printed = out, sc_calls = cs\<rparr>
    = (Inr (), \<lparr>sc_handle = handle_new r st (Cell c), sc_world = w,
        sc_printed = out @ [To_Cout_State ''open file pool.log error: '' (opened env)], sc_calls = cs\<rparr>)"
  using assms(2) new_handle_reads(1) [OF assms(1), of st]
  by (simp add: use_file_def is_empty_def then_do_def open_fails_def)

lemma use_file_fills:
  assumes inv: "inv w" and c: "c \<in> lent r w" and x: "api_read api r (Cell c) w = Inr x"
    and "\<not> open_fails env x"
  shows "\<exists>w'. inv w' \<and> c \<in> lent r w' \<and> api_read api r (Cell c) w' = Inr (filled env x)
    \<and> api_write api r (Cell c) (\<lambda>_. cell_after env x) w' = api_write api r (Cell c) (\<lambda>_. cell_after env x) w
    \<and> use_file api env \<lparr>sc_handle = handle_new r st (Cell c), sc_world = w, sc_printed = out, sc_calls = cs\<rparr>
      = then_do (print_to_file api env) (\<lambda>_. then_do (get_file api) (\<lambda>file.
          if good file then recycle_file api (returned_at env) else yields ()))
          \<lparr>sc_handle = handle_new r st (Cell c), sc_world = w', sc_printed = out, sc_calls = cs\<rparr>"
proof (cases "idle_value x")
  case None
  obtain w' where w': "api_write api r (Cell c) (\<lambda>_. filled env x) w = Inr w'" "inv w'"
    "\<forall>r'. lent r' w' = lent r' w"
    using write_lent [OF inv c] by blast
  have "handle_reset api (opened env) (reset_at env) (handle_new r st (Cell c)) w = Inr w'"
    using write_value [OF x, of "fill_cell (opened env) (reset_at env)"] w'(1) None
    by (simp add: handle_reset_def assert_not_unusable_def filled_def)
  moreover have "good (opened env)"
    using assms(4) None by (simp add: open_fails_def)
  ultimately show ?thesis
    using w'(2,3) c read_written [OF w'(1)] write_twice [OF w'(1)] new_handle_reads(1) [OF x, of st]
    by (intro exI [of _ w'])
      (simp add: use_file_def is_empty_def then_do_def [of "is_empty api"] then_do_def [of "if _ then _ else _"]
        then_do_def [of "reset_file _ _ _"] reset_file_def None)
next
  case (Some v)
  then show ?thesis
    using inv c x new_handle_reads(1) [OF x, of st]
    by (intro exI [of _ w])
      (simp add: use_file_def is_empty_def then_do_def [of "is_empty api"] filled_def)
qed

lemma use_file_prints:
  assumes inv: "inv w" and c: "c \<in> lent r w" and x: "api_read api r (Cell c) w = Inr x"
    and ok: "\<not> open_fails env x" and now: "printed_at env \<le> epoch"
  shows "\<exists>w'. api_write api r (Cell c) (\<lambda>_. cell_after env x) w = Inr w'
    \<and> use_file api env \<lparr>sc_handle = handle_new r st (Cell c), sc_world = w, sc_printed = out, sc_calls = cs\<rparr>
      = (if good (after_write (outcome env) (file_in env x)) then recycle_file api (returned_at env) else yields ())
          \<lparr>sc_handle = handle_new r st (Cell c), sc_world = w', sc_printed = out
             @ written (outcome env) (file_in env x) (time_sub time_point_min (printed_at env)), sc_calls = cs\<rparr>"
proof -
  obtain w1 where w1: "inv w1" "c \<in> lent r w1" "api_read api r (Cell c) w1 = Inr (filled env x)"
    "api_write api r (Cell c) (\<lambda>_. cell_after env x) w1 = api_write api r (Cell c) (\<lambda>_. cell_after env x) w"
    "use_file api env \<lparr>sc_handle = handle_new r st (Cell c), sc_world = w, sc_printed = out, sc_calls = cs\<rparr>
      = then_do (print_to_file api env) (\<lambda>_. then_do (get_file api) (\<lambda>file.
          if good file then recycle_file api (returned_at env) else yields ()))
          \<lparr>sc_handle = handle_new r st (Cell c), sc_world = w1, sc_printed = out, sc_calls = cs\<rparr>"
    using use_file_fills [OF inv c x ok] by blast
  have after: "(filled env x)\<lparr>idle_value := Some (after_write (outcome env) (file_in env x))\<rparr> = cell_after env x"
    by (simp add: cell_after_def)
  obtain w' where w': "api_write api r (Cell c) (\<lambda>_. cell_after env x) w1 = Inr w'"
    "print_to_file api env \<lparr>sc_handle = handle_new r st (Cell c), sc_world = w1, sc_printed = out, sc_calls = cs\<rparr>
      = (Inr (), \<lparr>sc_handle = handle_new r st (Cell c), sc_world = w', sc_printed = out
          @ written (outcome env) (file_in env x) (time_sub time_point_min (printed_at env)), sc_calls = cs\<rparr>)"
    using print_to_file_closed [OF w1(1,2,3) file_in_cells(1) now] unfolding after by blast
  have "handle_get api (handle_new r st (Cell c)) w' = Inr (after_write (outcome env) (file_in env x))"
    using new_handle_reads(2) [OF read_written [OF w'(1)]] by simp
  with w' w1(4,5) show ?thesis
    by (simp add: get_file_def then_do_def [of "get_file api"])
qed

lemma use_file_overflows:
  assumes "inv w" and "c \<in> lent r w" and "api_read api r (Cell c) w = Inr x"
    and "\<not> open_fails env x" and "epoch < printed_at env"
  shows "fst (use_file api env \<lparr>sc_handle = handle_new r st (Cell c), sc_world = w, sc_printed = out, sc_calls = cs\<rparr>)
    = Inl Undefined_Behaviour"
proof -
  obtain w1 where w1: "api_read api r (Cell c) w1 = Inr (filled env x)"
    "use_file api env \<lparr>sc_handle = handle_new r st (Cell c), sc_world = w, sc_printed = out, sc_calls = cs\<rparr>
      = then_do (print_to_file api env) (\<lambda>_. then_do (get_file api) (\<lambda>file.
          if good file then recycle_file api (returned_at env) else yields ()))
          \<lparr>sc_handle = handle_new r st (Cell c), sc_world = w1, sc_printed = out, sc_calls = cs\<rparr>"
    using use_file_fills [OF assms(1-4)] by blast
  show ?thesis
    using print_to_file_overflows [OF w1(1) file_in_cells(1) assms(5), of st out cs]
    unfolding w1(2) by (rule then_do_fault)
qed

end

end
