(* ===== verification/Sync_Example.thy ===== *)
theory Sync_Example
  imports Example_Files Sync_Pool
begin

text \<open>
  \<open>examples/sync/pool.cc\<close>: a program with one synchronous pool of one file stream.

  The wake-ups are those that a wait of \<open>get_auto_recycle\<close> would see; there is no other thread, and the
  theorem shows that the program never waits. \<open>thrown\<close> is the text of the exception that opening the file
  throws, if it throws one.
\<close>

subsection \<open>The program\<close>

definition sync_main_body ::
  "('r, 'w, 'o, ofstream) pool_api \<Rightarrow> string option \<Rightarrow> surroundings \<Rightarrow> error_code \<Rightarrow> ('r, 'w, 'o, int) body"
where
  "sync_main_body api thrown env ec =
     (if failed ec then
        then_do (error_text ec) (\<lambda>m. then_do (prints [To_Cerr m]) (\<lambda>_. yields (- 1)))
      else
        then_do (is_empty api) (\<lambda>empty.
        then_do
          (if empty then
             case thrown of
               Some m \<Rightarrow>
                 then_do (prints [To_Cerr (''Open file pool.log error: '' @ m)]) (\<lambda>_. yields False)
             | None \<Rightarrow> then_do (reset_file api (opened env) (reset_at env)) (\<lambda>_. yields True)
           else yields True) (\<lambda>go_on.
        if \<not> go_on then yields (- 1)
        else then_do (print_to_file api env) (\<lambda>_. yields 0))))"

text \<open>\<open>main\<close>: at the end the handle is destroyed, then the pool.\<close>

definition sync_main ::
  "string option \<Rightarrow> surroundings \<Rightarrow> time_point \<Rightarrow> ofstream wake list \<Rightarrow> (unit \<Rightarrow> ofstream sync_pool) \<Rightarrow>
   (int \<times> printed list \<times> (unit \<Rightarrow> ofstream sync_pool)) result option"
where
  "sync_main thrown env now wakes w =
     (case pool_construct () 1 duration_max duration_max w of
        Inl f \<Rightarrow> Some (Inl f)
      | Inr w1 \<Rightarrow>
          map_option (\<lambda>(ec, h, w2).
            case sync_main_body sync_api thrown env ec \<lparr>sc_handle = h, sc_world = w2, sc_printed = [], sc_calls = []\<rparr> of
              (Inl f, s) \<Rightarrow> Inl f
            | (Inr result, s) \<Rightarrow>
                and_then (handle_destroy sync_api (returned_at env) (sc_handle s) (sc_world s)) (\<lambda>(w3, out).
                  Inr (result, sc_printed s, fst (pool_destroy (Some ()) w3))))
            (get_auto_recycle () duration_max now wakes w1))"

declare sync_main_body_def [exec] sync_main_def [exec]

subsection \<open>What it does\<close>

interpretation sync_files: file_pool sync_api "world_lent sync_lent" "\<lambda>w. \<forall>r. sync_inv (w r)"
  by unfold_locales
    (auto simp: sync_api_def read_cell_def update_cell_def all_cells_def and_then_Inr_iff
      split: if_splits)

lemma first_get:
  assumes "sync_pool_create 1 duration_max duration_max = Inr p"
  shows "\<exists>p'. (\<forall>wakes. sync_get d now wakes p = Some (no_error, Cell 0, p', [])) \<and> sync_inv p'
    \<and> sync_lent p' = {0} \<and> idle_value (cells (sp_storage p') 0) = None"
proof -
  have p: "p = \<lparr>sp_storage = storage_of_capacity 1 duration_max duration_max, sp_capacity = 1, sp_disabled = False\<rparr>"
    using assms by (simp add: sync_pool_create_def sync_assert_capacity_def)
  have inv: "sync_inv p"
    by (rule sync_create_inv [OF assms])
  have free: "\<not> sp_disabled p" "0 < free_cells (sp_storage p)"
    by (simp_all add: p free_cells_def storage_of_capacity_def)
  obtain p' c where a: "sync_attempt now p = (p', Some (no_error, Cell c))" "sync_inv p'"
    "sync_lent p' = insert c (sync_lent p)"
    by (rule sync_attempt_free [OF inv free]) blast
  have "c = 0" "idle_value (cells (sp_storage p') 0) = None"
    using a(1)
    by (auto simp: p sync_attempt_def storage_of_capacity_def lease_def lease_available.simps idle_empty_def
        split: option.splits prod.splits if_splits)
  moreover have "sync_lent p = {}"
    by (rule sync_create_lent [OF assms])
  ultimately show ?thesis
    using a sync_get_done [OF a(1)] by auto
qed

text \<open>The destructors at the end: nobody holds a cell, and the pool is disabled.\<close>

lemma last_destructors:
  assumes inv: "\<forall>r. sync_inv (w r)" and lent: "world_lent sync_lent () w = {c}"
  shows "\<exists>w' out. handle_destroy sync_api now (handle_new () Strategy_Recycle (Cell c)) w = Inr (w', out)
    \<and> sync_used (fst (pool_destroy (Some ()) w') ()) = 0
    \<and> sp_disabled (fst (pool_destroy (Some ()) w') ())"
proof -
  obtain w' out where w': "api_recycle sync_api now () (Cell c) w = Inr (w', out)"
    "loan_ended (world_lent sync_lent) () c w w'"
    using sync_returns.recycle_lent [OF inv, of c "()"] lent by blast
  then have "used_cells (sp_storage (w' ())) = []"
    using lent by (auto simp: loan_ended_def world_lent_def sync_lent_def)
  with w'(1) show ?thesis
    by (auto simp: handle_destroy_def handle_release_def call_strategy_def handle_recycle_def
        assert_not_unusable_def pool_destroy_def sync_disable_def sync_used_def storage_stats_of_def)
qed

lemma sync_body_outcome:
  assumes inv: "\<forall>r. sync_inv (w r)" and c: "c \<in> world_lent sync_lent () w"
    and x: "api_read sync_api () (Cell c) w = Inr x" and none: "idle_value x = None"
  defines "h \<equiv> handle_new () Strategy_Recycle (Cell c)"
  shows "sync_main_body sync_api (Some m) env no_error \<lparr>sc_handle = h, sc_world = w, sc_printed = [], sc_calls = []\<rparr>
      = (Inr (- 1), \<lparr>sc_handle = h, sc_world = w, sc_printed = [To_Cerr (''Open file pool.log error: '' @ m)], sc_calls = []\<rparr>)"
    and "epoch < printed_at env \<Longrightarrow>
      fst (sync_main_body sync_api None env no_error \<lparr>sc_handle = h, sc_world = w, sc_printed = [], sc_calls = []\<rparr>)
        = Inl Undefined_Behaviour"
    and "printed_at env \<le> epoch \<Longrightarrow>
      \<exists>w'. sync_main_body sync_api None env no_error \<lparr>sc_handle = h, sc_world = w, sc_printed = [], sc_calls = []\<rparr>
          = (Inr 0, \<lparr>sc_handle = h, sc_world = w', sc_printed =
              written (outcome env) (opened env) (time_sub time_point_min (printed_at env)), sc_calls = []\<rparr>)
        \<and> (\<forall>r. sync_inv (w' r)) \<and> world_lent sync_lent () w' = world_lent sync_lent () w"
proof -
  note empty = sync_files.new_handle_reads(1) [OF x, of Strategy_Recycle, folded h_def, unfolded none]
  show "sync_main_body sync_api (Some m) env no_error \<lparr>sc_handle = h, sc_world = w, sc_printed = [], sc_calls = []\<rparr>
      = (Inr (- 1), \<lparr>sc_handle = h, sc_world = w, sc_printed = [To_Cerr (''Open file pool.log error: '' @ m)], sc_calls = []\<rparr>)"
    using empty by (simp add: sync_main_body_def is_empty_def then_do_def)
  let ?y = "fill_cell (opened env) (reset_at env) x"
  obtain w1 where w1: "api_write sync_api () (Cell c) (\<lambda>_. ?y) w = Inr w1" "\<forall>r. sync_inv (w1 r)"
    "\<forall>r'. world_lent sync_lent r' w1 = world_lent sync_lent r' w"
    using sync_returns.write_lent [OF inv c] by blast
  have "handle_reset sync_api (opened env) (reset_at env) h w = Inr w1"
    using sync_files.write_value [OF x, of "fill_cell (opened env) (reset_at env)"] w1(1)
    by (simp add: handle_reset_def assert_not_unusable_def h_def)
  then have start: "sync_main_body sync_api None env no_error \<lparr>sc_handle = h, sc_world = w, sc_printed = [], sc_calls = []\<rparr>
      = then_do (print_to_file sync_api env) (\<lambda>_. yields 0) \<lparr>sc_handle = h, sc_world = w1, sc_printed = [], sc_calls = []\<rparr>"
    using empty by (simp add: sync_main_body_def is_empty_def then_do_def [of "is_empty _"]
        then_do_def [of "then_do _ _"] then_do_def [of "reset_file _ _ _"] reset_file_def)
  have y: "api_read sync_api () (Cell c) w1 = Inr ?y" "idle_value ?y = Some (opened env)"
    using sync_files.read_written [OF w1(1)] by (simp_all add: fill_cell_def)
  have c1: "c \<in> world_lent sync_lent () w1"
    using w1(3) c by simp
  show "fst (sync_main_body sync_api None env no_error \<lparr>sc_handle = h, sc_world = w, sc_printed = [], sc_calls = []\<rparr>)
      = Inl Undefined_Behaviour" if "epoch < printed_at env"
    unfolding start unfolding h_def
    by (rule then_do_fault) (rule sync_files.print_to_file_overflows [OF y that])
  show "\<exists>w'. sync_main_body sync_api None env no_error \<lparr>sc_handle = h, sc_world = w, sc_printed = [], sc_calls = []\<rparr>
          = (Inr 0, \<lparr>sc_handle = h, sc_world = w', sc_printed =
              written (outcome env) (opened env) (time_sub time_point_min (printed_at env)), sc_calls = []\<rparr>)
        \<and> (\<forall>r. sync_inv (w' r)) \<and> world_lent sync_lent () w' = world_lent sync_lent () w"
    if now: "printed_at env \<le> epoch"
  proof -
    obtain w2 where w2: "api_write sync_api () (Cell c)
        (\<lambda>_. ?y\<lparr>idle_value := Some (after_write (outcome env) (opened env))\<rparr>) w1 = Inr w2"
      "print_to_file sync_api env \<lparr>sc_handle = h, sc_world = w1, sc_printed = [], sc_calls = []\<rparr>
        = (Inr (), \<lparr>sc_handle = h, sc_world = w2, sc_printed =
            written (outcome env) (opened env) (time_sub time_point_min (printed_at env)), sc_calls = []\<rparr>)"
      using sync_files.print_to_file_closed [OF w1(2) c1 y now, of Strategy_Recycle "[]", folded h_def]
      by auto
    have "(\<forall>r. sync_inv (w2 r)) \<and> world_lent sync_lent () w2 = world_lent sync_lent () w1"
      using sync_returns.write_lent [OF w1(2) c1] w2(1) by (metis Inr_inject)
    then show ?thesis
      using start w2(2) w1(3) by (simp add: then_do_def)
  qed
qed

text \<open>
  C34. The whole behaviour of the synchronous example. It never waits, whatever the wake-ups would be. If
  opening the file throws, the text goes to \<open>std::cerr\<close> and the result is \<open>-1\<close>. Otherwise, with the clock
  past its epoch, the subtraction that is printed overflows. Otherwise the result is 0, whether or not
  the file could be opened (a stream does not throw when it cannot open its file) and written. At the
  end the cell is back in the pool, and the pool is disabled.
\<close>

theorem sync_example_outcome:
  "map_option (map_sum id (\<lambda>(result, out, w'). (result, out, sync_used (w' ()), sp_disabled (w' ()))))
     (sync_main thrown env now wakes w)
   = Some (case thrown of
       Some m \<Rightarrow> Inr (- 1, [To_Cerr (''Open file pool.log error: '' @ m)], 0, True)
     | None \<Rightarrow>
         if epoch < printed_at env then Inl Undefined_Behaviour
         else Inr (0, if good (opened env) \<and> good (outcome env)
                      then [To_File (time_sub time_point_min (printed_at env))] else [], 0, True))"
proof -
  obtain p :: "ofstream sync_pool" where p: "sync_pool_create 1 duration_max duration_max = Inr p"
    by (simp add: sync_pool_create_def sync_assert_capacity_def)
  obtain p' where p': "\<And>wakes. sync_get duration_max now wakes p = Some (no_error, Cell 0, p', [])"
    "sync_inv p'" "sync_lent p' = {0}" "idle_value (cells (sp_storage p') 0) = None"
    using first_get [OF p, of duration_max now] by blast
  let ?w = "\<lambda>_::unit. p'" and ?h = "handle_new () Strategy_Recycle (Cell 0)"
  have start: "sync_main thrown env now wakes w =
    (case sync_main_body sync_api thrown env no_error \<lparr>sc_handle = ?h, sc_world = ?w, sc_printed = [], sc_calls = []\<rparr> of
       (Inl f, s) \<Rightarrow> Some (Inl f)
     | (Inr result, s) \<Rightarrow>
         Some (and_then (handle_destroy sync_api (returned_at env) (sc_handle s) (sc_world s)) (\<lambda>(w3, out).
           Inr (result, sc_printed s, fst (pool_destroy (Some ()) w3)))))"
    using p p'(1)
    by (simp add: sync_main_def pool_construct_def get_auto_recycle_def get_handle_def fun_upd_def
        split: prod.splits sum.splits)
  have inv: "\<forall>r. sync_inv (?w r)" and lent: "world_lent sync_lent () ?w = {0}" "0 \<in> world_lent sync_lent () ?w"
    using p'(2,3) by (simp_all add: world_lent_def)
  obtain x where x: "api_read sync_api () (Cell 0) ?w = Inr x" "idle_value x = None"
    using sync_returns.read_lent [OF inv lent(2)] p'(4)
    by (auto simp: sync_api_def read_cell_def split: if_splits)
  note body = sync_body_outcome [OF inv lent(2) x]
  show ?thesis
  proof (cases thrown)
    case (Some m)
    with body(1) [of m env] last_destructors [OF inv lent(1), of "returned_at env"] show ?thesis
      unfolding start by auto
  next
    case None
    show ?thesis
    proof (cases "epoch < printed_at env")
      case True
      with body(2) [OF True] None show ?thesis
        unfolding start by (auto split: prod.splits)
    next
      case False
      then obtain w' where w': "sync_main_body sync_api None env no_error
          \<lparr>sc_handle = ?h, sc_world = ?w, sc_printed = [], sc_calls = []\<rparr>
          = (Inr 0, \<lparr>sc_handle = ?h, sc_world = w', sc_printed =
              written (outcome env) (opened env) (time_sub time_point_min (printed_at env)), sc_calls = []\<rparr>)"
        "\<forall>r. sync_inv (w' r)" "world_lent sync_lent () w' = {0}"
        using body(3) [of env] lent(1) by (auto simp: not_less)
      obtain w4 out where "handle_destroy sync_api (returned_at env) ?h w' = Inr (w4, out)"
        "sync_used (fst (pool_destroy (Some ()) w4) ()) = 0" "sp_disabled (fst (pool_destroy (Some ()) w4) ())"
        using last_destructors [OF w'(2,3)] by blast
      with False show ?thesis
        unfolding start unfolding None w'(1) by (simp add: written_def)
    qed
  qed
qed

end
