(* ===== verification/Timer_Waits.thy ===== *)
theory Timer_Waits
  imports Async_Pool
begin

text \<open>
  The waits on timers that a program leaves with its I/O context.

  A call of the run function of an I/O context returns when no work is left: no task, no wait on a timer that
  is armed, and no completion of a wait that was aborted. This theory keeps the waits of the timers of the
  pools' queues, as the calls of Boost.Asio make them: \<open>async_wait\<close> arms a wait; setting the expiry of a
  timer, cancelling it or destroying it aborts the wait that is armed, whose completion, with the error
  \<open>operation_aborted\<close>, is then work of the I/O context. The timer of an I/O context \<open>'c\<close> that belongs to the
  queue of the pool at \<open>'r\<close> has the name \<open>'r \<times> 'c\<close>. A wait is listed with the deadline it was armed for,
  which its completion passes to \<open>cancel\<close>.
\<close>

subsection \<open>Waits\<close>

record 'k waits =
  armed :: "('k \<times> time_point) list"
  aborted :: "('k \<times> time_point) list"

definition no_waits :: "'k waits" where
  "no_waits = \<lparr>armed = [], aborted = []\<rparr>"

definition operation_aborted :: error_code where
  "operation_aborted = \<lparr>ec_value = 125, ec_category = System_Category\<rparr>"

definition abort_wait :: "'k \<Rightarrow> 'k waits \<Rightarrow> 'k waits" where
  "abort_wait k ws =
     ws\<lparr>armed := filter (\<lambda>x. fst x \<noteq> k) (armed ws), aborted := aborted ws @ filter (\<lambda>x. fst x = k) (armed ws)\<rparr>"

fun wait_effect :: "'r \<times> ('c, 't) asio_call \<Rightarrow> ('r \<times> 'c) waits \<Rightarrow> ('r \<times> 'c) waits" where
  "wait_effect (r, Timer_Async_Wait c t) ws = ws\<lparr>armed := armed ws @ [((r, c), t)]\<rparr>"
| "wait_effect (r, Timer_Expires_At c t) ws = abort_wait (r, c) ws"
| "wait_effect (r, Timer_Cancel c) ws = abort_wait (r, c) ws"
| "wait_effect (r, Timer_Destroy c) ws = abort_wait (r, c) ws"
| "wait_effect (r, Timer_Create c) ws = ws"
| "wait_effect (r, Post c t) ws = ws"
| "wait_effect (r, Dispatch c t) ws = ws"

definition wait_effects :: "('r \<times> ('c, 't) asio_call) list \<Rightarrow> ('r \<times> 'c) waits \<Rightarrow> ('r \<times> 'c) waits" where
  "wait_effects calls ws = fold wait_effect calls ws"

definition outstanding :: "'k waits \<Rightarrow> nat" where
  "outstanding ws = length (armed ws) + length (aborted ws)"

declare no_waits_def [exec] operation_aborted_def [exec] abort_wait_def [exec] wait_effects_def [exec]

lemma operation_aborted_failed [simp]: "failed operation_aborted"
  by (simp add: failed_def operation_aborted_def)

lemma no_waits_simps [simp]: "armed no_waits = []" "aborted no_waits = []" "outstanding no_waits = 0"
  by (simp_all add: no_waits_def outstanding_def)

lemma wait_effects_simps [simp]:
  "wait_effects [] ws = ws"
  "wait_effects (x # calls) ws = wait_effects calls (wait_effect x ws)"
  "wait_effects (calls @ calls') ws = wait_effects calls' (wait_effects calls ws)"
  by (simp_all add: wait_effects_def)

lemma abort_wait_simps [simp]:
  "armed (abort_wait k ws) = filter (\<lambda>x. fst x \<noteq> k) (armed ws)"
  "outstanding (abort_wait k ws) = outstanding ws"
  "outstanding (abort_wait k ws\<lparr>armed := filter (\<lambda>x. fst x \<noteq> k) (armed ws) @ [x]\<rparr>) = Suc (outstanding ws)"
  using sum_length_filter_compl [of "\<lambda>x. fst x = k" "armed ws"]
  by (simp_all add: abort_wait_def outstanding_def)

lemma wait_effects_queue_calls [simp]:
  "wait_effects (map (Pair r) (queue_calls calls)) ws = wait_effects (map (Pair r) calls) ws"
proof (induction calls arbitrary: ws)
  case (Cons x calls)
  have "wait_effect (r, map_asio_call id Expired_Task x) ws = wait_effect (r, x) ws"
    by (cases x) simp_all
  with Cons show ?case by (simp add: queue_calls_def)
qed simp

lemma wait_effects_abort:
  "armed (wait_effects (map (Pair r) (map Timer_Cancel cs)) ws) = filter (\<lambda>x. fst x \<notin> Pair r ` set cs) (armed ws)"
  "armed (wait_effects (map (Pair r) (map Timer_Destroy cs)) ws) = filter (\<lambda>x. fst x \<notin> Pair r ` set cs) (armed ws)"
  "outstanding (wait_effects (map (Pair r) (map Timer_Cancel cs)) ws) = outstanding ws"
  "outstanding (wait_effects (map (Pair r) (map Timer_Destroy cs)) ws) = outstanding ws"
  by (induction cs arbitrary: ws) (auto intro: filter_cong simp: conj_commute)

subsection \<open>The waits of a queue\<close>

text \<open>
  Every wait that is armed is on a timer of the queue, and none is if the queue is empty. An operation of
  the queue adds at most \<open>n\<close> waits to those that are outstanding.
\<close>

definition waits_on_timers :: "'r \<Rightarrow> ('c, 'q) request_queue \<Rightarrow> ('r \<times> 'c) waits \<Rightarrow> bool" where
  "waits_on_timers r q ws \<longleftrightarrow> (\<forall>x \<in> set (armed ws). fst x \<in> Pair r ` set (rq_timers q))"

definition waits_ok :: "'r \<Rightarrow> ('c, 'q) request_queue \<Rightarrow> ('r \<times> 'c) waits \<Rightarrow> bool" where
  "waits_ok r q ws \<longleftrightarrow> waits_on_timers r q ws \<and> (rq_expires q = [] \<longrightarrow> armed ws = [])"

definition waits_follow ::
  "'r \<Rightarrow> ('c, 'q) request_queue \<Rightarrow> ('c, 'q') request_queue \<Rightarrow> ('c, 't) asio_call list \<Rightarrow> nat \<Rightarrow> bool" where
  "waits_follow r q q' calls n \<longleftrightarrow>
     (\<forall>ws. waits_ok r q ws \<longrightarrow> waits_ok r q' (wait_effects (map (Pair r) calls) ws)
        \<and> outstanding (wait_effects (map (Pair r) calls) ws) \<le> outstanding ws + n)"

lemma waits_follow_refl [simp]: "waits_follow r q q [] n"
  by (simp add: waits_follow_def)

lemma waits_follow_mono: "waits_follow r q q' calls n \<Longrightarrow> n \<le> k \<Longrightarrow> waits_follow r q q' calls k"
  by (fastforce simp: waits_follow_def)

lemma waits_follow_queue_calls [simp]:
  "waits_follow r q q' (queue_calls calls) n \<longleftrightarrow> waits_follow r q q' calls n"
  by (simp add: waits_follow_def)

lemma waits_follow_tasks [simp]:
  "waits_follow r q q' (calls @ [Post c t]) n \<longleftrightarrow> waits_follow r q q' calls n"
  "waits_follow r q q [Post c t] n" "waits_follow r q q [Dispatch c t] n"
  by (simp_all add: waits_follow_def)

lemma update_timer_waits:
  assumes step: "update_timer q = Inr (q', calls)" and ws: "waits_on_timers r q ws"
  shows "waits_ok r q' (wait_effects (map (Pair r) calls) ws)"
    "outstanding (wait_effects (map (Pair r) calls) ws) \<le> Suc (outstanding ws)"
proof -
  let ?ws' = "wait_effects (map (Pair r) calls) ws"
  have "waits_ok r q' ?ws' \<and> outstanding ?ws' \<le> Suc (outstanding ws)"
  proof (cases "rq_expires q")
    case Nil
    then have "calls = map Timer_Cancel (rq_timers q) @ map Timer_Destroy (rq_timers q)" "q' = q\<lparr>rq_timers := []\<rparr>"
      using step by (simp_all add: update_timer_def)
    then show ?thesis
      using ws by (auto simp: waits_ok_def waits_on_timers_def wait_effects_abort filter_empty_conv
          simp del: map_map)
  next
    case (Cons x xs)
    obtain e t k where x: "x = (e, t, k)" by (cases x)
    obtain c where c: "er_io_context (rq_nodes q k) = Some c"
      using step Cons x by (auto simp: update_timer_def split: option.splits)
    obtain q1 calls1 where g: "get_timer c q = (q1, calls1)" by (cases "get_timer c q")
    have "q' = q1" and calls: "calls = calls1 @ [Timer_Expires_At c t, Timer_Async_Wait c t]"
      using step Cons by (simp_all add: update_timer_def x c g)
    moreover have "set (rq_timers q1) = insert c (set (rq_timers q))" "rq_expires q1 = rq_expires q"
      and "wait_effects (map (Pair r) calls1) ws = ws"
      using g by (auto simp: get_timer_def split: if_splits)
    ultimately show ?thesis
      using ws by (auto simp: waits_ok_def waits_on_timers_def Cons)
  qed
  then show "waits_ok r q' ?ws'" "outstanding ?ws' \<le> Suc (outstanding ws)"
    by simp_all
qed

lemma update_timer_follows:
  "update_timer q1 = Inr (q', calls) \<Longrightarrow> rq_timers q1 = rq_timers q \<Longrightarrow> waits_follow r q q' calls (Suc 0)"
  unfolding waits_follow_def using update_timer_waits [of q1 q' calls r]
  by (auto simp: waits_ok_def [of r q] waits_on_timers_def)

lemma rq_push_follows:
  "rq_push c d now req q = Inr (b, q', calls) \<Longrightarrow> waits_follow r q q' calls (Suc 0)"
  by (auto simp: rq_push_def Let_def and_then_Inr_iff rq_emplace_def
      split: if_splits list.splits intro: update_timer_follows)

lemma rq_pop_follows:
  "rq_pop q = Inr (x, q', calls) \<Longrightarrow> waits_follow r q q' calls (if rq_contents q = [] then 0 else Suc 0)"
  by (auto simp: rq_pop_def Let_def and_then_Inr_iff rq_contents_def
      split: if_splits list.splits option.splits intro: update_timer_follows)

subsection \<open>The waits of a pool\<close>

lemma async_get_follows:
  assumes "async_get assoc c h d now now' p = Inr (p', calls)"
  shows "waits_follow r (ap_queue p) (ap_queue p') calls (Suc 0)"
proof -
  obtain p1 m where first: "async_get_locked c h d now p = (p1, m)"
    by (cases "async_get_locked c h d now p")
  have same: "ap_queue p1 = ap_queue p" "m = None \<or> (\<exists>t. m = Some [Post c t]) \<or> (\<exists>t. m = Some [Dispatch c t])"
    using first by (auto simp: async_get_locked_def split: prod.splits option.splits if_splits)
  show ?thesis
  proof (cases m)
    case None
    obtain b q calls1 where push: "rq_push c d now' (list_iterator_handler_of assoc h) (ap_queue p) = Inr (b, q, calls1)"
      using assms first None same(1) by (auto simp: async_get_def async_get_push_def Let_def and_then_Inr_iff)
    with rq_push_follows [OF push, of r] show ?thesis
      using assms first None same(1) by (auto simp: async_get_def async_get_push_def Let_def)
  next
    case (Some calls1)
    with assms first same show ?thesis
      by (auto simp: async_get_def)
  qed
qed

lemma async_recycle_follows:
  assumes "async_recycle now it p = Inr (p', calls)"
  shows "waits_follow r (ap_queue p) (ap_queue p') calls (if waiting p = [] then 0 else Suc 0)"
proof -
  obtain x q calls1 where pop: "rq_pop (ap_queue p) = Inr (x, q, calls1)"
    using assms by (auto simp: async_recycle_def and_then_Inr_iff)
  then have "ap_queue p' = q \<and> (\<exists>ts. calls = queue_calls calls1 @ ts \<and> (ts = [] \<or> (\<exists>c t. ts = [Post c t])))"
    using assms by (auto simp: async_recycle_def and_then_Inr_iff split: option.splits)
  then show ?thesis
    using rq_pop_follows [OF pop, of r] by auto
qed

lemma async_waste_follows:
  assumes "async_waste it p = Inr (p', calls)"
  shows "waits_follow r (ap_queue p) (ap_queue p') calls (if waiting p = [] then 0 else Suc 0)"
proof -
  obtain x q calls1 where pop: "rq_pop (ap_queue p) = Inr (x, q, calls1)"
    using assms by (auto simp: async_waste_def and_then_Inr_iff)
  then have "ap_queue p' = q \<and> (\<exists>ts. calls = queue_calls calls1 @ ts \<and> (ts = [] \<or> (\<exists>c t. ts = [Post c t])))"
    using assms by (auto simp: async_waste_def and_then_Inr_iff split: option.splits)
  then show ?thesis
    using rq_pop_follows [OF pop, of r] by auto
qed

lemma async_disable_idle:
  "waiting p = [] \<Longrightarrow> async_disable p = Inr (p\<lparr>ap_disabled := True\<rparr>, [])"
  by (simp add: async_disable_def refuse_queued.simps rq_pop_def rq_contents_def)

lemma async_wait_aborted: "async_wait_done operation_aborted t p = Inr (p, [])"
  by (simp add: async_wait_done_def rq_cancel_failed)

end
