(* ===== verification/Async_Examples.thy ===== *)
theory Async_Examples
  imports Example_Files Async_Clients Timer_Waits
begin

text \<open>
  \<open>examples/async/pool.cc\<close>, \<open>examples/async/coro.cc\<close> and \<open>examples/async/strand.cc\<close>.

  Each program makes one pool of file streams, asks it for one or three handles, and runs an I/O context
  until no work is left: no task, no wait on a timer that is armed and no completion of an aborted wait
  (\<open>Timer_Waits\<close>). The bodies never overlap: there is one thread, one coroutine, or a strand. What the
  scheduler chooses is the order of the tasks and completions; the file system and the clock are the
  surroundings of each call of a body. The waits on timers of these programs are for the largest
  duration and never end by themselves, so a program whose timer stays armed does not end.
\<close>

subsection \<open>The bodies\<close>

text \<open>\<open>on_get::operator ()\<close> of \<open>pool.cc\<close>.\<close>

definition on_get_body ::
  "('r, 'w, 'o, ofstream) pool_api \<Rightarrow> surroundings \<Rightarrow> error_code \<Rightarrow> ('r, 'w, 'o, unit) body" where
  "on_get_body api env ec =
     catching
       (if failed ec then then_do (error_text ec) (\<lambda>m. prints [To_Cerr m])
        else then_do (prints [To_Cout ''got resource handle'']) (\<lambda>_. use_file api env))
       (\<lambda>e. prints [To_Cerr (what e)])"

text \<open>
  In \<open>strand.cc\<close> the same call operator belongs to a class with a reference to a strand, which it
  names as its executor.
\<close>

record 's strand_handler =
  oh_strand :: 's

definition strand_on_get_body ::
  "('r, 'w, 'o, ofstream) pool_api \<Rightarrow> surroundings \<Rightarrow> error_code \<Rightarrow> ('r, 'w, 'o, unit) body" where
  "strand_on_get_body api env ec = on_get_body api env ec"

definition strand_of :: "'s strand_handler \<Rightarrow> 's option" where
  "strand_of h = Some (oh_strand h)"

text \<open>The coroutine of \<open>coro.cc\<close>, from the point where \<open>get_auto_waste\<close> returns.\<close>

definition coro_body ::
  "('r, 'w, 'o, ofstream) pool_api \<Rightarrow> surroundings \<Rightarrow> error_code \<Rightarrow> ('r, 'w, 'o, unit) body" where
  "coro_body api env ec =
     (if failed ec then then_do (error_text ec) (\<lambda>m. prints [To_Cout (''handle error: '' @ m)])
      else then_do (prints [To_Cout ''got resource handle'']) (\<lambda>_. use_file api env))"

text \<open>
  A call: the handle is the parameter or a local variable and is destroyed at the end. The result lists
  what was printed and what was asked of Boost.Asio.
\<close>

definition call_body ::
  "('r, 'w, 'o, ofstream) pool_api \<Rightarrow> ('r, 'w, 'o, unit) body \<Rightarrow> time_point \<Rightarrow> 'r handle \<Rightarrow> 'w \<Rightarrow>
   (printed list \<times> 'o list \<times> 'w) result" where
  "call_body api body now h w =
     (case body \<lparr>sc_handle = h, sc_world = w, sc_printed = [], sc_calls = []\<rparr> of
        (Inl f, s) \<Rightarrow> Inl f
      | (Inr _, s) \<Rightarrow>
          and_then (handle_destroy api now (sc_handle s) (sc_world s)) (\<lambda>(w', out).
            Inr (sc_printed s, sc_calls s @ out, w')))"

subsection \<open>The programs\<close>

text \<open>The calls of \<open>get_auto_waste\<close>, each with the two readings of the clock it may make.\<close>

fun async_requests ::
  "('u \<Rightarrow> 'x) \<Rightarrow> 'r \<Rightarrow> 'c \<Rightarrow> ('u \<times> time_point \<times> time_point) list \<Rightarrow>
   ('c, 'x, 'r, 'u, ofstream) async_world \<Rightarrow> ('r \<times> 'c) waits \<Rightarrow>
   (('c, 'x, 'r, 'u, ofstream) async_world \<times> ('r \<times> 'c) waits) result"
where
  "async_requests assoc r c [] w ws = Inr (w, ws)"
| "async_requests assoc r c ((u, now, now') # gets) w ws =
     and_then (async_get_auto_waste assoc r c u duration_max now now' w) (\<lambda>(w', out).
       async_requests assoc r c gets w' (wait_effects out ws))"

text \<open>
  \<open>service.run()\<close>: as long as work is left, a task is executed or the completion of an aborted wait is
  called, chosen by the number in the schedule. The result lists what was delivered to whom, and what
  was printed. It is \<open>None\<close> if the call has not returned at the end of the schedule, or if all that is
  left is a wait that is armed.
\<close>

type_synonym ('c, 'x, 'r, 'u) bodies =
  "surroundings \<Rightarrow> error_code \<Rightarrow>
   ('r, ('c, 'x, 'r, 'u, ofstream) async_world, ('c, 'x, 'r, 'u) async_output, unit) body"

type_synonym ('c, 'x, 'r, 'u) service_result =
  "(('u \<times> error_code) list \<times> printed list \<times> ('c, 'x, 'r, 'u, ofstream) async_world \<times> ('r \<times> 'c) waits) option result"

definition no_work :: "'r \<Rightarrow> ('c, 'x, 'r, 'u, ofstream) async_world \<Rightarrow> ('r \<times> 'c) waits \<Rightarrow> bool" where
  "no_work r w ws \<longleftrightarrow> snd (w r) = [] \<and> armed ws = [] \<and> aborted ws = []"

fun service_run ::
  "('c, 'x, 'r, 'u) bodies \<Rightarrow> 'r \<Rightarrow> (nat \<times> surroundings) list \<Rightarrow>
   ('c, 'x, 'r, 'u, ofstream) async_world \<Rightarrow> ('r \<times> 'c) waits \<Rightarrow> ('c, 'x, 'r, 'u) service_result"
where
  "service_run body r [] w ws = Inr (if no_work r w ws then Some ([], [], w, ws) else None)"
| "service_run body r ((k, env) # schedule) w ws =
     (let n = length (snd (w r)); m = length (aborted ws); j = k mod (n + m)
      in if no_work r w ws then Inr (Some ([], [], w, ws))
         else if n + m = 0 then Inr None
         else if j < n then
           and_then (deliver r j w) (\<lambda>((u, ec, h), w1).
           and_then (call_body async_api (body env ec) (returned_at env) h w1) (\<lambda>(out, calls, w2).
           and_then (service_run body r schedule w2 (wait_effects calls ws)) (\<lambda>res.
             Inr (map_option (\<lambda>(ds, outs, w3, ws'). ((u, ec) # ds, out @ outs, w3, ws')) res))))
         else
           and_then (at_site r w
             (async_wait_done operation_aborted (snd (aborted ws ! (j - n))) (fst (w r)))) (\<lambda>(w1, calls).
             service_run body r schedule w1
               (wait_effects calls (ws\<lparr>aborted := remove_nth (j - n) (aborted ws)\<rparr>))))"

text \<open>The end of \<open>main\<close>: the service runs, and the pool is destroyed.\<close>

definition run_and_destroy ::
  "('c, 'x, 'r, 'u) bodies \<Rightarrow> 'r \<Rightarrow> (nat \<times> surroundings) list \<Rightarrow>
   ('c, 'x, 'r, 'u, ofstream) async_world \<Rightarrow> ('r \<times> 'c) waits \<Rightarrow> ('c, 'x, 'r, 'u) service_result"
where
  "run_and_destroy body r schedule w ws =
     and_then (service_run body r schedule w ws) (\<lambda>res.
       case res of
         None \<Rightarrow> Inr None
       | Some (ds, out, w', ws') \<Rightarrow>
           and_then (async_pool_destroy (Some r) w') (\<lambda>(w'', calls).
             Inr (Some (ds, out, w'', wait_effects calls ws'))))"

definition async_main ::
  "('u \<Rightarrow> 'x) \<Rightarrow> ('c, 'x, 'r, 'u) bodies \<Rightarrow> 'r \<Rightarrow> 'c \<Rightarrow> nat \<Rightarrow> ('u \<times> time_point \<times> time_point) list \<Rightarrow>
   (nat \<times> surroundings) list \<Rightarrow> ('c, 'x, 'r, 'u, ofstream) async_world \<Rightarrow> ('c, 'x, 'r, 'u) service_result"
where
  "async_main assoc body r c capacity gets schedule w =
     and_then (async_pool_construct r capacity 10 duration_max duration_max w) (\<lambda>w1.
     and_then (async_requests assoc r c gets w1 no_waits) (\<lambda>(w2, ws).
       run_and_destroy body r schedule w2 ws))"

text \<open>
  In \<open>pool.cc\<close> the handler has no executor of its own. In \<open>coro.cc\<close> the first task of the service starts
  the coroutine, which makes its request and is suspended until its handler, whose executor is that of
  the \<open>yield_context\<close>, is called. In \<open>strand.cc\<close> all three handlers refer to the same strand.
\<close>

definition callback_main ::
  "time_point \<Rightarrow> time_point \<Rightarrow> (nat \<times> surroundings) list \<Rightarrow>
   (unit, 's option, unit, unit, ofstream) async_world \<Rightarrow> (unit, 's option, unit, unit) service_result"
where
  "callback_main now now' =
     async_main (\<lambda>_. None) (on_get_body async_api) () () 1 [((), now, now')]"

definition coro_main ::
  "'s \<Rightarrow> time_point \<Rightarrow> time_point \<Rightarrow> (nat \<times> surroundings) list \<Rightarrow>
   (unit, 's option, unit, unit, ofstream) async_world \<Rightarrow> (unit, 's option, unit, unit) service_result"
where
  "coro_main executor now now' schedule w =
     and_then (async_pool_construct () 1 10 duration_max duration_max w) (\<lambda>w1.
       case schedule of
         [] \<Rightarrow> Inr None
       | start # turns \<Rightarrow>
           and_then (async_requests (\<lambda>_. Some executor) () () [((), now, now')] w1 no_waits) (\<lambda>(w2, ws).
             run_and_destroy (coro_body async_api) () turns w2 ws))"

definition strand_main ::
  "'s \<Rightarrow> time_point \<times> time_point \<Rightarrow> time_point \<times> time_point \<Rightarrow> time_point \<times> time_point \<Rightarrow>
   (nat \<times> surroundings) list \<Rightarrow> (unit, 's option, unit, 's strand_handler, ofstream) async_world \<Rightarrow>
   (unit, 's option, unit, 's strand_handler) service_result"
where
  "strand_main strand t1 t2 t3 =
     (let h = \<lparr>oh_strand = strand\<rparr>
      in async_main strand_of (strand_on_get_body async_api) () () 2 [(h, t1), (h, t2), (h, t3)])"

declare on_get_body_def [exec] strand_on_get_body_def [exec] strand_of_def [exec] coro_body_def [exec] call_body_def [exec]
  no_work_def [exec] run_and_destroy_def [exec] async_main_def [exec] callback_main_def [exec] coro_main_def [exec]
  strand_main_def [exec]

subsection \<open>A pool of streams\<close>

interpretation async_files: file_pool async_api async_world_lent "async_world_ok assoc"
  for assoc :: "'u \<Rightarrow> 'x"
  by unfold_locales
    (auto simp: async_api_def read_cell_def update_cell_def all_cells_def and_then_Inr_iff
      split: if_splits)

subsection \<open>What a call of a body does to the pool\<close>

text \<open>The contract of a body: cell \<open>c\<close> of pool \<open>r\<close> has been given back, and nothing else happened.\<close>

definition finished ::
  "('u \<Rightarrow> 'x) \<Rightarrow> 'r \<Rightarrow> nat \<Rightarrow> ('c, 'x, 'r, 'u, 'v) async_world \<Rightarrow> ('c, 'x, 'r, 'u, 'v) async_world \<Rightarrow> bool"
where
  "finished assoc r c w w' \<longleftrightarrow>
     (\<exists>p calls. w' = w(r := (p, snd (w r) @ posted calls)) \<and> site_ok assoc r (p, snd (w r) @ posted calls)
        \<and> given_back c (fst (w r)) p calls)"

text \<open>The same, with the calls of Boost.Asio that were made.\<close>

definition finished_with ::
  "('u \<Rightarrow> 'x) \<Rightarrow> 'r \<Rightarrow> nat \<Rightarrow> ('c, 'x, 'r, 'u, 'v) async_world \<Rightarrow> ('c, 'x, 'r, 'u, 'v) async_world \<Rightarrow>
   ('c, 'x, 'r, 'u) async_output list \<Rightarrow> bool"
where
  "finished_with assoc r c w w' out \<longleftrightarrow>
     (\<exists>p calls. w' = w(r := (p, snd (w r) @ posted calls)) \<and> site_ok assoc r (p, snd (w r) @ posted calls)
        \<and> given_back c (fst (w r)) p calls \<and> out = map (Pair r) calls
        \<and> waits_follow r (ap_queue (fst (w r))) (ap_queue p) calls (if waiting (fst (w r)) = [] then 0 else Suc 0))"

lemma finished_with_finished: "finished_with assoc r c w w' out \<Longrightarrow> finished assoc r c w w'"
  by (auto simp: finished_with_def finished_def)

definition quiet :: "printed list \<Rightarrow> bool" where
  "quiet out \<longleftrightarrow> (\<forall>x \<in> set out. \<forall>m. x \<noteq> To_Cerr m)"

lemma quiet_simps [simp]:
  "quiet []" "quiet (x # xs) \<longleftrightarrow> (\<forall>m. x \<noteq> To_Cerr m) \<and> quiet xs"
  "quiet (xs @ ys) \<longleftrightarrow> quiet xs \<and> quiet ys"
  "quiet (written res file d)"
  by (auto simp: quiet_def written_def)

lemma store_in_cell:
  assumes ok: "site_ok assoc r (w r)" and c: "c \<in> site_lent (w r)"
    and w': "api_write async_api r (Cell c) (\<lambda>_. y) w = Inr w'"
  obtains s where "w' = w(r := ((fst (w r))\<lparr>ap_storage := s\<rparr>, snd (w r)))"
    "site_ok assoc r (w' r)" "site_lent (w' r) = site_lent (w r)"
    "async_lent (fst (w' r)) = async_lent (fst (w r))"
proof -
  obtain s where s: "update_cell (Cell c) (\<lambda>_. y) (ap_storage (fst (w r))) = Inr s"
    "site_ok assoc r ((fst (w r))\<lparr>ap_storage := s\<rparr>, snd (w r))"
    "site_lent ((fst (w r))\<lparr>ap_storage := s\<rparr>, snd (w r)) = site_lent (w r)"
    using site_update [OF ok c, of "\<lambda>_. y"] by blast
  have "used_cells s = used_cells (ap_storage (fst (w r)))"
    using s(1) by (auto simp: update_cell_Inr_iff)
  moreover have "w' = w(r := ((fst (w r))\<lparr>ap_storage := s\<rparr>, snd (w r)))"
    using w' s(1) by (simp add: async_api_def)
  ultimately show thesis
    using s(2,3) by (intro that [of s]) (simp_all add: async_lent_def)
qed

lemma give_after_store_with:
  assumes ok: "site_ok assoc r (w r)" and c: "c \<in> site_lent (w r)"
    and w': "api_write async_api r (Cell c) (\<lambda>_. y) w = Inr w'"
  shows "\<exists>w'' out. api_recycle async_api now r (Cell c) w' = Inr (w'', out) \<and> finished_with assoc r c w w'' out"
    and "\<exists>w'' out. api_waste async_api r (Cell c) w' = Inr (w'', out) \<and> finished_with assoc r c w w'' out"
proof -
  obtain s where s: "w' = w(r := ((fst (w r))\<lparr>ap_storage := s\<rparr>, snd (w r)))"
    "site_ok assoc r (w' r)" "site_lent (w' r) = site_lent (w r)"
    "async_lent (fst (w' r)) = async_lent (fst (w r))"
    by (rule store_in_cell [OF assms])
  have here: "site_ok assoc r (fst (w' r), snd (w' r))" "c \<in> site_lent (fst (w' r), snd (w' r))"
    using s(2,3) c by simp_all
  then have lent: "async_inv (on_get_executor assoc) (fst (w' r))" "c \<in> async_lent (fst (w' r))"
    by (auto simp: site_ok_def site_lent_def)
  have same: "given_back c (fst (w r)) p calls \<longleftrightarrow> given_back c (fst (w' r)) p calls" for p calls
    using s(4) by (simp add: given_back_def s(1))
  have queue: "ap_queue (fst (w' r)) = ap_queue (fst (w r))"
    by (simp add: s(1))
  note give = async_give_back [OF lent] site_give_back [OF here]
  show "\<exists>w'' out. api_recycle async_api now r (Cell c) w' = Inr (w'', out) \<and> finished_with assoc r c w w'' out"
  proof -
    obtain p calls where p: "async_recycle now (Cell c) (fst (w' r)) = Inr (p, calls)"
      "async_inv (on_get_executor assoc) p" "given_back c (fst (w' r)) p calls"
      using give(1) by blast
    with give(3) [OF p(2,3)] async_recycle_follows [OF p(1), of r] show ?thesis
      by (auto simp: async_api_def at_site_def finished_with_def same s(1))
  qed
  show "\<exists>w'' out. api_waste async_api r (Cell c) w' = Inr (w'', out) \<and> finished_with assoc r c w w'' out"
  proof -
    obtain p calls where p: "async_waste (Cell c) (fst (w' r)) = Inr (p, calls)"
      "async_inv (on_get_executor assoc) p" "given_back c (fst (w' r)) p calls"
      using give(2) by blast
    with give(3) [OF p(2,3)] async_waste_follows [OF p(1), of r] show ?thesis
      by (auto simp: async_api_def at_site_def finished_with_def same s(1))
  qed
qed

lemma give_after_store:
  assumes "site_ok assoc r (w r)" and "c \<in> site_lent (w r)"
    and "api_write async_api r (Cell c) (\<lambda>_. y) w = Inr w'"
  shows "\<exists>w'' out. api_recycle async_api now r (Cell c) w' = Inr (w'', out) \<and> finished assoc r c w w''"
    and "\<exists>w'' out. api_waste async_api r (Cell c) w' = Inr (w'', out) \<and> finished assoc r c w w''"
  using give_after_store_with [OF assms] by (metis finished_with_finished)+

lemma destroy_new_handle:
  assumes "\<exists>w'' out. api_recycle api now r (Cell c) w = Inr (w'', out) \<and> P w'' out"
    and "\<exists>w'' out. api_waste api r (Cell c) w = Inr (w'', out) \<and> P w'' out"
  shows "\<exists>w'' out. handle_destroy api now (handle_new r st (Cell c)) w = Inr (w'', out) \<and> P w'' out"
  using assms
  by (cases st) (auto simp: handle_destroy_def handle_release_def call_strategy_def handle_recycle_def
      handle_waste_def assert_not_unusable_def)

text \<open>A body that ends with the common part.\<close>

lemma call_use_file:
  assumes ok: "async_world_ok assoc w" and c: "c \<in> async_world_lent r w" and now: "printed_at env \<le> epoch"
    and body: "body \<in> {on_get_body async_api env no_error, strand_on_get_body async_api env no_error,
      coro_body async_api env no_error}"
  shows "\<exists>out calls w'. call_body async_api body at (handle_new r st (Cell c)) w = Inr (out, calls, w') \<and> quiet out
    \<and> finished_with assoc r c w w' calls"
proof -
  have site: "site_ok assoc r (w r)" "c \<in> site_lent (w r)"
    using ok c by (simp_all add: async_world_ok_def async_world_lent_def)
  obtain x where x: "api_read async_api r (Cell c) w = Inr x"
    using async_returns.read_lent [OF ok c] by blast
  let ?h = "handle_new r st (Cell c)"
  let ?s = "\<lambda>w. \<lparr>sc_handle = ?h, sc_world = w, sc_printed = [To_Cout ''got resource handle''], sc_calls = []\<rparr>"
  note same = async_files.write_nothing [OF x]
  have start: "body \<lparr>sc_handle = ?h, sc_world = w, sc_printed = [], sc_calls = []\<rparr> = use_file async_api env (?s w)"
    if "fst (use_file async_api env (?s w)) = Inr ()"
    using body that
    by (auto simp: on_get_body_def strand_on_get_body_def coro_body_def catching_def split: prod.splits sum.splits fault.splits)
  show ?thesis
  proof (cases "open_fails env x")
    case True
    note run = async_files.use_file_refused [OF x True, of st "[To_Cout ''got resource handle'']" "[]"]
    have "\<exists>w'' out. handle_destroy async_api at ?h w = Inr (w'', out) \<and> finished_with assoc r c w w'' out"
      using give_after_store_with [OF site same] by (intro destroy_new_handle) auto
    with run show ?thesis
      by (auto simp: call_body_def start)
  next
    case False
    obtain w' where w': "api_write async_api r (Cell c) (\<lambda>_. cell_after env x) w = Inr w'"
      "use_file async_api env (?s w) =
        (if good (after_write (outcome env) (file_in env x)) then recycle_file async_api (returned_at env)
         else yields ()) \<lparr>sc_handle = ?h, sc_world = w', sc_printed = [To_Cout ''got resource handle'']
             @ written (outcome env) (file_in env x) (time_sub time_point_min (printed_at env)), sc_calls = []\<rparr>"
      using async_files.use_file_prints [OF ok c x False now, of st "[To_Cout ''got resource handle'']" "[]"] by blast
    note give = give_after_store_with [OF site w'(1)]
    show ?thesis
    proof (cases "good (after_write (outcome env) (file_in env x))")
      case True
      obtain w'' out where "api_recycle async_api (returned_at env) r (Cell c) w' = Inr (w'', out)"
        "finished_with assoc r c w w'' out"
        using give(1) by blast
      with w'(2) True show ?thesis
        by (auto simp: call_body_def start recycle_file_def handle_recycle_def assert_not_unusable_def
            handle_destroy_def handle_release_def unusable_def)
    next
      case False
      have "\<exists>w'' out. handle_destroy async_api at ?h w' = Inr (w'', out) \<and> finished_with assoc r c w w'' out"
        using give by (intro destroy_new_handle) auto
      with w'(2) False show ?thesis
        by (auto simp: call_body_def start)
    qed
  qed
qed

subsection \<open>Running until nothing is left\<close>

text \<open>
  The users whose handlers have not been called are those of the tasks and of the waiting requests.
  Nobody holds a cell, and if requests wait, a cell is on its way to somebody who will give it back.
\<close>

definition users_left :: "('c, 'x, 'r, 'u, 'v) async_site \<Rightarrow> 'u multiset" where
  "users_left = (\<lambda>(p, ts). image_mset ogh_handler
     (mset (task_handlers ts) + mset (waiting_handlers (waiting p))))"

definition draining ::
  "('u \<Rightarrow> 'x) \<Rightarrow> 'r \<Rightarrow> 'u multiset \<Rightarrow> ('c, 'x, 'r, 'u, 'v) async_world \<Rightarrow> bool" where
  "draining assoc r us w \<longleftrightarrow>
     async_world_ok assoc w \<and> site_lent (w r) = {}
     \<and> (\<forall>(c, t) \<in> set (snd (w r)). task_code t = no_error)
     \<and> (snd (w r) = [] \<longrightarrow> waiting (fst (w r)) = [])
     \<and> users_left (w r) = us"

lemma drainingI:
  assumes "async_world_ok assoc w" and "w r = (p, ts)" and "site_lent (p, ts) = {}"
    and "\<forall>(c, t) \<in> set ts. task_code t = no_error" and "ts = [] \<Longrightarrow> waiting p = []"
    and "users_left (p, ts) = us"
  shows "draining assoc r us w"
  using assms by (simp add: draining_def)

lemma site_lent_empty:
  "site_ok assoc r (p, ts) \<Longrightarrow> site_lent (p, ts) = {} \<longleftrightarrow> async_lent p = set (flight_cells ts)"
  by (auto simp: site_ok_def site_lent_def)

lemma users_left_remove:
  assumes "k < length ts"
  shows "add_mset (ogh_handler (task_handler (snd (ts ! k)))) (users_left (p, remove_nth k ts))
    = users_left (p, ts)"
  using arg_cong [OF mset_task_handlers_remove [OF assms], of "image_mset ogh_handler"]
  by (simp add: users_left_def)

lemma finished_draining:
  assumes w1: "async_world_ok assoc w1" "w1 r = (p, ts)" and c: "site_lent (p, ts) = {c}"
    and tasks: "\<forall>(c, t) \<in> set ts. task_code t = no_error" and us: "users_left (p, ts) = us"
    and fin: "finished assoc r c w1 w2"
  shows "draining assoc r us w2"
proof -
  obtain p' calls where w2: "w2 = w1(r := (p', ts @ posted calls))"
    "site_ok assoc r (p', ts @ posted calls)" and out: "given_back c p p' calls"
    using fin w1(2) by (auto simp: finished_def)
  have ok: "async_world_ok assoc w2"
    unfolding w2(1) by (rule async_world_ok_upd [OF w1(1) w2(2)])
  have site: "site_ok assoc r (p, ts)"
    using w1 by (metis async_world_ok_def)
  have lent: "async_lent p = insert c (set (flight_cells ts))" "c \<notin> set (flight_cells ts)"
    using c site_ok_parts(5) [OF site] by (auto simp: site_lent_def)
  from out show ?thesis
  proof (cases rule: given_back_cases)
    case kept
    then show ?thesis
      using tasks us lent by (intro drainingI [OF ok, of r p' ts]) (auto simp: w2(1) site_lent_def users_left_def)
  next
    case (served x)
    obtain d ctx w where x: "x = (d, ctx, w)" by (cases x)
    show ?thesis
      using tasks us lent served
      by (intro drainingI [OF ok, of r p' "ts @ [serve (Cell c) x]"])
        (auto simp: w2(1) site_lent_def users_left_def serve_def x)
  qed
qed

lemma deliver_draining:
  assumes d: "draining assoc r us w" and k: "k < length (snd (w r))"
  obtains u c st w1 where "deliver r k w = Inr ((u, no_error, handle_new r st (Cell c)), w1)"
    "async_world_ok assoc w1" "c \<in> async_world_lent r w1" "u \<in># us"
    "\<forall>w2. finished assoc r c w1 w2 \<longrightarrow> draining assoc r (us - {#u#}) w2"
    "fst (w1 r) = fst (w r)" "Suc (length (snd (w1 r))) = length (snd (w r))"
proof -
  obtain p ts where wr: "w r = (p, ts)" by (cases "w r")
  have ok: "async_world_ok assoc w" and empty: "site_lent (p, ts) = {}"
    and codes: "\<forall>(c, t) \<in> set ts. task_code t = no_error" and us: "users_left (p, ts) = us"
    using d by (simp_all add: draining_def wr)
  have k': "k < length ts" and site: "site_ok assoc r (p, ts)"
    using k site_of_world [OF ok, of r] by (simp_all add: wr)
  define t where "t = snd (ts ! k)"
  have "(fst (ts ! k), t) \<in> set ts"
    using nth_mem [OF k'] by (simp add: t_def)
  then have t: "task_sound (on_get_executor assoc) t" "ogh_impl (task_handler t) = r" "task_code t = no_error"
    using site_ok_parts(3) [OF site] codes by auto
  obtain c where c: "task_iterator t = Cell c"
    using task_code_sound [OF t(1)] t(3) by (cases "task_iterator t") auto
  note run = run_task_sound [OF t(1), unfolded t(3) c]
  have site': "site_ok assoc r (p, remove_nth k ts)" "site_lent (p, remove_nth k ts) = {c}"
    using run empty by (auto intro: site_run_task [OF site k'] simp: t_def)
  let ?w = "w(r := (p, remove_nth k ts))"
  have w1: "async_world_ok assoc ?w"
    by (rule async_world_ok_upd [OF ok site'(1)])
  have codes': "\<forall>(c, t) \<in> set (remove_nth k ts). task_code t = no_error"
    using codes set_remove_nth [of k ts] by blast
  have left: "add_mset (ogh_handler (task_handler t)) (users_left (p, remove_nth k ts)) = us"
    using users_left_remove [OF k', of p] by (simp add: t_def us)
  show thesis
  proof (rule that)
    show "deliver r k w = Inr ((ogh_handler (task_handler t), no_error,
        handle_new r (ogh_strategy (task_handler t)) (Cell c)), ?w)"
      using run t(2) by (simp add: deliver_def wr t_def on_get_call_def)
    show "async_world_ok assoc ?w" by (rule w1)
    show "c \<in> async_world_lent r ?w" by (simp add: async_world_lent_def site'(2))
    show "ogh_handler (task_handler t) \<in># us" using left by auto
    show "\<forall>w2. finished assoc r c ?w w2 \<longrightarrow>
        draining assoc r (us - {#ogh_handler (task_handler t)#}) w2"
      using finished_draining [OF w1 _ site'(2) codes'] left by (metis add_mset_remove_trivial fun_upd_same)
    show "fst (?w r) = fst (w r)" by (simp add: wr)
    show "Suc (length (snd (?w r))) = length (snd (w r))"
      using k' by (simp add: wr remove_nth_def)
  qed
qed

text \<open>
  A bound on the turns that are left: each task and each outstanding wait takes one, each waiting request
  two, because serving it makes a task and may arm another wait.
\<close>

definition serving ::
  "('u \<Rightarrow> 'x) \<Rightarrow> 'r \<Rightarrow> 'u multiset \<Rightarrow> ('c, 'x, 'r, 'u, 'v) async_world \<Rightarrow> ('r \<times> 'c) waits \<Rightarrow> bool" where
  "serving assoc r us w ws \<longleftrightarrow> draining assoc r us w \<and> waits_ok r (ap_queue (fst (w r))) ws"

definition turns_left :: "'r \<Rightarrow> ('c, 'x, 'r, 'u, 'v) async_world \<Rightarrow> ('r \<times> 'c) waits \<Rightarrow> nat" where
  "turns_left r w ws = length (snd (w r)) + 2 * length (waiting (fst (w r))) + outstanding ws"

lemma finished_turn:
  assumes fin: "finished_with assoc r c w1 w2 calls" and ws: "waits_ok r (ap_queue (fst (w1 r))) ws"
  shows "waits_ok r (ap_queue (fst (w2 r))) (wait_effects calls ws)"
    "turns_left r w2 (wait_effects calls ws) \<le> turns_left r w1 ws"
proof -
  obtain p out where w2: "w2 = w1(r := (p, snd (w1 r) @ posted out))" and g: "given_back c (fst (w1 r)) p out"
    and calls: "calls = map (Pair r) out"
    and f: "waits_follow r (ap_queue (fst (w1 r))) (ap_queue p) out
        (if waiting (fst (w1 r)) = [] then 0 else Suc 0)"
    using fin by (auto simp: finished_with_def)
  have w: "waits_ok r (ap_queue p) (wait_effects calls ws)"
    and n: "outstanding (wait_effects calls ws)
      \<le> outstanding ws + (if waiting (fst (w1 r)) = [] then 0 else Suc 0)"
    using f ws by (simp_all add: waits_follow_def calls)
  show "waits_ok r (ap_queue (fst (w2 r))) (wait_effects calls ws)"
    using w by (simp add: w2)
  from g show "turns_left r w2 (wait_effects calls ws) \<le> turns_left r w1 ws"
  proof (cases rule: given_back_cases)
    case kept
    with n show ?thesis by (simp add: turns_left_def w2)
  next
    case (served x)
    with n show ?thesis by (simp add: turns_left_def w2)
  qed
qed

text \<open>If neither a task nor an aborted wait is left, no wait is armed either, so there is no work.\<close>

lemma nothing_to_wait_for:
  assumes "serving assoc r us w ws" and "snd (w r) = []" and "aborted ws = []"
  shows "no_work r w ws" "us = {#}"
proof -
  have d: "draining assoc r us w" and ws: "waits_ok r (ap_queue (fst (w r))) ws"
    using assms(1) by (simp_all add: serving_def)
  have empty: "waiting (fst (w r)) = []"
    using d assms(2) by (simp add: draining_def)
  have "rq_inv (ap_queue (fst (w r)))"
    using d site_ok_parts(1) [OF site_of_world, of assoc w r] async_inv_parts(2)
    by (fastforce simp: draining_def rq_sound_def)
  then have "rq_expires (ap_queue (fst (w r))) = []"
    using rq_size_contents [of "ap_queue (fst (w r))"] empty by (simp add: rq_size_def)
  with ws assms(2,3) show "no_work r w ws"
    by (simp add: no_work_def waits_ok_def)
  show "us = {#}"
    using d assms(2) empty by (auto simp: draining_def users_left_def split: prod.splits)
qed

lemma aborted_turn:
  assumes "serving assoc r us w ws" and "i < length (aborted ws)"
  shows "at_site r w (async_wait_done operation_aborted t (fst (w r))) = Inr (w, [])"
    "serving assoc r us w (ws\<lparr>aborted := remove_nth i (aborted ws)\<rparr>)"
    "turns_left r w ws = Suc (turns_left r w (ws\<lparr>aborted := remove_nth i (aborted ws)\<rparr>))"
    "Suc (length (remove_nth i (aborted ws))) = length (aborted ws)"
  using assms
  by (auto simp: at_site_def async_wait_aborted serving_def waits_ok_def waits_on_timers_def turns_left_def
      outstanding_def remove_nth_def)

lemma deliver_turn:
  assumes "serving assoc r us w ws" and "k < length (snd (w r))"
  obtains u c st w1 where "deliver r k w = Inr ((u, no_error, handle_new r st (Cell c)), w1)"
    "async_world_ok assoc w1" "c \<in> async_world_lent r w1" "u \<in># us"
    "\<forall>w2 calls. finished_with assoc r c w1 w2 calls \<longrightarrow>
       serving assoc r (us - {#u#}) w2 (wait_effects calls ws)
       \<and> turns_left r w2 (wait_effects calls ws) < turns_left r w ws"
proof -
  have d: "draining assoc r us w" and ws: "waits_ok r (ap_queue (fst (w r))) ws"
    using assms(1) by (simp_all add: serving_def)
  obtain u c st w1 where dlv: "deliver r k w = Inr ((u, no_error, handle_new r st (Cell c)), w1)"
    "async_world_ok assoc w1" "c \<in> async_world_lent r w1" "u \<in># us"
    "\<forall>w2. finished assoc r c w1 w2 \<longrightarrow> draining assoc r (us - {#u#}) w2"
    "fst (w1 r) = fst (w r)" "Suc (length (snd (w1 r))) = length (snd (w r))"
    by (rule deliver_draining [OF d assms(2)])
  have "turns_left r w1 ws < turns_left r w ws"
    using dlv(6,7) by (simp add: turns_left_def)
  then have "serving assoc r (us - {#u#}) w2 (wait_effects calls ws)
      \<and> turns_left r w2 (wait_effects calls ws) < turns_left r w ws"
    if fin: "finished_with assoc r c w1 w2 calls" for w2 calls
    using finished_turn [OF fin, unfolded dlv(6), OF ws] dlv(5) finished_with_finished [OF fin]
    by (simp add: serving_def)
  then show thesis
    by (intro that [OF dlv(1-4)]) blast
qed

text \<open>What the programs need of a body.\<close>

locale completion =
  fixes assoc :: "'u \<Rightarrow> 'x" and body :: "('c, 'x, 'r, 'u) bodies"
  assumes call_finishes: "async_world_ok assoc w \<Longrightarrow> c \<in> async_world_lent r w \<Longrightarrow>
      printed_at env \<le> epoch \<Longrightarrow>
      \<exists>out calls w'. call_body async_api (body env no_error) at (handle_new r st (Cell c)) w = Inr (out, calls, w')
        \<and> quiet out \<and> finished_with assoc r c w w' calls"
    and call_overflows: "async_world_ok assoc w \<Longrightarrow> c \<in> async_world_lent r w \<Longrightarrow>
      good (opened env) \<Longrightarrow> epoch < printed_at env \<Longrightarrow>
      call_body async_api (body env no_error) at (handle_new r st (Cell c)) w = Inl Undefined_Behaviour"
begin

lemma service_drains:
  "serving assoc r us w ws \<Longrightarrow> \<forall>(k, env) \<in> set schedule. printed_at env \<le> epoch \<Longrightarrow>
   turns_left r w ws \<le> length schedule \<Longrightarrow>
   \<exists>ds out w' ws'. service_run body r schedule w ws = Inr (Some (ds, out, w', ws'))
     \<and> mset ds = image_mset (\<lambda>u. (u, no_error)) us \<and> quiet out
     \<and> serving assoc r {#} w' ws' \<and> no_work r w' ws'"
proof (induction schedule arbitrary: us w ws)
  case Nil
  then have none: "snd (w r) = []" "aborted ws = []"
    by (simp_all add: turns_left_def outstanding_def)
  with nothing_to_wait_for [OF Nil(1) none] Nil(1) show ?case
    by simp
next
  case (Cons x schedule)
  obtain k env where x: "x = (k, env)" by (cases x)
  let ?n = "length (snd (w r))" and ?m = "length (aborted ws)"
  show ?case
  proof (cases "?n + ?m = 0")
    case True
    with nothing_to_wait_for [OF Cons.prems(1)] Cons.prems(1) show ?thesis
      by (simp add: x)
  next
    case False
    then have j: "k mod (?n + ?m) < ?n + ?m" and work: "\<not> no_work r w ws"
      by (auto simp: no_work_def)
    have rest: "\<forall>(k, env) \<in> set schedule. printed_at env \<le> epoch" and now: "printed_at env \<le> epoch"
      using Cons.prems(2) by (simp_all add: x)
    show ?thesis
    proof (cases "k mod (?n + ?m) < ?n")
      case True
      obtain u c st w1 where dlv:
        "deliver r (k mod (?n + ?m)) w = Inr ((u, no_error, handle_new r st (Cell c)), w1)"
        "async_world_ok assoc w1" "c \<in> async_world_lent r w1" "u \<in># us"
        "\<forall>w2 calls. finished_with assoc r c w1 w2 calls \<longrightarrow>
           serving assoc r (us - {#u#}) w2 (wait_effects calls ws)
           \<and> turns_left r w2 (wait_effects calls ws) < turns_left r w ws"
        by (rule deliver_turn [OF Cons.prems(1) True])
      obtain out calls w2 where call: "call_body async_api (body env no_error) (returned_at env)
          (handle_new r st (Cell c)) w1 = Inr (out, calls, w2)" "quiet out" "finished_with assoc r c w1 w2 calls"
        using call_finishes [OF dlv(2,3) now] by blast
      have next_turn: "serving assoc r (us - {#u#}) w2 (wait_effects calls ws)"
        "turns_left r w2 (wait_effects calls ws) \<le> length schedule"
        using dlv(5) call(3) Cons.prems(3) by (fastforce simp: x)+
      obtain ds outs w3 ws' where "service_run body r schedule w2 (wait_effects calls ws) = Inr (Some (ds, outs, w3, ws'))"
        "mset ds = image_mset (\<lambda>u. (u, no_error)) (us - {#u#})" "quiet outs"
        "serving assoc r {#} w3 ws'" "no_work r w3 ws'"
        using Cons.IH [OF next_turn(1) rest next_turn(2)] by blast
      moreover have "add_mset (u, no_error) (image_mset (\<lambda>u. (u, no_error)) (us - {#u#}))
          = image_mset (\<lambda>u. (u, no_error)) us"
        using dlv(4) by (metis image_mset_add_mset insert_DiffM)
      ultimately show ?thesis
        using False True work dlv(1) call(1,2) by (simp add: x Let_def)
    next
      case late: False
      let ?i = "k mod (?n + ?m) - ?n"
      have i: "?i < ?m"
        using j late by simp
      note turn = aborted_turn [OF Cons.prems(1) i]
      have "turns_left r w (ws\<lparr>aborted := remove_nth ?i (aborted ws)\<rparr>) \<le> length schedule"
        using turn(3) Cons.prems(3) by (simp add: x)
      from Cons.IH [OF turn(2) rest this] False late work turn(1) show ?thesis
        by (simp add: x Let_def)
    qed
  qed
qed

lemma service_overflows:
  "serving assoc r us w ws \<Longrightarrow> us \<noteq> {#} \<Longrightarrow> length (aborted ws) < length schedule \<Longrightarrow>
   \<forall>(k, env) \<in> set schedule. good (opened env) \<and> epoch < printed_at env \<Longrightarrow>
   service_run body r schedule w ws = Inl Undefined_Behaviour"
proof (induction schedule arbitrary: ws)
  case (Cons x schedule)
  obtain k env where x: "x = (k, env)" by (cases x)
  let ?n = "length (snd (w r))" and ?m = "length (aborted ws)"
  have "?n + ?m \<noteq> 0"
    using nothing_to_wait_for(2) [OF Cons.prems(1)] Cons.prems(2) by auto
  then have j: "k mod (?n + ?m) < ?n + ?m" and work: "\<not> no_work r w ws" and some: "?n + ?m \<noteq> 0"
    by (auto simp: no_work_def)
  have env: "good (opened env)" "epoch < printed_at env"
    using Cons.prems(4) by (simp_all add: x)
  show ?case
  proof (cases "k mod (?n + ?m) < ?n")
    case True
    obtain u c st w1 where
      "deliver r (k mod (?n + ?m)) w = Inr ((u, no_error, handle_new r st (Cell c)), w1)"
      "async_world_ok assoc w1" "c \<in> async_world_lent r w1"
      using deliver_turn [OF Cons.prems(1) True] by metis
    with call_overflows [OF _ _ env] True work some show ?thesis
      by (simp add: x Let_def)
  next
    case False
    let ?i = "k mod (?n + ?m) - ?n"
    have i: "?i < ?m"
      using j False by simp
    note turn = aborted_turn [OF Cons.prems(1) i]
    have "length (aborted (ws\<lparr>aborted := remove_nth ?i (aborted ws)\<rparr>)) < length schedule"
      using turn(4) Cons.prems(3) by (simp add: x)
    from Cons.IH [OF turn(2) Cons.prems(2) this] Cons.prems(4) False work some turn(1) show ?thesis
      by (simp add: x Let_def)
  qed
qed simp

end

lemma call_use_file_overflows:
  assumes ok: "async_world_ok assoc w" and c: "c \<in> async_world_lent r w"
    and env: "good (opened env)" "epoch < printed_at env"
    and body: "body \<in> {on_get_body async_api env no_error, strand_on_get_body async_api env no_error,
      coro_body async_api env no_error}"
  shows "call_body async_api body at (handle_new r st (Cell c)) w = Inl Undefined_Behaviour"
proof -
  obtain x where x: "api_read async_api r (Cell c) w = Inr x"
    using async_returns.read_lent [OF ok c] by blast
  have "\<not> open_fails env x"
    using env(1) by (simp add: open_fails_def)
  note over = async_files.use_file_overflows [OF ok c x this env(2), of st "[To_Cout ''got resource handle'']" "[]"]
  then have "fst (body \<lparr>sc_handle = handle_new r st (Cell c), sc_world = w, sc_printed = [], sc_calls = []\<rparr>)
      = Inl Undefined_Behaviour"
    using body
    by (auto simp: on_get_body_def strand_on_get_body_def coro_body_def catching_def split: prod.splits sum.splits fault.splits)
  then show ?thesis
    by (auto simp: call_body_def split: prod.splits)
qed

interpretation callbacks: completion assoc "on_get_body async_api"
  for assoc :: "'u \<Rightarrow> 'x"
  by unfold_locales (rule call_use_file call_use_file_overflows, assumption+, simp)+

interpretation strands: completion assoc "strand_on_get_body async_api"
  for assoc :: "'u \<Rightarrow> 'x"
  by unfold_locales (rule call_use_file call_use_file_overflows, assumption+, simp)+

interpretation coroutines: completion assoc "coro_body async_api"
  for assoc :: "'u \<Rightarrow> 'x"
  by unfold_locales (rule call_use_file call_use_file_overflows, assumption+, simp)+

subsection \<open>Making requests\<close>

text \<open>While requests are made, a request waits only if every cell is taken, and there is room for all.\<close>

definition requesting ::
  "('u \<Rightarrow> 'x) \<Rightarrow> 'r \<Rightarrow> nat \<Rightarrow> nat \<Rightarrow> 'u multiset \<Rightarrow> ('c, 'x, 'r, 'u, 'v) async_world \<Rightarrow> bool" where
  "requesting assoc r n k us w \<longleftrightarrow>
     0 < n \<and> draining assoc r us w \<and> \<not> ap_disabled (fst (w r)) \<and> ap_capacity (fst (w r)) = n
     \<and> rq_capacity (ap_queue (fst (w r))) = k
     \<and> (waiting (fst (w r)) \<noteq> [] \<longrightarrow> async_free (fst (w r)) = 0)"

lemma tasks_have_cells:
  "site_ok assoc r (p, ts) \<Longrightarrow> \<forall>(c, t) \<in> set ts. task_code t = no_error \<Longrightarrow>
   length (flight_cells ts) = length ts"
proof -
  assume ok: "site_ok assoc r (p, ts)" and codes: "\<forall>(c, t) \<in> set ts. task_code t = no_error"
  have "\<forall>(c, t) \<in> set ts. task_iterator t \<noteq> Singular"
    using site_ok_parts(3) [OF ok] codes task_code_sound by fastforce
  then show ?thesis
    by (induction ts) (auto simp: cell_of_def split: cell_iterator.splits)
qed

lemma requesting_tasks:
  assumes "requesting assoc r n k us w"
  shows "async_free (fst (w r)) + length (snd (w r)) = n"
    and "size us = length (snd (w r)) + length (waiting (fst (w r)))"
proof -
  obtain p ts where wr: "w r = (p, ts)" by (cases "w r")
  have d: "draining assoc r us w" and n: "ap_capacity p = n"
    using assms by (simp_all add: requesting_def wr)
  have site: "site_ok assoc r (p, ts)" and empty: "site_lent (p, ts) = {}"
    and codes: "\<forall>(c, t) \<in> set ts. task_code t = no_error" and us: "users_left (p, ts) = us"
    using d site_of_world [of assoc w r] by (simp_all add: draining_def wr)
  have "card (async_lent p) = length ts"
    using distinct_card [OF site_ok_parts(4) [OF site]] tasks_have_cells [OF site codes]
    by (simp add: site_lent_empty [OF site, THEN iffD1, OF empty])
  with async_free_lent [OF site_ok_parts(1) [OF site]] n
  show "async_free (fst (w r)) + length (snd (w r)) = n"
    by (simp add: wr)
  show "size us = length (snd (w r)) + length (waiting (fst (w r)))"
    by (simp add: wr users_left_def task_handlers_def waiting_handlers_def flip: us)
qed

lemma requesting_get:
  assumes f: "requesting assoc r n k us w" and room: "size us < n + k"
  shows "\<exists>w' calls. async_get_auto_waste assoc r c u duration_max now now' w = Inr (w', map (Pair r) calls)
    \<and> requesting assoc r n k (add_mset u us) w'
    \<and> waits_follow r (ap_queue (fst (w r))) (ap_queue (fst (w' r))) calls (Suc 0)"
proof -
  obtain p ts where wr: "w r = (p, ts)" by (cases "w r")
  have d: "draining assoc r us w" and p: "\<not> ap_disabled p" "ap_capacity p = n" "rq_capacity (ap_queue p) = k"
    "waiting p \<noteq> [] \<Longrightarrow> async_free p = 0" "0 < n"
    using f by (simp_all add: requesting_def wr)
  have ok: "async_world_ok assoc w" and empty: "site_lent (p, ts) = {}"
    and codes: "\<forall>(c, t) \<in> set ts. task_code t = no_error"
    and idle: "ts = [] \<Longrightarrow> waiting p = []" and us: "users_left (p, ts) = us"
    using d by (simp_all add: draining_def wr)
  have site: "site_ok assoc r (p, ts)"
    using site_of_world [OF ok, of r] by (simp add: wr)
  note counts = requesting_tasks [OF f, unfolded wr fst_conv snd_conv]
  let ?h = "make_on_get_handler r Strategy_Waste u"
  obtain p' calls where get: "async_get (on_get_executor assoc) c ?h duration_max now now' p = Inr (p', calls)"
    "site_ok assoc r (p', ts @ posted calls)" "site_lent (p', ts @ posted calls) = {}"
    using site_get [OF site] empty by metis
  let ?w = "w(r := (p', ts @ posted calls))"
  have ok': "async_world_ok assoc ?w"
    by (rule async_world_ok_upd [OF ok get(2)])
  have run: "async_get_auto_waste assoc r c u duration_max now now' w = Inr (?w, map (Pair r) calls)"
    by (simp add: async_get_auto_waste_def async_pool_get_def at_site_def wr get(1))
  have "requesting assoc r n k (add_mset u us) ?w"
    using site_ok_parts(1) [OF site]
  proof (cases rule: async_get_locked_cases [where c = c and h = ?h and w = duration_max and now = now])
    case (leased s cell)
    then have p': "p' = p\<lparr>ap_storage := s\<rparr>" "calls = [Post c (Get_Task (On_List_Iterator_Handler no_error (Cell cell) ?h))]"
      using get(1) by (simp_all add: async_get_def)
    have "finite (async_lent p)"
      by (simp add: async_lent_def)
    then have "async_free p \<noteq> 0"
      using async_free_lent [OF leased(4)] async_free_lent [OF site_ok_parts(1) [OF site]] leased(5,6)
      by simp
    with p(4) have "waiting p = []" by blast
    then show ?thesis
      using p get(3) codes us
      by (intro requesting_def [THEN iffD2] conjI drainingI [OF ok' fun_upd_same])
        (auto simp: p' users_left_def make_on_get_handler_def)
  next
    case waits
    have len: "length (waiting p) < rq_capacity (ap_queue p)"
      using counts room waits(2) by (simp add: p(3))
    obtain p1 calls1 where push: "async_get_push (on_get_executor assoc) c ?h duration_max now' p = Inr (p1, calls1)"
      "ap_storage p1 = ap_storage p" "ap_disabled p1 = ap_disabled p" "ap_capacity p1 = ap_capacity p"
      "rq_capacity (ap_queue p1) = rq_capacity (ap_queue p)" "posted calls1 = []"
      "waiting p1 = waiting p @ [(add now' duration_max, c, list_iterator_handler_of (on_get_executor assoc) ?h)]"
      using async_get_push_ok [OF site_ok_parts(1) [OF site], of c ?h duration_max now'] len by metis
    have p': "p' = p1" "calls = calls1"
      using get(1) waits(4) push(1) by (simp_all add: async_get_def)
    have "ts \<noteq> []"
      using counts(1) waits(2) p(5) by auto
    then show ?thesis
      using p get(3) codes us push waits(2)
      by (intro requesting_def [THEN iffD2] conjI drainingI [OF ok' fun_upd_same])
        (auto simp: p' users_left_def make_on_get_handler_def lih_handler_def list_iterator_handler_of_def
          async_free_def)
  qed (use p(1) in \<open>auto simp: duration_max_def tick_defs\<close>)
  with run async_get_follows [OF get(1), of r] show ?thesis
    by (intro exI [of _ ?w] exI [of _ calls]) (simp add: wr)
qed

lemma requesting_all:
  "requesting assoc r n k us w \<Longrightarrow> size us + length gets \<le> n + k \<Longrightarrow>
   waits_ok r (ap_queue (fst (w r))) ws \<Longrightarrow> outstanding ws \<le> size us \<Longrightarrow>
   \<exists>w' ws'. async_requests assoc r c gets w ws = Inr (w', ws')
     \<and> requesting assoc r n k (us + mset (map fst gets)) w'
     \<and> waits_ok r (ap_queue (fst (w' r))) ws' \<and> outstanding ws' \<le> size us + length gets"
proof (induction gets arbitrary: us w ws)
  case Nil
  then show ?case by simp
next
  case (Cons g gets)
  obtain u now now' where g: "g = (u, now, now')" by (cases g)
  obtain w1 calls where step: "async_get_auto_waste assoc r c u duration_max now now' w = Inr (w1, map (Pair r) calls)"
    "requesting assoc r n k (add_mset u us) w1"
    and follow: "waits_follow r (ap_queue (fst (w r))) (ap_queue (fst (w1 r))) calls (Suc 0)"
    using requesting_get [OF Cons.prems(1), of c u now now'] Cons.prems(2) by auto
  let ?ws = "wait_effects (map (Pair r) calls) ws"
  have "waits_ok r (ap_queue (fst (w1 r))) ?ws" "outstanding ?ws \<le> size (add_mset u us)"
    using follow Cons.prems(3,4) by (fastforce simp: waits_follow_def)+
  from Cons.IH [OF step(2) _ this] Cons.prems(2) step(1) show ?case
    by (simp add: g)
qed

lemma created_requesting:
  assumes "async_pool_create n k timeout life = Inr p" and "\<forall>r'. r' \<noteq> r \<longrightarrow> site_ok assoc r' (w r')"
  shows "requesting assoc r n k {#} (w(r := (p, [])))"
proof -
  note fresh = async_create_inv(2-6) [OF assms(1)]
  have "async_world_ok assoc (w(r := (p, [])))"
    using assms(2) created_site_ok(1) [OF assms(1)] by (simp add: async_world_ok_def)
  then show ?thesis
    using fresh created_site_ok(2) [OF assms(1)] async_create_inv(7) [OF assms(1)]
    by (simp add: requesting_def draining_def users_left_def)
qed

text \<open>All the requests of a program: afterwards three turns for each are enough.\<close>

lemma requests_serving:
  assumes n: "0 < n" and p: "async_pool_create n 10 duration_max duration_max = Inr p"
    and gets: "length gets \<le> n + 10" and others: "\<forall>r'. r' \<noteq> r \<longrightarrow> site_ok assoc r' (w r')"
  obtains w' ws where "async_requests assoc r c gets (w(r := (p, []))) no_waits = Inr (w', ws)"
    "serving assoc r (mset (map fst gets)) w' ws" "turns_left r w' ws \<le> 3 * length gets"
    "length (aborted ws) \<le> length gets"
proof -
  have "waits_ok r (ap_queue p) no_waits"
    by (simp add: waits_ok_def waits_on_timers_def)
  then obtain w' ws where run: "async_requests assoc r c gets (w(r := (p, []))) no_waits = Inr (w', ws)"
    "requesting assoc r n 10 (mset (map fst gets)) w'" "waits_ok r (ap_queue (fst (w' r))) ws"
    "outstanding ws \<le> length gets"
    using requesting_all [OF created_requesting [OF p others], of gets no_waits c] gets by auto
  have "length (snd (w' r)) + length (waiting (fst (w' r))) = length gets"
    using requesting_tasks(2) [OF run(2)] by simp
  with run show thesis
    by (intro that [OF run(1)]) (simp_all add: serving_def requesting_def turns_left_def outstanding_def)
qed

lemma drained:
  assumes "draining assoc r {#} w"
  shows "snd (w r) = []" "waiting (fst (w r)) = []" "used_cells (ap_storage (fst (w r))) = []"
proof -
  obtain p ts where wr: "w r = (p, ts)" by (cases "w r")
  have "site_ok assoc r (p, ts)" "site_lent (p, ts) = {}" "users_left (p, ts) = {#}"
    using assms site_of_world [of assoc w r] by (simp_all add: draining_def wr)
  then show "snd (w r) = []" "waiting (fst (w r)) = []" "used_cells (ap_storage (fst (w r))) = []"
    by (auto simp: wr users_left_def task_handlers_def waiting_handlers_def site_lent_def async_lent_def)
qed

text \<open>Destroying a pool nobody waits for does nothing but disable it.\<close>

lemma drained_destroy:
  assumes "draining assoc r {#} w"
  shows "async_pool_destroy (Some r) w = Inr (w(r := ((fst (w r))\<lparr>ap_disabled := True\<rparr>, [])), [])"
  using drained [OF assms] by (simp add: async_pool_destroy_def at_site_def async_disable_idle)

context completion
begin

text \<open>A program: enough turns of the service complete every request.\<close>

lemma main_completes:
  assumes n: "0 < n" and gets: "length gets \<le> n + 10" and others: "\<forall>r'. r' \<noteq> r \<longrightarrow> site_ok assoc r' (w r')"
    and now: "\<forall>(k, env) \<in> set schedule. printed_at env \<le> epoch"
    and len: "3 * length gets \<le> length schedule"
  shows "\<exists>ds out w' ws. async_main assoc body r c n gets schedule w = Inr (Some (ds, out, w', ws))
    \<and> mset ds = mset (map (\<lambda>g. (fst g, no_error)) gets) \<and> quiet out \<and> no_work r w' ws
    \<and> waiting (fst (w' r)) = [] \<and> used_cells (ap_storage (fst (w' r))) = []"
proof -
  obtain p :: "('c, 'x, ('r, 'u) on_get_handler, ofstream) async_pool"
    where p: "async_pool_create n 10 duration_max duration_max = Inr p"
    using n by (simp add: async_pool_create_def async_assert_capacity_def)
  obtain w2 ws where start: "async_requests assoc r c gets (w(r := (p, []))) no_waits = Inr (w2, ws)"
    "serving assoc r (mset (map fst gets)) w2 ws" "turns_left r w2 ws \<le> 3 * length gets"
    by (rule requests_serving [OF n p gets others])
  obtain ds out w3 ws3 where run: "service_run body r schedule w2 ws = Inr (Some (ds, out, w3, ws3))"
    "mset ds = image_mset (\<lambda>u. (u, no_error)) (mset (map fst gets))" "quiet out"
    "serving assoc r {#} w3 ws3" "no_work r w3 ws3"
    using service_drains [OF start(2) now] start(3) len by auto
  have empty: "draining assoc r {#} w3"
    using run(4) by (simp add: serving_def)
  have "async_main assoc body r c n gets schedule w
      = Inr (Some (ds, out, w3(r := ((fst (w3 r))\<lparr>ap_disabled := True\<rparr>, [])), ws3))"
    by (simp add: async_main_def async_pool_construct_def run_and_destroy_def p start(1) run(1)
        drained_destroy [OF empty])
  then show ?thesis
    using run(2,3,5) drained [OF empty] by (simp add: no_work_def image_mset.compositionality comp_def)
qed

lemma main_overflows:
  assumes n: "0 < n" and gets: "gets \<noteq> []" "length gets \<le> n + 10"
    and others: "\<forall>r'. r' \<noteq> r \<longrightarrow> site_ok assoc r' (w r')"
    and env: "\<forall>(k, env) \<in> set schedule. good (opened env) \<and> epoch < printed_at env"
    and len: "length gets < length schedule"
  shows "async_main assoc body r c n gets schedule w = Inl Undefined_Behaviour"
proof -
  obtain p :: "('c, 'x, ('r, 'u) on_get_handler, ofstream) async_pool"
    where p: "async_pool_create n 10 duration_max duration_max = Inr p"
    using n by (simp add: async_pool_create_def async_assert_capacity_def)
  obtain w2 ws where start: "async_requests assoc r c gets (w(r := (p, []))) no_waits = Inr (w2, ws)"
    "serving assoc r (mset (map fst gets)) w2 ws" "length (aborted ws) \<le> length gets"
    by (rule requests_serving [OF n p gets(2) others])
  have "service_run body r schedule w2 ws = Inl Undefined_Behaviour"
    using service_overflows [OF start(2) _ _ env] start(3) gets(1) len by simp
  then show ?thesis
    by (simp add: async_main_def async_pool_construct_def run_and_destroy_def p start(1))
qed

end

subsection \<open>The three programs\<close>

text \<open>A run that ended, called each handler once without error and left nothing behind.\<close>

definition left_nothing :: "'u list \<Rightarrow> ('c, 'x, unit, 'u) service_result \<Rightarrow> bool" where
  "left_nothing us res \<longleftrightarrow>
     (\<exists>out w ws. res = Inr (Some (map (\<lambda>u. (u, no_error)) us, out, w, ws)) \<and> quiet out \<and> no_work () w ws
        \<and> waiting (fst (w ())) = [] \<and> used_cells (ap_storage (fst (w ()))) = [])"

lemma mset_replicate_list:
  assumes "mset xs = mset (replicate n x)"
  shows "xs = replicate n x"
proof -
  have "length xs = n"
    using mset_eq_length [OF assms] by simp
  moreover have "\<forall>y \<in> set xs. y = x"
    using mset_eq_setD [OF assms] by (auto split: if_splits)
  ultimately show ?thesis
    by (metis replicate_length_same)
qed

lemma main_left_nothing:
  assumes "completion assoc body" and "0 < n" and "length gets \<le> n + 10"
    and "\<forall>(k, env) \<in> set schedule. printed_at env \<le> epoch" and "3 * length gets \<le> length schedule"
    and "map fst gets = replicate m u"
  shows "left_nothing (replicate m u) (async_main assoc body () c n gets schedule w)"
proof -
  obtain ds out w' ws where run: "async_main assoc body () c n gets schedule w = Inr (Some (ds, out, w', ws))"
    "mset ds = mset (map (\<lambda>g. (fst g, no_error)) gets)" "quiet out" "no_work () w' ws"
    "waiting (fst (w' ())) = []" "used_cells (ap_storage (fst (w' ()))) = []"
    using completion.main_completes [OF assms(1-3) _ assms(4,5), of "()" w c] by auto
  have "map (\<lambda>g. (fst g, no_error)) gets = map (\<lambda>u. (u, no_error)) (map fst gets)"
    by simp
  also have "\<dots> = replicate m (u, no_error)"
    by (simp add: assms(6) map_replicate)
  finally have "ds = replicate m (u, no_error)"
    using run(2) by (intro mset_replicate_list) simp
  with run show ?thesis
    by (auto simp: left_nothing_def map_replicate)
qed

text \<open>The coroutine makes its request in the first turn.\<close>

lemma coro_main_start:
  "coro_main executor now now' (start # turns) w
     = async_main (\<lambda>_. Some executor) (coro_body async_api) () () 1 [((), now, now')] turns w"
  by (simp add: coro_main_def async_main_def)

text \<open>
  C26. The asynchronous examples end, or overflow. For every order in which the service executes the
  tasks and whatever the file system does: as long as the clock, when it is read for the output, is not
  past its epoch, each handler is called once and without error, nothing is printed to \<open>std::cerr\<close>,
  every cell comes back, nobody is left waiting, no wait on a timer is left armed, and \<open>service.run()\<close>
  returns after at most three turns for each request (and one that starts the coroutine). If the files
  open and the clock is past its epoch, as a steady clock is, the first output that is reached has
  undefined behaviour, because the subtraction overflows.
\<close>

theorem async_examples_complete:
  assumes "9 \<le> length schedule"
  shows "((\<forall>(k, env) \<in> set schedule. printed_at env \<le> epoch) \<longrightarrow>
      left_nothing (replicate 3 \<lparr>oh_strand = strand\<rparr>) (strand_main strand t1 t2 t3 schedule w)
      \<and> left_nothing [()] (callback_main now now' schedule w1)
      \<and> left_nothing [()] (coro_main executor now now' schedule w1))
    \<and> ((\<forall>(k, env) \<in> set schedule. good (opened env) \<and> epoch < printed_at env) \<longrightarrow>
      strand_main strand t1 t2 t3 schedule w = Inl Undefined_Behaviour
      \<and> callback_main now now' schedule w1 = Inl Undefined_Behaviour
      \<and> coro_main executor now now' schedule w1 = Inl Undefined_Behaviour)"
proof -
  obtain start turns where sch: "schedule = start # turns"
    using assms by (cases schedule) auto
  have us: "[u] = replicate 1 u" for u :: 'u
    by simp
  show ?thesis
  proof (intro conjI impI)
    assume now: "\<forall>(k, env) \<in> set schedule. printed_at env \<le> epoch"
    show "left_nothing (replicate 3 \<lparr>oh_strand = strand\<rparr>) (strand_main strand t1 t2 t3 schedule w)"
      unfolding strand_main_def Let_def using assms now
      by (intro main_left_nothing strands.completion_axioms; simp add: eval_nat_numeral)
    show "left_nothing [()] (callback_main now now' schedule w1)"
      unfolding callback_main_def using assms now
      by (subst us) (intro main_left_nothing callbacks.completion_axioms; simp)
    show "left_nothing [()] (coro_main executor now now' schedule w1)"
      unfolding sch coro_main_start using assms now
      by (subst us) (intro main_left_nothing coroutines.completion_axioms; simp add: sch)
  next
    assume late: "\<forall>(k, env) \<in> set schedule. good (opened env) \<and> epoch < printed_at env"
    show "strand_main strand t1 t2 t3 schedule w = Inl Undefined_Behaviour"
      unfolding strand_main_def Let_def using assms late by (intro strands.main_overflows; simp)
    show "callback_main now now' schedule w1 = Inl Undefined_Behaviour"
      unfolding callback_main_def using assms late by (intro callbacks.main_overflows; simp)
    show "coro_main executor now now' schedule w1 = Inl Undefined_Behaviour"
      unfolding sch coro_main_start using assms late by (intro coroutines.main_overflows; simp add: sch)
  qed
qed

text \<open>A log that can be opened and written, and a clock that reads its epoch, or is past it.\<close>

definition demo_surroundings :: "time_point \<Rightarrow> surroundings" where
  "demo_surroundings t =
     \<lparr>opened = \<lparr>bad_bit = False, fail_bit = False\<rparr>, outcome = \<lparr>bad_bit = False, fail_bit = False\<rparr>,
      reset_at = t, printed_at = t, returned_at = t\<rparr>"

definition demo_schedule :: "time_point \<Rightarrow> (nat \<times> surroundings) list" where
  "demo_schedule t = map (\<lambda>k. (k, demo_surroundings t)) [1, 3, 0, 2, 0, 1, 0, 0, 0]"

definition demo_files :: "(unit, nat option, unit, 'u, ofstream) async_world" where
  "demo_files = (\<lambda>_. (\<lparr>ap_storage = storage_of_capacity 1 duration_max duration_max, ap_capacity = 1,
     ap_queue = rq_new 1, ap_disabled = False\<rparr>, []))"

declare demo_surroundings_def [exec] demo_schedule_def [exec] demo_files_def [exec]

theorem async_examples_complete_witness:
  "(let t = (epoch, epoch) in
    \<exists>out w ws. strand_main 7 t t t (demo_schedule epoch) demo_files
       = Inr (Some (replicate 3 (\<lparr>oh_strand = 7\<rparr>, no_error), out, w, ws))
     \<and> quiet out \<and> used_cells (ap_storage (fst (w ()))) = [] \<and> armed ws = [])
   \<and> callback_main (Time_Point 5) (Time_Point 6) (demo_schedule (Time_Point 7)) demo_files = Inl Undefined_Behaviour"
proof
  have "9 \<le> length (demo_schedule epoch)" "\<forall>(k, env) \<in> set (demo_schedule epoch). printed_at env \<le> epoch"
    by (simp_all add: demo_schedule_def demo_surroundings_def)
  then have "left_nothing (replicate 3 \<lparr>oh_strand = 7\<rparr>) (strand_main 7 (epoch, epoch) (epoch, epoch) (epoch, epoch)
      (demo_schedule epoch) demo_files)"
    by (rule async_examples_complete [THEN conjunct1, THEN mp, THEN conjunct1])
  then show "let t = (epoch, epoch) in
    \<exists>out w ws. strand_main 7 t t t (demo_schedule epoch) demo_files
       = Inr (Some (replicate 3 (\<lparr>oh_strand = 7\<rparr>, no_error), out, w, ws))
     \<and> quiet out \<and> used_cells (ap_storage (fst (w ()))) = [] \<and> armed ws = []"
    by (auto simp: left_nothing_def Let_def no_work_def)
next
  have "9 \<le> length (demo_schedule (Time_Point 7))"
    "\<forall>(k, env) \<in> set (demo_schedule (Time_Point 7)). good (opened env) \<and> epoch < printed_at env"
    by (simp_all add: demo_schedule_def demo_surroundings_def good_def epoch_def time_point_order)
  then show "callback_main (Time_Point 5) (Time_Point 6) (demo_schedule (Time_Point 7)) demo_files
      = Inl Undefined_Behaviour"
    by (rule async_examples_complete [THEN conjunct2, THEN mp, THEN conjunct2, THEN conjunct1])
qed

end
