(* ===== verification/Benchmark_Callbacks.thy ===== *)
theory Benchmark_Callbacks
  imports Async_Examples
begin

text \<open>
  \<open>benchmarks/async.cc\<close>, the benchmark of callbacks in one thread.

  A number of callbacks go round: each takes the handle that it is called with, counts in the value of
  its cell, gives the cell back one way or the other, asks for the next handle and raises
  \<open>ready_count\<close>. The measured loop executes handlers until that number has changed. The random
  generator, the clock, the order of the handlers and the ends of the timers are inputs.
\<close>

subsection \<open>The table of arguments\<close>

record benchmark_args =
  ba_sequences :: nat
  ba_threads :: nat
  ba_resources :: nat
  ba_queue_size :: nat

definition benchmark_row :: "nat \<times> nat \<times> nat \<times> nat \<Rightarrow> benchmark_args" where
  "benchmark_row = (\<lambda>(sequences, threads, resources, queue_size).
     \<lparr>ba_sequences = sequences, ba_threads = threads, ba_resources = resources, ba_queue_size = queue_size\<rparr>)"

definition benchmarks :: "benchmark_args list" where
  "benchmarks = map benchmark_row
     [(1, 1, 1, 0), (2, 1, 1, 1), (2, 1, 2, 0), (10, 1, 10, 0), (10, 1, 1, 9), (10, 1, 5, 5), (10, 1, 9, 1),
      (10, 2, 5, 5), (100, 1, 100, 0), (100, 1, 10, 90), (100, 1, 50, 50), (100, 1, 90, 10), (100, 2, 50, 50),
      (1000, 1, 10, 990), (1000, 2, 10, 990), (10000, 1, 10, 9990), (10000, 2, 10, 9990)]"

text \<open>The number of threads that the two benchmarks use for their work.\<close>

definition callback_threads :: "benchmark_args \<Rightarrow> nat" where
  "callback_threads args = (if ba_threads args > 1 then ba_threads args else 1)"

definition coroutine_threads :: "benchmark_args \<Rightarrow> nat" where
  "coroutine_threads args = (if ba_threads args > 1 then 1 else ba_threads args)"

subsection \<open>The callback\<close>

record benchmark_context =
  bc_stop :: bool
  bc_ready_count :: int

definition benchmark_timeout :: duration where
  "benchmark_timeout = Duration 100000000"

record turn =
  recycles :: bool
  filled_at :: time_point
  back_at :: time_point
  asked_at :: time_point
  pushed_at :: time_point

text \<open>\<open>++handle->value\<close>, where \<open>resource\<close> has a signed 64-bit count.\<close>

definition count_up :: "('r, 'w, 'o, int) pool_api \<Rightarrow> 'r handle \<Rightarrow> 'w \<Rightarrow> 'w result" where
  "count_up api h w =
     and_then (handle_get api h w) (\<lambda>v.
     and_then (checked (v + 1) (v + 1)) (\<lambda>v'.
       case (pool_impl h, resource_it h) of
         (Some r, Some it) \<Rightarrow> api_write api r it (\<lambda>cell. cell\<lparr>idle_value := Some v'\<rparr>) w
       | _ \<Rightarrow> Inl Undefined_Behaviour))"

definition callback_impl ::
  "('r, 'w, 'o, int) pool_api \<Rightarrow> turn \<Rightarrow> error_code \<Rightarrow> 'r handle \<Rightarrow> 'w \<Rightarrow> 'w result" where
  "callback_impl api t ec h w =
     and_then
       (if failed ec then Inr (h, w)
        else
          and_then (handle_empty api h w) (\<lambda>empty.
          and_then (if empty then handle_reset api 0 (filled_at t) h w else Inr w) (\<lambda>w1.
          and_then (count_up api h w1) (\<lambda>w2.
            if recycles t then and_then (handle_recycle api (back_at t) h w2) (\<lambda>(h', w3, out). Inr (h', w3))
            else Inr (h, w2)))))
       (\<lambda>(h', w').
     and_then (handle_destroy api (back_at t) h' w') (\<lambda>(w'', out). Inr w''))"

definition callback_call ::
  "('u \<Rightarrow> 'x) \<Rightarrow> 'r \<Rightarrow> 'c \<Rightarrow> 'u \<Rightarrow> turn \<Rightarrow> error_code \<Rightarrow> 'r handle \<Rightarrow> benchmark_context \<Rightarrow>
   ('c, 'x, 'r, 'u, int) async_world \<Rightarrow> (benchmark_context \<times> ('c, 'x, 'r, 'u, int) async_world) result"
where
  "callback_call assoc r c this t ec handle ctx w =
     (case handle_move_construct handle of
        (moved, handle') \<Rightarrow>
          and_then (callback_impl async_api t ec moved w) (\<lambda>w1.
          and_then
            (if bc_stop ctx then Inr (w1, [])
             else async_get_auto_waste assoc r c this benchmark_timeout (asked_at t) (pushed_at t) w1)
            (\<lambda>(w2, out).
          and_then (checked (bc_ready_count ctx + 1) (bc_ready_count ctx + 1)) (\<lambda>n.
          and_then (handle_destroy async_api (back_at t) handle' w2) (\<lambda>(w3, out).
            Inr (ctx\<lparr>bc_ready_count := n\<rparr>, w3))))))"

subsection \<open>The measured loop\<close>

text \<open>
  What \<open>run_one\<close> may find: a callback to call, or a timer that has ended. With no callback to call it
  blocks (\<open>None\<close>), the I/O context being kept alive by its work guard. A state comes with the codes that
  the callbacks were called with.
\<close>

datatype benchmark_event =
    Handler_Ready nat turn
  | Timer_Ended error_code time_point

type_synonym ('c, 'x, 'r, 'u) benchmark_state =
  "error_code list \<times> benchmark_context \<times> ('c, 'x, 'r, 'u, int) async_world"

fun run_one ::
  "('u \<Rightarrow> 'x) \<Rightarrow> 'r \<Rightarrow> 'c \<Rightarrow> benchmark_event \<Rightarrow> ('c, 'x, 'r, 'u) benchmark_state \<Rightarrow>
   ('c, 'x, 'r, 'u) benchmark_state result option"
where
  "run_one assoc r c (Handler_Ready k t) (codes, ctx, w) =
     (if snd (w r) = [] then None
      else Some
        (and_then (deliver r (k mod length (snd (w r))) w) (\<lambda>((this, ec, h), w1).
         and_then (callback_call assoc r c this t ec h ctx w1) (\<lambda>(ctx', w2).
           Inr (codes @ [ec], ctx', w2)))))"
| "run_one assoc r c (Timer_Ended ec t) (codes, ctx, w) =
     Some (and_then (at_site r w (async_wait_done ec t (fst (w r)))) (\<lambda>(w', out). Inr (codes, ctx, w')))"

text \<open>One turn of the measured loop, which is still in its inner loop when the events are used up.\<close>

fun run_until_ready ::
  "('u \<Rightarrow> 'x) \<Rightarrow> 'r \<Rightarrow> 'c \<Rightarrow> int \<Rightarrow> benchmark_event list \<Rightarrow> ('c, 'x, 'r, 'u) benchmark_state \<Rightarrow>
   ('c, 'x, 'r, 'u) benchmark_state result option"
where
  "run_until_ready assoc r c ready_count [] s = None"
| "run_until_ready assoc r c ready_count (e # es) s =
     (case run_one assoc r c e s of
        None \<Rightarrow> None
      | Some (Inl f) \<Rightarrow> Some (Inl f)
      | Some (Inr s') \<Rightarrow>
          if ready_count = bc_ready_count (fst (snd s')) then run_until_ready assoc r c ready_count es s'
          else Some (Inr s'))"

fun keep_running ::
  "('u \<Rightarrow> 'x) \<Rightarrow> 'r \<Rightarrow> 'c \<Rightarrow> benchmark_event list list \<Rightarrow> ('c, 'x, 'r, 'u) benchmark_state \<Rightarrow>
   ('c, 'x, 'r, 'u) benchmark_state result option"
where
  "keep_running assoc r c [] s = Some (Inr s)"
| "keep_running assoc r c (es # turns) s =
     (case run_until_ready assoc r c (bc_ready_count (fst (snd s))) es s of
        None \<Rightarrow> None
      | Some (Inl f) \<Rightarrow> Some (Inl f)
      | Some (Inr s') \<Rightarrow> keep_running assoc r c turns s')"

text \<open>The requests that start the sequences, each with the two readings of the clock it may make.\<close>

fun start_sequences ::
  "('u \<Rightarrow> 'x) \<Rightarrow> 'r \<Rightarrow> 'c \<Rightarrow> 'u \<Rightarrow> (time_point \<times> time_point) list \<Rightarrow>
   ('c, 'x, 'r, 'u, int) async_world \<Rightarrow> ('c, 'x, 'r, 'u, int) async_world result"
where
  "start_sequences assoc r c cb [] w = Inr w"
| "start_sequences assoc r c cb ((now, now') # starts) w =
     and_then (async_get_auto_waste assoc r c cb benchmark_timeout now now' w) (\<lambda>(w', out).
       start_sequences assoc r c cb starts w')"

definition callbacks_st ::
  "('u \<Rightarrow> 'x) \<Rightarrow> 'r \<Rightarrow> 'c \<Rightarrow> 'u \<Rightarrow> benchmark_args \<Rightarrow> (nat \<Rightarrow> time_point \<times> time_point) \<Rightarrow>
   benchmark_event list list \<Rightarrow> ('c, 'x, 'r, 'u, int) async_world \<Rightarrow>
   ('c, 'x, 'r, 'u) benchmark_state result option"
where
  "callbacks_st assoc r c cb args starts turns w =
     (case and_then (async_pool_construct r (ba_resources args) (ba_queue_size args) duration_max duration_max w)
         (start_sequences assoc r c cb (map starts [0..<ba_sequences args])) of
        Inl f \<Rightarrow> Some (Inl f)
      | Inr w1 \<Rightarrow>
          (case keep_running assoc r c turns ([], \<lparr>bc_stop = False, bc_ready_count = 0\<rparr>, w1) of
             None \<Rightarrow> None
           | Some (Inl f) \<Rightarrow> Some (Inl f)
           | Some (Inr (codes, ctx, w2)) \<Rightarrow>
               Some (and_then (async_pool_destroy (Some r) w2) (\<lambda>(w3, out).
                 Inr (codes, ctx\<lparr>bc_stop := True\<rparr>, w3)))))"

lemmas benchmark_defs =
  benchmark_row_def benchmarks_def callback_threads_def coroutine_threads_def benchmark_timeout_def
  count_up_def callback_impl_def callback_call_def callbacks_st_def

declare benchmark_defs [exec]

subsection \<open>Values only disappear\<close>

definition no_new_values :: "'v storage \<Rightarrow> 'v storage \<Rightarrow> bool" where
  "no_new_values s s' \<longleftrightarrow> (\<forall>c. idle_value (cells s' c) = None \<or> idle_value (cells s' c) = idle_value (cells s c))"

lemma no_new_values_refl [simp]: "no_new_values s s"
  by (simp add: no_new_values_def)

lemma no_new_values_trans: "no_new_values s s1 \<Longrightarrow> no_new_values s1 s2 \<Longrightarrow> no_new_values s s2"
  by (metis no_new_values_def)

lemma no_new_values_lease_available: "lease_available now s = (s', res) \<Longrightarrow> no_new_values s s'"
proof (induction now s arbitrary: s' res rule: lease_available.induct)
  case (1 now s)
  show ?case
  proof (cases "available_cells s")
    case Nil
    with 1 show ?thesis by (simp add: lease_available.simps)
  next
    case (Cons d rest)
    show ?thesis
    proof (cases "drop_time (cells s d) > now")
      case True
      with 1(2) Cons show ?thesis
        by (auto simp: lease_available.simps [of now s] no_new_values_def)
    next
      case False
      let ?t = "s\<lparr>cells := (cells s)(d := reset_value (cells s d)), available_cells := rest,
        wasted_cells := wasted_cells s @ [d]\<rparr>"
      have "no_new_values ?t s'"
        using 1(1) [OF Cons False] 1(2) False Cons by (auto simp: lease_available.simps [of now s])
      then show ?thesis
        by (rule no_new_values_trans [rotated]) (simp add: no_new_values_def)
    qed
  qed
qed

lemma no_new_values_lease: "lease now s = (s', res) \<Longrightarrow> no_new_values s s'"
proof -
  assume run: "lease now s = (s', res)"
  obtain t x where t: "lease_available now s = (t, x)"
    by (cases "lease_available now s")
  have "no_new_values t s'"
    using run by (auto simp: lease_def t no_new_values_def split: option.splits list.splits)
  with no_new_values_lease_available [OF t] show ?thesis
    by (rule no_new_values_trans)
qed

lemma no_new_values_back:
  "storage_recycle now it s = Inr s' \<Longrightarrow> no_new_values s s'"
  "storage_waste it s = Inr s' \<Longrightarrow> no_new_values s s'"
  by (auto simp: storage_recycle_def storage_waste_def no_new_values_def
      split: cell_iterator.splits if_splits)

lemma no_new_values_give_back:
  "async_recycle now it p = Inr (p', calls) \<Longrightarrow> no_new_values (ap_storage p) (ap_storage p')"
  "async_waste it p = Inr (p', calls) \<Longrightarrow> no_new_values (ap_storage p) (ap_storage p')"
  by (auto simp: async_recycle_def async_waste_def and_then_Inr_iff split: option.splits if_splits
      intro: no_new_values_back) (auto simp: no_new_values_def update_cell_Inr_iff)

text \<open>The counts in the cells are at most the number of turns that have been made.\<close>

definition counts_upto :: "int \<Rightarrow> int storage \<Rightarrow> bool" where
  "counts_upto n s \<longleftrightarrow> (\<forall>c v. idle_value (cells s c) = Some v \<longrightarrow> 0 \<le> v \<and> v \<le> n)"

lemma counts_upto_mono: "counts_upto n s \<Longrightarrow> no_new_values s s' \<Longrightarrow> n \<le> m \<Longrightarrow> counts_upto m s'"
  unfolding counts_upto_def no_new_values_def by (metis option.distinct(1) order_trans)

lemma no_new_values_api:
  "api_recycle async_api now r it w = Inr (w', out) \<Longrightarrow>
     no_new_values (ap_storage (fst (w r))) (ap_storage (fst (w' r)))"
  "api_waste async_api r it w = Inr (w', out) \<Longrightarrow>
     no_new_values (ap_storage (fst (w r))) (ap_storage (fst (w' r)))"
  by (auto simp: async_api_def at_site_def and_then_Inr_iff intro: no_new_values_give_back)

subsection \<open>One call of the callback\<close>

lemma and_then_assoc: "and_then (and_then m f) g = and_then m (\<lambda>x. and_then (f x) g)"
  by (cases m) simp_all

definition put_cell ::
  "'r \<Rightarrow> nat \<Rightarrow> 'v idle \<Rightarrow> ('c, 'x, 'r, 'u, 'v) async_world \<Rightarrow> ('c, 'x, 'r, 'u, 'v) async_world" where
  "put_cell r c y w =
     (let s = ap_storage (fst (w r))
      in w(r := ((fst (w r))\<lparr>ap_storage := s\<lparr>cells := (cells s)(c := y)\<rparr>\<rparr>, snd (w r))))"

lemma put_cell_simps [simp]:
  "put_cell r c y (put_cell r c x w) = put_cell r c y w"
  "cells (ap_storage (fst (put_cell r c y w r))) = (cells (ap_storage (fst (w r))))(c := y)"
  "used_cells (ap_storage (fst (put_cell r c y w r))) = used_cells (ap_storage (fst (w r)))"
  by (simp_all add: put_cell_def Let_def)

lemma used_cell_memory:
  assumes "c \<in> set (used_cells (ap_storage (fst (w r))))"
  shows "api_read async_api r (Cell c) w = Inr (cells (ap_storage (fst (w r))) c)"
    and "api_write async_api r (Cell c) f w = Inr (put_cell r c (f (cells (ap_storage (fst (w r))) c)) w)"
  using used_cells_alive [OF assms]
  by (simp_all add: async_api_def read_cell_def update_cell_def put_cell_def Let_def)

definition counted :: "turn \<Rightarrow> int idle \<Rightarrow> int idle" where
  "counted t x =
     (case idle_value x of
        None \<Rightarrow> (fill_cell 0 (filled_at t) x)\<lparr>idle_value := Some 1\<rparr>
      | Some v \<Rightarrow> x\<lparr>idle_value := Some (v + 1)\<rparr>)"

lemma count_in_cell:
  assumes c: "c \<in> set (used_cells (ap_storage (fst (w r))))" and x: "x = cells (ap_storage (fst (w r))) c"
    and v: "\<forall>v. idle_value x = Some v \<longrightarrow> tick_range (v + 1)"
  shows "and_then (handle_empty async_api (handle_new r st (Cell c)) w) (\<lambda>empty.
      and_then (if empty then handle_reset async_api 0 (filled_at t) (handle_new r st (Cell c)) w else Inr w)
        (count_up async_api (handle_new r st (Cell c))))
    = Inr (put_cell r c (counted t x) w)"
proof -
  have one: "tick_range 1"
    by (simp add: tick_defs)
  show ?thesis
  proof (cases "idle_value x")
    case None
    let ?w = "put_cell r c (fill_cell 0 (filled_at t) x) w"
    have "c \<in> set (used_cells (ap_storage (fst (?w r))))"
      using c by simp
    note mem = used_cell_memory [of c ?w r, OF this] used_cell_memory [of c w r, OF c]
    then show ?thesis
      using None one
      by (simp add: handle_empty_def handle_cell_def handle_reset_def assert_not_unusable_def count_up_def
          handle_get_def assert_not_empty_def checked_def counted_def flip: x)
  next
    case (Some v)
    then show ?thesis
      using v used_cell_memory [of c w r, OF c]
      by (simp add: handle_empty_def handle_cell_def count_up_def handle_get_def assert_not_empty_def
          checked_def counted_def flip: x)
  qed
qed

lemma callback_impl_ok:
  assumes ok: "async_world_ok assoc w" and c: "c \<in> async_world_lent r w"
    and n: "counts_upto n (ap_storage (fst (w r)))" "0 \<le> n" "tick_range (n + 1)"
  shows "\<exists>w'. callback_impl async_api t no_error (handle_new r st (Cell c)) w = Inr w'
    \<and> finished assoc r c w w' \<and> counts_upto (n + 1) (ap_storage (fst (w' r)))"
proof -
  let ?h = "handle_new r st (Cell c)"
  define x where "x = cells (ap_storage (fst (w r))) c"
  have site: "site_ok assoc r (w r)" "c \<in> site_lent (w r)"
    using ok c by (simp_all add: async_world_ok_def async_world_lent_def)
  then have used: "c \<in> set (used_cells (ap_storage (fst (w r))))"
    by (auto simp: site_lent_def async_lent_def split: prod.splits)
  have v: "0 \<le> v \<and> v \<le> n" if "idle_value x = Some v" for v
    using n(1) that by (auto simp: counts_upto_def x_def)
  have range: "\<forall>v. idle_value x = Some v \<longrightarrow> tick_range (v + 1)"
    using v n(3) by (fastforce simp: tick_defs)
  let ?w = "put_cell r c (counted t x) w"
  have upto: "counts_upto (n + 1) (ap_storage (fst (?w r)))"
    using n(1,2) v by (force simp: counts_upto_def counted_def fill_cell_def split: option.splits)
  note count = count_in_cell [of c w r x st t, OF used x_def range]
  have "api_write async_api r (Cell c) (\<lambda>_. counted t x) w = Inr ?w"
    by (rule used_cell_memory(2) [of c w r, OF used])
  note give = give_after_store [OF site this]
  have keep: "counts_upto (n + 1) (ap_storage (fst (w' r)))"
    if "no_new_values (ap_storage (fst (?w r))) (ap_storage (fst (w' r)))" for w'
    using counts_upto_mono [OF upto that] by simp
  have rec: "\<exists>w' out. api_recycle async_api now r (Cell c) ?w = Inr (w', out)
      \<and> finished assoc r c w w' \<and> counts_upto (n + 1) (ap_storage (fst (w' r)))" for now
  proof -
    obtain w' out where "api_recycle async_api now r (Cell c) ?w = Inr (w', out)" "finished assoc r c w w'"
      using give(1) by blast
    then show ?thesis
      using keep [of w', OF no_new_values_api(1) [of _  r "Cell c" ?w w' out]] by blast
  qed
  moreover have "\<exists>w' out. api_waste async_api r (Cell c) ?w = Inr (w', out)
      \<and> finished assoc r c w w' \<and> counts_upto (n + 1) (ap_storage (fst (w' r)))"
  proof -
    obtain w' out where "api_waste async_api r (Cell c) ?w = Inr (w', out)" "finished assoc r c w w'"
      using give(2) by blast
    then show ?thesis
      using keep [of w', OF no_new_values_api(2) [of r "Cell c" ?w w' out]] by blast
  qed
  ultimately have last: "\<exists>w' out. handle_destroy async_api (back_at t) ?h ?w = Inr (w', out)
      \<and> finished assoc r c w w' \<and> counts_upto (n + 1) (ap_storage (fst (w' r)))"
    by (intro destroy_new_handle)
  have impl: "callback_impl async_api t no_error ?h w
    = and_then (and_then (handle_empty async_api ?h w) (\<lambda>empty.
        and_then (if empty then handle_reset async_api 0 (filled_at t) ?h w else Inr w) (count_up async_api ?h)))
      (\<lambda>w2. and_then
        (if recycles t then and_then (handle_recycle async_api (back_at t) ?h w2) (\<lambda>(h', w3, out). Inr (h', w3))
         else Inr (?h, w2))
        (\<lambda>(h', w'). and_then (handle_destroy async_api (back_at t) h' w') (\<lambda>(w'', out). Inr w'')))"
    unfolding callback_impl_def by (simp only: failed_simps if_False and_then_assoc)
  show ?thesis
  proof (cases "recycles t")
    case True
    obtain w' out where "api_recycle async_api (back_at t) r (Cell c) ?w = Inr (w', out)"
      "finished assoc r c w w'" "counts_upto (n + 1) (ap_storage (fst (w' r)))"
      using rec by blast
    then show ?thesis
      unfolding impl count using True
      by (simp add: handle_recycle_def assert_not_unusable_def handle_destroy_def handle_release_def unusable_def)
  next
    case False
    with last show ?thesis
      unfolding impl count by auto
  qed
qed

subsection \<open>Going round\<close>

text \<open>
  Between two events nobody holds a cell, a request waits only if no cell is free, and \<open>m\<close> sequences are
  waiting or on their way to their callbacks, for which there is room.
\<close>

definition served_or_late :: "('c \<times> ('x, 'h) task) list \<Rightarrow> bool" where
  "served_or_late ts \<longleftrightarrow>
     (\<forall>(c, t) \<in> set ts. task_code t \<in> {no_error, make_error_code Get_Resource_Timeout})"

definition cycling ::
  "('u \<Rightarrow> 'x) \<Rightarrow> 'r \<Rightarrow> nat \<Rightarrow> nat \<Rightarrow> nat \<Rightarrow> int \<Rightarrow> ('c, 'x, 'r, 'u, int) async_world \<Rightarrow> bool" where
  "cycling assoc r n k m v w \<longleftrightarrow>
     0 < n \<and> async_world_ok assoc w \<and> site_lent (w r) = {} \<and> served_or_late (snd (w r))
     \<and> \<not> ap_disabled (fst (w r)) \<and> ap_capacity (fst (w r)) = n \<and> rq_capacity (ap_queue (fst (w r))) = k
     \<and> (waiting (fst (w r)) \<noteq> [] \<longrightarrow> async_free (fst (w r)) = 0)
     \<and> length (snd (w r)) + length (waiting (fst (w r))) = m
     \<and> counts_upto v (ap_storage (fst (w r)))"

lemma served_or_late_simps [simp]:
  "served_or_late []"
  "served_or_late (x # ts) \<longleftrightarrow>
     task_code (snd x) \<in> {no_error, make_error_code Get_Resource_Timeout} \<and> served_or_late ts"
  "served_or_late (ts @ us) \<longleftrightarrow> served_or_late ts \<and> served_or_late us"
  by (auto simp: served_or_late_def split: prod.splits)

lemma cyclingI:
  assumes "0 < n" "async_world_ok assoc w" "w r = (p, ts)" "site_lent (p, ts) = {}" "served_or_late ts"
    "\<not> ap_disabled p" "ap_capacity p = n" "rq_capacity (ap_queue p) = k"
    "waiting p \<noteq> [] \<Longrightarrow> async_free p = 0" "length ts + length (waiting p) = m" "counts_upto v (ap_storage p)"
  shows "cycling assoc r n k m v w"
  using assms by (simp add: cycling_def)

lemma cyclingD:
  assumes "cycling assoc r n k m v w" and "w r = (p, ts)"
  shows "0 < n" "async_world_ok assoc w" "site_ok assoc r (p, ts)" "site_lent (p, ts) = {}" "served_or_late ts"
    "\<not> ap_disabled p" "ap_capacity p = n" "rq_capacity (ap_queue p) = k"
    "waiting p \<noteq> [] \<Longrightarrow> async_free p = 0" "length ts + length (waiting p) = m" "counts_upto v (ap_storage p)"
  using assms site_of_world [of assoc w r] by (simp_all add: cycling_def)

lemma flight_cells_length: "length (flight_cells ts) \<le> length ts"
  by (induction ts) (auto simp: flight_cells_def cell_of_def split: cell_iterator.splits)

text \<open>Every cell in use is in a task, so that with a request there is a task.\<close>

lemma all_in_tasks:
  assumes "site_ok assoc r (p, ts)" and "site_lent (p, ts) = {}" and "async_free p = 0"
  shows "ap_capacity p \<le> length ts"
proof -
  have "async_lent p = set (flight_cells ts)"
    using assms(2) site_lent_empty [OF assms(1)] by simp
  then have "card (async_lent p) \<le> length ts"
    using card_length [of "flight_cells ts"] flight_cells_length [of ts] by simp
  then show ?thesis
    using async_free_lent [OF site_ok_parts(1) [OF assms(1)]] assms(3) by simp
qed

lemma cycling_has_task:
  assumes "cycling assoc r n k m v w" and "0 < m"
  shows "snd (w r) \<noteq> []"
proof
  assume none: "snd (w r) = []"
  obtain p ts where wr: "w r = (p, ts)" by (cases "w r")
  note c = cyclingD [OF assms(1) wr]
  have "waiting p \<noteq> []"
    using c(10) assms(2) none by (auto simp: wr)
  then have "n \<le> length ts"
    using all_in_tasks [OF c(3,4)] c(7,9) by simp
  with c(1) none show False by (simp add: wr)
qed

lemma cycling_request:
  assumes f: "cycling assoc r n k m v w" and room: "m < n + k"
  shows "\<exists>w' out. async_get_auto_waste assoc r c u benchmark_timeout now now' w = Inr (w', out)
    \<and> cycling assoc r n k (Suc m) v w'"
proof -
  obtain p ts where wr: "w r = (p, ts)" by (cases "w r")
  note p = cyclingD [OF f wr]
  note inv = site_ok_parts(1) [OF p(3)]
  let ?h = "make_on_get_handler r Strategy_Waste u"
  obtain p' calls where get: "async_get (on_get_executor assoc) c ?h benchmark_timeout now now' p = Inr (p', calls)"
    "site_ok assoc r (p', ts @ posted calls)" "site_lent (p', ts @ posted calls) = {}"
    using site_get [OF p(3)] p(4) by metis
  let ?w = "w(r := (p', ts @ posted calls))"
  have ok': "async_world_ok assoc ?w"
    by (rule async_world_ok_upd [OF p(2) get(2)])
  have run: "async_get_auto_waste assoc r c u benchmark_timeout now now' w = Inr (?w, map (Pair r) calls)"
    by (simp add: async_get_auto_waste_def async_pool_get_def at_site_def wr get(1))
  have "cycling assoc r n k (Suc m) v ?w"
    using inv
  proof (cases rule: async_get_locked_cases [where c = c and h = ?h and w = benchmark_timeout and now = now])
    case (leased s cell)
    then have p': "p' = p\<lparr>ap_storage := s\<rparr>" "calls = [Post c (Get_Task (On_List_Iterator_Handler no_error (Cell cell) ?h))]"
      using get(1) by (simp_all add: async_get_def)
    have "async_free p \<noteq> 0"
      using leased(2) lease_None_iff [of now "ap_storage p"] by (auto simp: async_free_def)
    then have "waiting p = []"
      by (rule contrapos_np) (rule p(9))
    moreover have "counts_upto v s"
      using counts_upto_mono [OF p(11) no_new_values_lease [OF leased(2)]] by simp
    ultimately show ?thesis
      using p get(3) by (intro cyclingI [OF p(1) ok' fun_upd_same]) (auto simp: p')
  next
    case waits
    have "n \<le> length ts"
      using all_in_tasks [OF p(3,4) waits(2)] p(7) by simp
    then have "length (waiting p) < rq_capacity (ap_queue p)"
      using p(8,10) room by simp
    then obtain p1 calls1 where push: "async_get_push (on_get_executor assoc) c ?h benchmark_timeout now' p = Inr (p1, calls1)"
      "ap_storage p1 = ap_storage p" "ap_disabled p1 = ap_disabled p" "ap_capacity p1 = ap_capacity p"
      "rq_capacity (ap_queue p1) = rq_capacity (ap_queue p)" "posted calls1 = []"
      "waiting p1 = waiting p @ [(add now' benchmark_timeout, c, list_iterator_handler_of (on_get_executor assoc) ?h)]"
      using async_get_push_ok [OF inv, of c ?h benchmark_timeout now'] by metis
    have p': "p' = p1" "calls = calls1"
      using get(1) waits(4) push(1) by (simp_all add: async_get_def)
    show ?thesis
      using p get(3) push waits(2)
      by (intro cyclingI [OF p(1) ok' fun_upd_same]) (auto simp: p' async_free_def)
  qed (use p(6) in \<open>auto simp: benchmark_timeout_def\<close>)
  with run show ?thesis by blast
qed

lemma cycling_timer:
  assumes f: "cycling assoc r n k m v w"
  shows "\<exists>w' out. at_site r w (async_wait_done ec t (fst (w r))) = Inr (w', out) \<and> cycling assoc r n k m v w'"
proof -
  obtain p ts where wr: "w r = (p, ts)" by (cases "w r")
  note p = cyclingD [OF f wr]
  obtain p' calls where d: "async_wait_done ec t p = Inr (p', calls)" "async_inv (on_get_executor assoc) p'"
    "posted calls = (if failed ec then [] else map expire (due t (waiting p)))"
    "waiting p' = (if failed ec then waiting p else filter (\<lambda>x. \<not> fst x \<le> t) (waiting p))"
    "ap_storage p' = ap_storage p" "ap_disabled p' = ap_disabled p" "ap_capacity p' = ap_capacity p"
    "rq_capacity (ap_queue p') = rq_capacity (ap_queue p)"
    by (rule async_wait_done_ok [OF site_ok_parts(1) [OF p(3)]])
  have site: "site_ok assoc r (p', ts @ posted calls)" "site_lent (p', ts @ posted calls) = {}"
    using site_wait_done [OF p(3), of ec t] d(1) p(4) by auto
  have len: "length (posted calls) + length (waiting p') = length (waiting p)"
    using sum_length_filter_compl [of "\<lambda>x. fst x \<le> t" "waiting p"] by (simp add: d(3,4) due_def)
  have "served_or_late (posted calls)"
    by (auto simp: d(3) served_or_late_def expire_def)
  moreover have "waiting p' \<noteq> [] \<Longrightarrow> waiting p \<noteq> []"
    unfolding d(4) by (auto split: if_splits)
  ultimately have "cycling assoc r n k m v (w(r := (p', ts @ posted calls)))"
    using p site d(5-8) len
    by (intro cyclingI [OF p(1) async_world_ok_upd [OF p(2) site(1)] fun_upd_same]) (auto simp: async_free_def)
  then show ?thesis
    by (simp add: at_site_def wr d(1))
qed

lemma destroy_unusable: "unusable h \<Longrightarrow> handle_destroy api now h w = Inr (w, [])"
  by (simp add: handle_destroy_def handle_release_def)

lemma move_construct_copy: "handle_move_construct h = (h, moved_from h)"
  by (cases h) (simp add: handle_move_construct_def)

lemma cycling_finished:
  assumes n: "0 < n" and w1: "async_world_ok assoc w1" "w1 r = (p, ts)" and c: "site_lent (p, ts) = {c}"
    and codes: "served_or_late ts" and p: "\<not> ap_disabled p" "ap_capacity p = n" "rq_capacity (ap_queue p) = k"
    and calm: "waiting p \<noteq> [] \<Longrightarrow> async_free p = 0" and m: "length ts + length (waiting p) = m"
    and fin: "finished assoc r c w1 w2" and v: "counts_upto v (ap_storage (fst (w2 r)))"
  shows "cycling assoc r n k m v w2"
proof -
  obtain p' calls where w2: "w2 = w1(r := (p', ts @ posted calls))"
    "site_ok assoc r (p', ts @ posted calls)" and out: "given_back c p p' calls"
    using fin w1(2) by (auto simp: finished_def)
  have ok: "async_world_ok assoc w2"
    unfolding w2(1) by (rule async_world_ok_upd [OF w1(1) w2(2)])
  have site: "site_ok assoc r (p, ts)"
    using w1 by (metis async_world_ok_def)
  have lent: "async_lent p = insert c (set (flight_cells ts))" "c \<notin> set (flight_cells ts)"
    using c site_ok_parts(5) [OF site] by (auto simp: site_lent_def)
  have v': "counts_upto v (ap_storage p')"
    using v by (simp add: w2(1))
  note same = given_back_same [OF out]
  from out show ?thesis
  proof (cases rule: given_back_cases)
    case kept
    then show ?thesis
      using codes p same m lent v'
      by (intro cyclingI [OF n ok, of r p' ts]) (auto simp: w2(1) site_lent_def)
  next
    case (served x)
    have "async_free p' = async_free p"
      using async_free_same [OF site_ok_parts(1) [OF site] site_ok_parts(1) [OF w2(2)] served(3)] same by simp
    moreover obtain d ctx w where x: "x = (d, ctx, w)" by (cases x)
    ultimately show ?thesis
      using codes p same m lent v' served calm
      by (intro cyclingI [OF n ok, of r p' "ts @ [serve (Cell c) x]"])
        (auto simp: w2(1) site_lent_def serve_def x)
  qed
qed

lemma served_or_late_remove: "served_or_late ts \<Longrightarrow> served_or_late (remove_nth k ts)"
  using set_remove_nth [of k ts] by (auto simp: served_or_late_def)

lemma callback_call_ok:
  assumes "callback_impl async_api t ec h w1 = Inr w2" and "\<not> bc_stop ctx" and "tick_range (bc_ready_count ctx + 1)"
    and f: "cycling assoc r n k m v w2" "m < n + k"
  shows "\<exists>w3. callback_call assoc r c this t ec h ctx w1 = Inr (ctx\<lparr>bc_ready_count := bc_ready_count ctx + 1\<rparr>, w3)
    \<and> cycling assoc r n k (Suc m) v w3"
proof -
  obtain w3 out where "async_get_auto_waste assoc r c this benchmark_timeout (asked_at t) (pushed_at t) w2 = Inr (w3, out)"
    "cycling assoc r n k (Suc m) v w3"
    using cycling_request [OF f, of c this "asked_at t" "pushed_at t"] by blast
  then show ?thesis
    using assms(1-3)
    by (simp add: callback_call_def move_construct_copy checked_def destroy_unusable)
qed

lemma cycling_turn:
  assumes f: "cycling assoc r n k m v w" and room: "m \<le> n + k" and j: "j < length (snd (w r))"
    and v: "0 \<le> v" "tick_range (v + 1)" and ctx: "\<not> bc_stop ctx" "tick_range (bc_ready_count ctx + 1)"
  shows "\<exists>this ec h w1 w2. deliver r j w = Inr ((this, ec, h), w1)
    \<and> ec \<in> {no_error, make_error_code Get_Resource_Timeout}
    \<and> callback_call assoc r c this t ec h ctx w1 = Inr (ctx\<lparr>bc_ready_count := bc_ready_count ctx + 1\<rparr>, w2)
    \<and> cycling assoc r n k m (v + 1) w2"
proof -
  obtain p ts where wr: "w r = (p, ts)" by (cases "w r")
  note p = cyclingD [OF f wr]
  have j': "j < length ts"
    using j by (simp add: wr)
  define task where "task = snd (ts ! j)"
  have "(fst (ts ! j), task) \<in> set ts"
    using nth_mem [OF j'] by (simp add: task_def)
  then have t: "task_sound (on_get_executor assoc) task" "ogh_impl (task_handler task) = r"
    "task_code task \<in> {no_error, make_error_code Get_Resource_Timeout}"
    using site_ok_parts(3) [OF p(3)] p(5) by (auto simp: served_or_late_def)
  note run = run_task_sound [OF t(1)]
  let ?w = "w(r := (p, remove_nth j ts))"
  let ?out = "on_get_call (task_handler task) (task_code task) (task_iterator task)"
  have dlv: "deliver r j w = Inr (?out, ?w)"
    using run by (simp add: deliver_def wr task_def)
  have site': "site_ok assoc r (p, remove_nth j ts)"
    "site_lent (p, remove_nth j ts) = set (cell_of (task_iterator task))"
    using run p(4) by (auto intro: site_run_task [OF p(3) j'] simp: task_def)
  note w1 = async_world_ok_upd [OF p(2) site'(1)]
  have len: "length (remove_nth j ts) = length ts - 1"
    using j' by (simp add: remove_nth_def)
  have m: "length (remove_nth j ts) + length (waiting p) = m - 1" "Suc (m - 1) = m" "m - 1 < n + k"
    using p(10) j' room by (simp_all add: len)
  note codes = served_or_late_remove [OF p(5), of j]
  have "\<exists>h w2. ?out = (ogh_handler (task_handler task), task_code task, h)
      \<and> callback_impl async_api t (task_code task) h ?w = Inr w2 \<and> cycling assoc r n k (m - 1) (v + 1) w2"
  proof (cases "failed (task_code task)")
    case True
    then have "task_iterator task = Singular"
      using task_code_sound [OF t(1)] by simp
    then have empty: "site_lent (p, remove_nth j ts) = {}"
      using site'(2) by simp
    have "counts_upto (v + 1) (ap_storage p)"
      using counts_upto_mono [OF p(11), of "ap_storage p" "v + 1"] by simp
    then have "cycling assoc r n k (m - 1) (v + 1) ?w"
      using p(6-9) codes m(1) by (intro cyclingI [OF p(1) w1 fun_upd_same empty]) auto
    with True show ?thesis
      by (simp add: on_get_call_def callback_impl_def destroy_unusable)
  next
    case False
    then have ec: "task_code task = no_error"
      using t(3) by auto
    obtain c' where c': "task_iterator task = Cell c'"
      using task_code_sound [OF t(1)] False by (cases "task_iterator task") auto
    have lent: "c' \<in> async_world_lent r ?w"
      by (simp add: async_world_lent_def site'(2) c')
    obtain w2 where w2: "callback_impl async_api t no_error
        (handle_new r (ogh_strategy (task_handler task)) (Cell c')) ?w = Inr w2"
      "finished assoc r c' ?w w2" "counts_upto (v + 1) (ap_storage (fst (w2 r)))"
      using callback_impl_ok [OF w1 lent _ v] p(11) by auto
    have "site_lent (p, remove_nth j ts) = {c'}"
      by (simp add: site'(2) c')
    then have "cycling assoc r n k (m - 1) (v + 1) w2"
      using cycling_finished [OF p(1) w1 fun_upd_same _ codes p(6-9) m(1) w2(2,3)] by blast
    with w2(1) t(2) show ?thesis
      by (simp add: on_get_call_def ec c')
  qed
  then obtain h w2 where out: "?out = (ogh_handler (task_handler task), task_code task, h)"
    "callback_impl async_api t (task_code task) h ?w = Inr w2" "cycling assoc r n k (m - 1) (v + 1) w2"
    by blast
  from callback_call_ok [OF out(2) ctx out(3) m(3), of c "ogh_handler (task_handler task)"] dlv t(3)
  show ?thesis
    unfolding out(1) m(2) by blast
qed

subsection \<open>The whole benchmark\<close>

fun is_handler :: "benchmark_event \<Rightarrow> bool" where
  "is_handler (Handler_Ready k t) \<longleftrightarrow> True"
| "is_handler (Timer_Ended ec t) \<longleftrightarrow> False"

lemma run_until_ready_ok:
  assumes "cycling assoc r n k m v w" and "0 < m" "m \<le> n + k" and "0 \<le> v" "tick_range (v + 1)"
    and "\<not> bc_stop ctx" "bc_ready_count ctx = v" and "list_ex is_handler es"
  shows "\<exists>ec w'. run_until_ready assoc r c v es (codes, ctx, w)
      = Some (Inr (codes @ [ec], ctx\<lparr>bc_ready_count := v + 1\<rparr>, w'))
    \<and> ec \<in> {no_error, make_error_code Get_Resource_Timeout} \<and> cycling assoc r n k m (v + 1) w'"
  using assms(1,8)
proof (induction es arbitrary: w)
  case (Cons e es)
  show ?case
  proof (cases e)
    case (Handler_Ready j t)
    have tasks: "snd (w r) \<noteq> []"
      by (rule cycling_has_task [OF Cons.prems(1) assms(2)])
    then have "j mod length (snd (w r)) < length (snd (w r))"
      by simp
    with cycling_turn [OF Cons.prems(1) assms(3) this assms(4-6), where t = t and c = c] assms(5,7) tasks show ?thesis
      by (fastforce simp: Handler_Ready)
  next
    case (Timer_Ended ec t)
    obtain w' out where "at_site r w (async_wait_done ec t (fst (w r))) = Inr (w', out)" "cycling assoc r n k m v w'"
      using cycling_timer [OF Cons.prems(1)] by blast
    with Cons.IH [of w'] Cons.prems(2) assms(7) show ?thesis
      by (simp add: Timer_Ended)
  qed
qed simp

lemma keep_running_ok:
  assumes "cycling assoc r n k m v w" and "0 < m" "m \<le> n + k" and "0 \<le> v" "tick_range (v + int (length turns))"
    and "\<not> bc_stop ctx" "bc_ready_count ctx = v" and "list_all (list_ex is_handler) turns"
  shows "\<exists>ecs w'. keep_running assoc r c turns (codes, ctx, w)
      = Some (Inr (codes @ ecs, ctx\<lparr>bc_ready_count := v + int (length turns)\<rparr>, w'))
    \<and> length ecs = length turns \<and> set ecs \<subseteq> {no_error, make_error_code Get_Resource_Timeout}
    \<and> cycling assoc r n k m (v + int (length turns)) w'"
  using assms
proof (induction turns arbitrary: v w codes ctx)
  case Nil
  then show ?case by auto
next
  case (Cons es turns)
  have "tick_range (v + 1)"
    using Cons.prems(4,5) by (auto simp: tick_defs)
  with Cons.prems obtain ec w' where step: "run_until_ready assoc r c v es (codes, ctx, w)
      = Some (Inr (codes @ [ec], ctx\<lparr>bc_ready_count := v + 1\<rparr>, w'))"
    "ec \<in> {no_error, make_error_code Get_Resource_Timeout}" "cycling assoc r n k m (v + 1) w'"
    using run_until_ready_ok [of assoc r n k m v w ctx es c codes] by auto
  have range: "tick_range (v + 1 + int (length turns))"
    using Cons.prems(5) by (simp add: algebra_simps)
  obtain ecs w2 where "keep_running assoc r c turns (codes @ [ec], ctx\<lparr>bc_ready_count := v + 1\<rparr>, w')
      = Some (Inr ((codes @ [ec]) @ ecs, ctx\<lparr>bc_ready_count := v + 1 + int (length turns)\<rparr>, w2))"
    "length ecs = length turns" "set ecs \<subseteq> {no_error, make_error_code Get_Resource_Timeout}"
    "cycling assoc r n k m (v + 1 + int (length turns)) w2"
    using Cons.IH [OF step(3) Cons.prems(2,3) _ range, of "ctx\<lparr>bc_ready_count := v + 1\<rparr>" "codes @ [ec]"] Cons.prems(4,6,8)
    by auto
  with step Cons.prems(7) show ?case
    by (intro exI [of _ "ec # ecs"] exI [of _ w2]) (simp add: algebra_simps)
qed

lemma start_sequences_ok:
  "cycling assoc r n k m v w \<Longrightarrow> m + length starts \<le> n + k \<Longrightarrow>
   \<exists>w'. start_sequences assoc r c cb starts w = Inr w' \<and> cycling assoc r n k (m + length starts) v w'"
proof (induction starts arbitrary: m w)
  case (Cons x starts)
  obtain now now' where x: "x = (now, now')" by (cases x)
  obtain w1 out where step: "async_get_auto_waste assoc r c cb benchmark_timeout now now' w = Inr (w1, out)"
    "cycling assoc r n k (Suc m) v w1"
    using cycling_request [OF Cons.prems(1), of c cb now now'] Cons.prems(2) by auto
  with Cons.IH [OF step(2)] Cons.prems(2) show ?case
    by (simp add: x)
qed simp

lemma created_cycling:
  assumes "async_pool_create n k timeout life = Inr p" and "\<forall>r'. r' \<noteq> r \<longrightarrow> site_ok assoc r' (w r')"
  shows "cycling assoc r n k 0 0 (w(r := (p, [])))"
proof -
  note fresh = async_create_inv(2-7) [OF assms(1)]
  have ok: "async_world_ok assoc (w(r := (p, [])))"
    using assms(2) created_site_ok(1) [OF assms(1)] by (simp add: async_world_ok_def)
  have "counts_upto 0 (ap_storage p)"
    using assms(1)
    by (auto simp: async_pool_create_def and_then_Inr_iff counts_upto_def storage_of_capacity_def idle_empty_def)
  then show ?thesis
    using fresh created_site_ok(2) [OF assms(1)]
    by (intro cyclingI [OF fresh(6) ok fun_upd_same]) simp_all
qed

lemma callbacks_st_ok:
  fixes w :: "('c, 'x, unit, 'u, int) async_world"
  assumes "0 < ba_resources args" and "0 < ba_sequences args"
    and "ba_sequences args \<le> ba_resources args + ba_queue_size args"
    and "tick_range (int (length turns))" and "list_all (list_ex is_handler) turns"
  shows "\<exists>codes w'. callbacks_st assoc () c cb args starts turns w
      = Some (Inr (codes, \<lparr>bc_stop = True, bc_ready_count = int (length turns)\<rparr>, w'))
    \<and> length codes = length turns \<and> set codes \<subseteq> {no_error, make_error_code Get_Resource_Timeout}"
proof -
  let ?n = "ba_resources args" and ?k = "ba_queue_size args" and ?ss = "map starts [0..<ba_sequences args]"
  obtain p :: "('c, 'x, (unit, 'u) on_get_handler, int) async_pool"
    where p: "async_pool_create ?n ?k duration_max duration_max = Inr p"
    using assms(1) by (simp add: async_pool_create_def async_assert_capacity_def)
  have "cycling assoc () ?n ?k 0 0 (w(() := (p, [])))"
    by (rule created_cycling [OF p]) simp
  from start_sequences_ok [OF this, of ?ss c cb] assms(3)
  obtain w1 where w1: "start_sequences assoc () c cb ?ss (w(() := (p, []))) = Inr w1"
    "cycling assoc () ?n ?k (ba_sequences args) 0 w1"
    by auto
  let ?ctx = "\<lparr>bc_stop = False, bc_ready_count = 0\<rparr>"
  obtain ecs w2 where run: "keep_running assoc () c turns ([], ?ctx, w1)
      = Some (Inr (ecs, ?ctx\<lparr>bc_ready_count := int (length turns)\<rparr>, w2))"
    "length ecs = length turns" "set ecs \<subseteq> {no_error, make_error_code Get_Resource_Timeout}"
    "cycling assoc () ?n ?k (ba_sequences args) (int (length turns)) w2"
    using keep_running_ok [OF w1(2) assms(2,3) _ _ _ _ assms(5), of ?ctx c "[]"] assms(4) by auto
  obtain p2 ts where w2: "w2 () = (p2, ts)" by (cases "w2 ()")
  obtain p3 calls where "async_disable p2 = Inr (p3, calls)"
    using async_disable_ok [OF site_ok_parts(1) [OF cyclingD(3) [OF run(4) w2]]] by metis
  then show ?thesis
    using run(1-3) by (simp add: callbacks_st_def async_pool_construct_def p w1(1) async_pool_destroy_def at_site_def w2)
qed

text \<open>
  The rows of the table. Those for one thread start as many sequences as there is room for. Those for
  two start twice as many, so that callbacks are refused with an overflow of the queue and ask again
  at once; and the benchmark of coroutines, which takes the wrong one of its two versions, runs all
  rows in one thread.
\<close>

lemma benchmark_rows:
  "\<forall>args \<in> set benchmarks. 0 < ba_resources args \<and> 0 < ba_sequences args
    \<and> (ba_sequences args \<le> ba_resources args + ba_queue_size args)
    \<and> (ba_threads args = 1 \<or> ba_resources args + ba_queue_size args < callback_threads args * ba_sequences args)
    \<and> coroutine_threads args = 1"
  by (simp add: benchmarks_def benchmark_row_def callback_threads_def coroutine_threads_def)

text \<open>
  C27. The benchmark of callbacks never stalls in one thread: for each row of its table, whatever the order
  in which handlers run, whenever timers end and however cells are given back, there is a handler to run
  at every turn of the measured loop, each turn ends with exactly one call of a callback, no count
  overflows, and a callback only ever hears of success or of a timeout, never of an overflow of the queue.
\<close>

theorem benchmark_never_stalls:
  assumes "args \<in> set benchmarks" and "ba_threads args = 1"
    and "tick_range (int (length turns))" and "list_all (list_ex is_handler) turns"
  shows "\<exists>codes w'. callbacks_st assoc () c cb args starts turns w
      = Some (Inr (codes, \<lparr>bc_stop = True, bc_ready_count = int (length turns)\<rparr>, w'))
    \<and> length codes = length turns \<and> set codes \<subseteq> {no_error, make_error_code Get_Resource_Timeout}"
  using benchmark_rows assms by (intro callbacks_st_ok) auto

definition demo_turns :: "benchmark_event list list" where
  "demo_turns =
     [[Handler_Ready 0 \<lparr>recycles = True, filled_at = epoch, back_at = epoch, asked_at = epoch, pushed_at = epoch\<rparr>],
      [Timer_Ended no_error (add epoch benchmark_timeout),
       Handler_Ready 1 \<lparr>recycles = False, filled_at = epoch, back_at = epoch, asked_at = epoch, pushed_at = epoch\<rparr>]]"

definition demo_world :: "(string, string, unit, nat, int) async_world" where
  "demo_world = (\<lambda>_. (\<lparr>ap_storage = storage_of_capacity 1 duration_max duration_max, ap_capacity = 1,
     ap_queue = rq_new 1, ap_disabled = False\<rparr>, []))"

theorem benchmark_never_stalls_witness:
  "\<exists>codes w'. callbacks_st (\<lambda>_. ''executor'') () ''context'' 0 (benchmark_row (2, 1, 1, 1))
      (\<lambda>_. (epoch, epoch)) demo_turns demo_world
      = Some (Inr (codes, \<lparr>bc_stop = True, bc_ready_count = 2\<rparr>, w'))
    \<and> length codes = 2 \<and> set codes \<subseteq> {no_error, make_error_code Get_Resource_Timeout}"
proof -
  have "benchmark_row (2, 1, 1, 1) \<in> set benchmarks" "ba_threads (benchmark_row (2, 1, 1, 1)) = 1"
    by (simp_all add: benchmarks_def benchmark_row_def)
  moreover have two: "length demo_turns = 2"
    by (simp add: demo_turns_def)
  moreover have "tick_range (int (length demo_turns))" "list_all (list_ex is_handler) demo_turns"
    by (simp_all add: demo_turns_def tick_defs)
  ultimately show ?thesis
    using benchmark_never_stalls [of "benchmark_row (2, 1, 1, 1)" demo_turns "\<lambda>_. ''executor''" "''context''"
        0 "\<lambda>_. (epoch, epoch)" demo_world] by simp
qed

end
