(* ===== verification/Spec2Isabelle.thy ===== *)
theory Spec2Isabelle
  imports Storage_Runs Value_Roundtrip Sync_Wakeups Queue_Timeouts Async_Branches Async_Semaphore
    Async_Shutdown Async_Clients Async_Discards Shared_Leaks Sync_Lifetimes Async_Deadlock Sync_Example
    Async_Examples Benchmark_Callbacks
begin

text \<open>
  Verification of the resource pool library (\<open>include/yamail/resource_pool\<close>).

  The program. A pool owns a fixed number of cells, each of which may hold a value. A caller gets a
  handle that owns one cell, puts a value into it or uses the one it finds, and gives the cell back
  with its value (\<open>recycle\<close>) or without it (\<open>waste\<close>). The synchronous pool makes a caller wait on a
  condition variable when no cell is free; the asynchronous pool queues the request with a deadline
  and completes the caller's handler through Boost.Asio.

  The parts, bottom up, with their theories:

  \<^item> \<open>error.hpp\<close>: \<open>Errors\<close>. Codes, messages and the exceptions. \<open>Prelude\<close> has the faults: an operation
    returns, throws an exception, or has undefined behaviour, and the three are values of a sum type.
  \<^item> \<open>time_traits.hpp\<close>: \<open>Time_Traits\<close>. Clock readings and durations are signed 64-bit counts; every
    reading of the clock is an argument of the operation that makes it.
  \<^item> \<open>detail/idle.hpp\<close>, \<open>detail/storage.hpp\<close>: \<open>Storage\<close>. The three lists of cells are lists of node
    addresses beside a store of node contents, so that a splice moves an address and an iterator is an
    address (or singular). \<open>Storage_Contract\<close> has the invariant, \<open>Cell_Store\<close> the interface the pools
    use (locale \<open>cell_store\<close>, interpretation \<open>cells\<close>), \<open>Storage_Runs\<close> and \<open>Value_Roundtrip\<close> what a user
    of the storage and of the handles sees of the timeouts and of \<open>invalidate\<close>.
  \<^item> \<open>handle.hpp\<close>, \<open>detail/pool_returns.hpp\<close>: \<open>Handle\<close> and \<open>Pool_Returns\<close>. Handles live in variables and
    reach their pool through a record of the virtual functions. The locale \<open>pool_returns\<close> states what
    a pool promises to its handles; its lemmas say that any sequence of operations on handles is
    defined and that usable handles and lent cells correspond one to one (\<open>owns\<close>).
  \<^item> \<open>sync/detail/pool_impl.hpp\<close>: \<open>Sync_Pool_Impl\<close>, with the interpretation \<open>sync_returns\<close> of
    \<open>pool_returns\<close>; \<open>Sync_Threads\<close> has the same code as steps of any number of interleaved threads
    (an inductive relation; a thread that was notified may still report a timeout), \<open>Sync_Wakeups\<close> its
    invariants, \<open>Sync_Lifetimes\<close> the calls of \<open>get_handle\<close> around them (\<open>sync/pool.hpp\<close>) and what happens
    to those that are under way when the pool is destroyed.
  \<^item> \<open>sync/pool.hpp\<close>: \<open>Sync_Pool\<close>, with programs of a client.
  \<^item> \<open>async/detail/queue.hpp\<close>: \<open>Request_Queue\<close>. Two lists of nodes, a multimap of deadlines and a map of
    timers; calls of Boost.Asio are outputs. \<open>Queue_Contract\<close> has the representation invariant and
    the legality of the calls on timers, \<open>Queue_Refinement\<close> each operation against the list of waiting
    requests, \<open>Deadline_Queue\<close> the interface (locale \<open>deadline_queue\<close>, interpretation \<open>requests\<close>) and
    runs against a bounded first-in first-out list, \<open>Queue_Timeouts\<close> what the timers do alone.
  \<^item> \<open>async/detail/pool_impl.hpp\<close>: \<open>Handlers\<close> (the completion handlers and what calling them does),
    \<open>Async_Pool_Impl\<close> (the operations), \<open>Async_Contract\<close> (the outcome of each), \<open>Async_Runs\<close> (any
    interleaving of threads, I/O contexts and timers, as a sequence of events), \<open>Async_Guarantees\<close>,
    \<open>Async_Branches\<close>, \<open>Async_Shutdown\<close> (what follows for callers), \<open>Async_Discards\<close> (an I/O context
    that is destroyed with tasks) and \<open>Async_Semaphore\<close> (the abstract specification, a counting
    semaphore with a bounded queue of waiters, and the refinement, for events that split \<open>disable\<close> into
    its pops).
  \<^item> \<open>async/pool.hpp\<close>: \<open>Async_Pool\<close>, with the interpretation \<open>async_returns\<close> of \<open>pool_returns\<close>, and
    \<open>Async_Clients\<close>, programs of a client. \<open>Pool_Lifetimes\<close> has the constructors and moves of both
    public pools.
  \<^item> The shared implementations of asynchronous pools: \<open>Shared_Pools\<close> has a memory in which an
    implementation exists as long as a pool, a handle, a handler or the program has a shared pointer to
    it, and programs over all of these; \<open>Shared_Safety\<close> the invariant of all programs,
    \<open>Shared_Lifetimes\<close> what follows, the reference cycle of an abandoned pool included, \<open>Shared_Leaks\<close>
    when there is none (\<open>calm_returns\<close>, a second interpretation of \<open>pool_returns\<close> with a stronger
    invariant).
  \<^item> The asynchronous pool once more, step by step: \<open>Async_Threads\<close> has threads that take one step of an
    operation at a time, the owner of the pool's mutex, and \<open>dispatch\<close> that may call a handler on the
    spot; \<open>Async_Thread_Safety\<close> the invariant of all interleavings, \<open>Async_Thread_Guarantees\<close> what
    follows, and that an operation that nobody interrupts is the one of \<open>Async_Pool_Impl\<close>,
    \<open>Async_Deadlock\<close> when everything under way can be completed.
  \<^item> \<open>examples/\<close>: \<open>Example_Files\<close> (streams as values of a pool; locale \<open>file_pool\<close>, which extends
    \<open>pool_returns\<close> by laws on the contents of cells), \<open>Sync_Example\<close> and \<open>Async_Examples\<close> (locale
    \<open>completion\<close>, what the programs need of the body that uses a handle), with interpretations on both
    pools and on the three bodies. \<open>Timer_Waits\<close> keeps the waits on timers that are armed or aborted, so
    that \<open>service.run()\<close> returns only when no work is left.
  \<^item> \<open>benchmarks/async.cc\<close>: \<open>Benchmark_Callbacks\<close>, the table of arguments and the benchmark of callbacks in
    one thread.

  How the parts interact. A pool leases cells from its storage and returns them to it; the storage
  promises \<open>cell_store\<close>. Handles call the virtual functions of \<open>pool_returns\<close>; both pools promise
  that contract, and the lemmas on handles are proved once, in the locale. The asynchronous pool gives
  a returned cell to the oldest request of its queue, and the queue promises \<open>deadline_queue\<close>. Pools
  live at addresses \<open>'r\<close> in a world, so that a client may use several.

  What is shown, in groups: no undefined behaviour and no leaked or shared cell for clients of either
  pool (for the synchronous one as long as \<open>get\<close> succeeds) and for any interleaving;
  wake-ups of the synchronous pool lost only by threads that time out after they were notified; each
  handler called exactly once, with the right code, cell and executor; the queue and the asynchronous
  pool as refinements of abstract specifications; loops terminate (\<open>lease\<close>,
  \<open>disable\<close>, the timers); what the timeouts, \<open>invalidate\<close>,
  \<open>disable\<close> and the destructors guarantee; saturation of the clock arithmetic; the errors
  of constructors and handles; that no implementation of an asynchronous pool is used after its
  destruction, and that it is destroyed at rest; what the example programs and the benchmark do. Some
  theorems state behaviour that callers may not expect: the handle of a failed synchronous
  \<open>get\<close> is fatal, its wait duration does not bound it, a thread whose deadline has passed
  can swallow the notification that another one sleeps for, overlapping asynchronous calls can leave a
  request waiting beside a free cell, a mark of \<open>invalidate\<close> outlives the value it was
  meant for, a replaced pool is never disabled and may be kept by its own requests until their timer
  ends, a destroyed synchronous pool is used by every call of \<open>get_handle\<close> that is under
  way, a cell whose delivery an I/O context discards is lost, a handler that \<open>disable\<close>
  calls at once must not use the pool (the only deadlock there is), and the examples print a difference
  of times that overflows.

  Bounds. Nothing is bounded in the model but the 64-bit counts of the clock: programs, runs, numbers of
  threads, pools, cells and requests are arbitrary. No operation needs fuel: \<open>lease\<close>
  shortens the list of available cells, \<open>refuse_queued\<close> and \<open>time_out\<close> shorten
  the queue, and the loop of the synchronous \<open>get\<close> consumes the wake-ups it is given,
  \<open>None\<close> meaning that it still waits, as the loops of the benchmark consume events. The
  schedules of the examples are turns of the I/O context: three for each request are shown to be enough,
  one more starts the coroutine.

  Granularity. In most theories an operation that holds the pool's mutex for its whole body is one step,
  and a dispatched handler is a task like a posted one. The synchronous \<open>get\<close> is split at
  its waits, the asynchronous \<open>get\<close> where it releases the mutex before it pushes; the
  queue's own mutex makes each of its operations one step. \<open>Disable_Pool\<close> of
  \<open>Async_Runs\<close> is a call of \<open>disable\<close> whose loop nobody disturbs;
  \<open>Async_Semaphore\<close> has the calls between whose pops requests are pushed, waits end and
  tasks are executed, and shows that the undisturbed pieces are \<open>Disable_Pool\<close>.
  \<open>Async_Threads\<close> drops these assumptions for the asynchronous pool: locking, the operation
  on the queue, the one on the storage and unlocking are steps of their own, \<open>disable\<close>
  takes a step for each request, requests can be pushed and can expire between any two of them, and a
  dispatched handler may run under the mutex. \<open>operation_alone_is_atomic\<close> links the two.

  Not modelled. Boost.Asio and the standard containers beyond what is said above; memory and its
  exhaustion (addresses are reused in \<open>Shared_Pools\<close> only; elsewhere a pool, once built, stays at its
  address and the weak pointer of a timer's completion always locks); exceptions thrown by generators, values or handlers;
  completion tokens other than handlers; the const overloads of accessors, which do what the others do;
  type traits, deduction guides and default template arguments. Of the examples, the file system, the
  clock and the scheduler are parameters. Of \<open>benchmarks\<close>, the versions with several threads and with
  coroutines are left out but for the choice between them. \<open>tests\<close> use the library through its
  interface and are left out.
\<close>

end
